(* ===== verification/Prelude.thy ===== *)
theory Prelude
  imports Main "HOL-Library.Word"
begin

text \<open>
  Shared vocabulary of the development: the machine integer types the C++ code uses, the ways
  an operation can fail, sequencing of fallible operations, and arithmetic of ring indices
  (unsigned 32-bit slot numbers that run from \<open>0\<close> to \<open>size - 1\<close> and start again).
\<close>

section \<open>Machine integers and faults\<close>

type_synonym u8 = "8 word"
type_synonym u16 = "16 word"
type_synonym u32 = "32 word"
type_synonym u64 = "64 word"

text \<open>
  \<open>std::atomic<int>\<close> counters wrap around in two's complement, so they are 32-bit words;
  \<open>sint\<close> reads their value.
\<close>

type_synonym atomic_int = "32 word"

text \<open>
  What can end an operation other than by returning: a failed \<open>assert\<close>, an exception the
  code throws, or a memory access C++ gives no meaning to (a null or dangling pointer, a slot
  out of range, an object that is not alive, memory freed by the wrong function).
\<close>

datatype fault =
    AssertFailed
  | BadAlloc
  | GenericConfigurationError
  | ConfigurationError
  | InitializationError
  | ResourceQueueError
  | ConnectionNotFound
  | FailedFakeCardInitialization
  | FailedReadoutInitialization
  | StartParametersMissing
  | CannotOpenFile
  | NullDeref
  | InvalidAccess
  | InvalidFree
  | DivisionByZero

definition bindE :: "'e + 'a \<Rightarrow> ('a \<Rightarrow> 'e + 'b) \<Rightarrow> 'e + 'b" where
  "bindE m f = (case m of Inl e \<Rightarrow> Inl e | Inr x \<Rightarrow> f x)"

named_theorems ring_simps \<open>arithmetic of ring indices at the level of natural numbers\<close>
named_theorems fault_simps \<open>sequencing of fallible operations\<close>

lemma bindE_Inl [simp, fault_simps]: "bindE (Inl e) f = Inl e"
  by (simp add: bindE_def)

lemma bindE_Inr [simp, fault_simps]: "bindE (Inr x) f = f x"
  by (simp add: bindE_def)

lemma bindE_eq_Inr_iff: "bindE m f = Inr y \<longleftrightarrow> (\<exists>x. m = Inr x \<and> f x = Inr y)"
  by (cases m) auto

lemma bindE_eq_Inl_iff: "bindE m f = Inl e \<longleftrightarrow> m = Inl e \<or> (\<exists>x. m = Inr x \<and> f x = Inl e)"
  by (cases m) auto

section \<open>Ring indices\<close>

text \<open>
  The successor of a slot number in a ring of \<open>n\<close> slots, as every operation of the queue
  computes it: add one, and start again at 0 when the sum is the size.
\<close>

definition next_index :: "u32 \<Rightarrow> u32 \<Rightarrow> u32" where
  "next_index n i = (let nextRecord = i + 1 in if nextRecord = n then 0 else nextRecord)"

lemma add_mod_ring [ring_simps]:
  "(r::nat) < n \<Longrightarrow> k \<le> n \<Longrightarrow> (r + k) mod n = (if r + k < n then r + k else r + k - n)"
  by (auto simp: mod_if)

lemma Suc_mod_ring [ring_simps]: "(r::nat) < n \<Longrightarrow> Suc r mod n = (if Suc r = n then 0 else Suc r)"
  by (auto simp: mod_if)

lemma unat_plus_one: "unat (i::'a::len word) + 1 < 2 ^ LENGTH('a) \<Longrightarrow> unat (i + 1) = unat i + 1"
  by (simp add: unat_plus_if')

lemma unat_less_size: "i < (n::u32) \<Longrightarrow> unat i < unat n"
  by (simp add: word_less_nat_alt)

lemma unat_next_index [ring_simps]:
  assumes "i < n"
  shows "unat (next_index n i) = (unat i + 1) mod unat n"
proof -
  have lt: "unat i < unat n" using assms by (simp add: word_less_nat_alt)
  have bound: "unat n < 2 ^ 32" using unsigned_less [where 'a = nat, of n] by simp
  have suc: "unat (i + 1) = unat i + 1"
    using lt bound by (intro unat_plus_one) simp
  show ?thesis
  proof (cases "i + 1 = n")
    case True
    then have "unat n = unat i + 1" using suc by simp
    then show ?thesis using True by (simp add: next_index_def)
  next
    case False
    then have "unat i + 1 \<noteq> unat n" using suc by (metis word_unat_eq_iff)
    then show ?thesis using False lt suc by (simp add: next_index_def)
  qed
qed

lemma next_index_less: "i < n \<Longrightarrow> next_index n i < n"
  using unat_next_index [of i n] by (simp add: word_less_nat_alt)

lemma ring_bound: "(r::nat) < n \<Longrightarrow> (r + k) mod n < n"
  by simp

text \<open>The index difference the way the code computes it, in signed arithmetic.\<close>

lemma ring_diff_int:
  "r < n \<Longrightarrow> w < n \<Longrightarrow>
   (let ret = int w - int r; ret = (if ret < 0 then ret + int n else ret) in f ret) =
   f (int (if r \<le> w then w - r else n + w - r))"
  by (auto simp: Let_def intro!: arg_cong [of _ _ f])

section \<open>Conversions between widths\<close>

lemma sint_small: "unat (w::u32) < 2 ^ 31 \<Longrightarrow> sint w = int (unat w)"
proof -
  assume "unat w < 2 ^ 31"
  then have "int (unat w) < int (2 ^ 31)" by (simp only: of_nat_less_iff)
  then have "uint w < 2 ^ 31" by simp
  moreover have "- (2 ^ 31) \<le> uint w"
    by (rule order_trans [of _ 0]) simp_all
  ultimately have "signed_take_bit 31 (uint w) = uint w"
    by (intro signed_take_bit_int_eq_self)
  then show ?thesis by (simp add: sint_uint)
qed

lemma unat_u32_less: "unat (w::u32) < 2 ^ 32"
  using unsigned_less [where 'a = nat, of w] by simp

lemma unat_u64_less: "unat (w::u64) < 2 ^ 64"
  using unsigned_less [where 'a = nat, of w] by simp

lemma unat_of_nat_u64: "n < 2 ^ 64 \<Longrightarrow> unat (of_nat n :: u64) = n"
  by (simp add: unsigned_of_nat take_bit_nat_eq_self)

lemma unat_of_nat_u32: "n < 2 ^ 32 \<Longrightarrow> unat (of_nat n :: u32) = n"
  by (simp add: unsigned_of_nat take_bit_nat_eq_self)

lemma unat_ucast_u64 [simp]: "unat (ucast (w::u32) :: u64) = unat w"
  using unat_u32_less [of w] by (simp add: unsigned_ucast_eq take_bit_nat_eq_self)

end
