(* ===== verification/Iterable_Queue.thy ===== *)
theory Iterable_Queue
  imports Prelude
begin

text \<open>
  The single-producer single-consumer ring buffer \<open>IterableQueueModel\<close>
  (models/IterableQueueModel.hpp and models/detail/IterableQueueModel.hxx): its state, memory
  management, queue operations and iterators, each as a function on the state. Slots of the
  underlying array are raw memory or hold a live object; constructing, reading and destroying
  an object check that. This theory holds the definitions and the functional behaviour of each
  operation on a well-formed queue; interleavings of the producer and the consumer are the
  subject of \<open>Spsc_Protocol\<close>.
\<close>

section \<open>State\<close>

datatype allocator = StdMalloc | AlignedAlloc u64 | MmMalloc u64 | NumaAlloc u8

text \<open>
  What the pointer \<open>records_\<close> refers to: nothing, an allocated array of slots (with the
  allocator it came from), or memory that was freed or never initialised.
\<close>

datatype 'a region = NullPtr | Region allocator "'a option list" | Dangling

text \<open>
  The build and run-time environment: whether the program was built with libnuma, whether an
  allocation request succeeds, and whether the element type has a trivial destructor.
\<close>

record build_env =
  with_libnuma :: bool
  alloc_succeeds :: "allocator \<Rightarrow> u64 \<Rightarrow> bool"
  trivially_destructible :: bool

record 'a iterable_queue =
  numa_aware :: bool
  numa_node :: u8
  intrinsic_allocator :: bool
  alignment_size :: u64
  invalid_configuration_requested :: bool
  prefill_ready :: bool
  prefill_done :: bool
  overflow_ctr :: atomic_int
  qsize :: u32
  records :: "'a region"
  readIndex :: u32
  writeIndex :: u32

text \<open>The configuration object \<open>appmodel::LatencyBuffer\<close>, as the getters \<open>conf\<close> reads.\<close>

record latency_buffer_conf =
  cfg_size :: u64
  cfg_numa_aware :: bool
  cfg_numa_node :: u8
  cfg_intrinsic_allocator :: bool
  cfg_alignment_size :: u64
  cfg_preallocation :: bool

section \<open>Slots\<close>

fun slot :: "'a region \<Rightarrow> nat \<Rightarrow> fault + 'a" where
  "slot (Region a xs) i =
     (if i < length xs then (case xs ! i of None \<Rightarrow> Inl InvalidAccess | Some x \<Rightarrow> Inr x)
      else Inl InvalidAccess)"
| "slot NullPtr i = Inl NullDeref"
| "slot Dangling i = Inl InvalidAccess"

fun construct :: "'a \<Rightarrow> nat \<Rightarrow> 'a region \<Rightarrow> fault + 'a region" where
  "construct x i (Region a xs) =
     (if i < length xs then Inr (Region a (xs[i := Some x])) else Inl InvalidAccess)"
| "construct x i NullPtr = Inl NullDeref"
| "construct x i Dangling = Inl InvalidAccess"

fun destroy :: "nat \<Rightarrow> 'a region \<Rightarrow> fault + 'a region" where
  "destroy i (Region a xs) =
     (if i < length xs \<and> xs ! i \<noteq> None then Inr (Region a (xs[i := None])) else Inl InvalidAccess)"
| "destroy i NullPtr = Inl NullDeref"
| "destroy i Dangling = Inl InvalidAccess"

fun live_count :: "'a region \<Rightarrow> nat" where
  "live_count (Region a xs) = length (filter (\<lambda>s. s \<noteq> None) xs)"
| "live_count _ = 0"

lemma length_filter_update_None:
  "i < length xs \<Longrightarrow> xs ! i \<noteq> None \<Longrightarrow>
   length (filter (\<lambda>s. s \<noteq> None) (xs[i := None])) < length (filter (\<lambda>s. s \<noteq> None) xs)"
proof (induction xs arbitrary: i)
  case Nil
  then show ?case by simp
next
  case (Cons y ys)
  then show ?case by (cases i) auto
qed

lemma live_count_destroy: "destroy i r = Inr r' \<Longrightarrow> live_count r' < live_count r"
proof (cases r)
  case (Region a xs)
  assume "destroy i r = Inr r'"
  with Region have "i < length xs \<and> xs ! i \<noteq> None" and "r' = Region a (xs[i := None])"
    by (auto split: if_splits)
  with Region length_filter_update_None [of i xs] show ?thesis by simp
qed auto

section \<open>Memory management\<close>

text \<open>
  The destructor loop of \<open>free_memory\<close>: it ends because every round destroys a live object.
\<close>

function destroy_range :: "nat \<Rightarrow> nat \<Rightarrow> nat \<Rightarrow> 'a region \<Rightarrow> fault + 'a region" where
  "destroy_range n readIdx endIdx r =
     (if readIdx = endIdx then Inr r
      else case destroy readIdx r of
             Inl e \<Rightarrow> Inl e
           | Inr r' \<Rightarrow> destroy_range n (if readIdx + 1 = n then 0 else readIdx + 1) endIdx r')"
  by pat_completeness auto
termination
  by (relation "measure (\<lambda>(n, i, e, r). live_count r)") (auto simp: live_count_destroy)

declare destroy_range.simps [simp del]

text \<open>
  The free function chosen by the flags must be the one that belongs to the allocator;
  \<open>std::free\<close> releases \<open>malloc\<close> and \<open>aligned_alloc\<close> memory. Without libnuma the NUMA branch
  is compiled out and frees nothing.
\<close>

fun frees :: "bool \<Rightarrow> bool \<Rightarrow> allocator \<Rightarrow> bool" where
  "frees intrinsic numa StdMalloc = (\<not> intrinsic \<and> \<not> numa)"
| "frees intrinsic numa (AlignedAlloc _) = (\<not> intrinsic \<and> \<not> numa)"
| "frees intrinsic numa (MmMalloc _) = intrinsic"
| "frees intrinsic numa (NumaAlloc _) = (\<not> intrinsic \<and> numa)"

definition release :: "build_env \<Rightarrow> 'a iterable_queue \<Rightarrow> fault + 'a region" where
  "release env q =
     (if \<not> intrinsic_allocator q \<and> numa_aware q \<and> \<not> with_libnuma env then Inr (records q)
      else case records q of
             NullPtr \<Rightarrow> Inr NullPtr
           | Dangling \<Rightarrow> Inl InvalidFree
           | Region a _ \<Rightarrow> (if frees (intrinsic_allocator q) (numa_aware q) a
                           then Inr Dangling else Inl InvalidFree))"

definition free_memory :: "build_env \<Rightarrow> 'a iterable_queue \<Rightarrow> fault + 'a iterable_queue" where
  "free_memory env q =
     bindE (if trivially_destructible env then Inr (records q)
            else destroy_range (unat (qsize q)) (unat (readIndex q)) (unat (writeIndex q)) (records q))
       (\<lambda>r. bindE (release env (q\<lparr>records := r\<rparr>)) (\<lambda>r'. Inr (q\<lparr>records := r'\<rparr>)))"

definition alloc_region :: "build_env \<Rightarrow> allocator \<Rightarrow> u64 \<Rightarrow> 'a region" where
  "alloc_region env a sz =
     (if alloc_succeeds env a sz then Region a (replicate (unat sz) None) else NullPtr)"

definition allocate_memory ::
  "build_env \<Rightarrow> u64 \<Rightarrow> bool \<Rightarrow> u8 \<Rightarrow> bool \<Rightarrow> u64 \<Rightarrow> 'a iterable_queue \<Rightarrow> fault + 'a iterable_queue"
where
  "allocate_memory env sz numa node intrinsic align q =
     (if sz < 2 then Inl AssertFailed
      else bindE
        (if numa \<and> node < 8 then
           (if with_libnuma env then Inr (alloc_region env (NumaAlloc node) sz)
            else Inl GenericConfigurationError)
         else if intrinsic \<and> align > 0 then Inr (alloc_region env (MmMalloc align) sz)
         else if \<not> intrinsic \<and> align > 0 then Inr (alloc_region env (AlignedAlloc align) sz)
         else if \<not> numa \<and> \<not> intrinsic \<and> align = 0 then Inr (alloc_region env StdMalloc sz)
         else Inr (records q))
        (\<lambda>r. Inr (q\<lparr>records := r, qsize := ucast sz, numa_aware := numa, numa_node := node,
                    intrinsic_allocator := intrinsic, alignment_size := align\<rparr>)))"

text \<open>Only the size given: the standard allocator.\<close>

definition allocate_size :: "build_env \<Rightarrow> u64 \<Rightarrow> 'a iterable_queue \<Rightarrow> fault + 'a iterable_queue" where
  "allocate_size env sz q = allocate_memory env sz False 0 False 0 q"

text \<open>
  The constructors. In the third one \<open>records_\<close> has no initialiser, so it is indeterminate
  until \<open>allocate_memory\<close> sets it.
\<close>

definition default_queue :: "build_env \<Rightarrow> 'a iterable_queue" where
  "default_queue env =
     \<lparr>numa_aware = False, numa_node = 0, intrinsic_allocator = False, alignment_size = 0,
      invalid_configuration_requested = False, prefill_ready = False, prefill_done = False,
      overflow_ctr = 0, qsize = 2, records = alloc_region env StdMalloc 2,
      readIndex = 0, writeIndex = 0\<rparr>"

definition sized_queue :: "build_env \<Rightarrow> u64 \<Rightarrow> fault + 'a iterable_queue" where
  "sized_queue env sz =
     (if sz < 2 then Inl AssertFailed
      else case alloc_region env StdMalloc sz of
             NullPtr \<Rightarrow> Inl BadAlloc
           | r \<Rightarrow> Inr ((default_queue env)\<lparr>qsize := ucast sz, records := r\<rparr>))"

definition aligned_queue ::
  "build_env \<Rightarrow> u64 \<Rightarrow> bool \<Rightarrow> u8 \<Rightarrow> bool \<Rightarrow> u64 \<Rightarrow> fault + 'a iterable_queue" where
  "aligned_queue env sz numa node intrinsic align =
     (if sz < 2 then Inl AssertFailed
      else bindE (allocate_memory env sz numa node intrinsic align
                    ((default_queue env)\<lparr>qsize := ucast sz, records := Dangling\<rparr>))
             (\<lambda>q. if records q = NullPtr then Inl BadAlloc else Inr q))"

section \<open>Queue operations\<close>

definition write_q :: "'a \<Rightarrow> 'a iterable_queue \<Rightarrow> fault + (bool \<times> 'a iterable_queue)" where
  "write_q record q =
     (let currentWrite = writeIndex q;
          nextRecord = next_index (qsize q) currentWrite
      in if nextRecord \<noteq> readIndex q
         then bindE (construct record (unat currentWrite) (records q))
                (\<lambda>r. Inr (True, q\<lparr>records := r, writeIndex := nextRecord\<rparr>))
         else Inr (False, q\<lparr>overflow_ctr := overflow_ctr q + 1\<rparr>))"

text \<open>The hidden \<open>write_\<close>, which builds the element in place from constructor arguments.\<close>

definition write_args :: "('b \<Rightarrow> 'a) \<Rightarrow> 'b \<Rightarrow> 'a iterable_queue \<Rightarrow> fault + (bool \<times> 'a iterable_queue)"
where
  "write_args ctor recordArgs q =
     (let currentWrite = writeIndex q;
          nextRecord = next_index (qsize q) currentWrite
      in if nextRecord \<noteq> readIndex q
         then bindE (construct (ctor recordArgs) (unat currentWrite) (records q))
                (\<lambda>r. Inr (True, q\<lparr>records := r, writeIndex := nextRecord\<rparr>))
         else Inr (False, q\<lparr>overflow_ctr := overflow_ctr q + 1\<rparr>))"

definition read_q :: "'a iterable_queue \<Rightarrow> fault + ('a option \<times> 'a iterable_queue)" where
  "read_q q =
     (let currentRead = readIndex q
      in if currentRead = writeIndex q then Inr (None, q)
         else let nextRecord = next_index (qsize q) currentRead
              in bindE (slot (records q) (unat currentRead))
                   (\<lambda>record. bindE (destroy (unat currentRead) (records q))
                      (\<lambda>r. Inr (Some record, q\<lparr>records := r, readIndex := nextRecord\<rparr>))))"

definition popFront :: "'a iterable_queue \<Rightarrow> fault + 'a iterable_queue" where
  "popFront q =
     (let currentRead = readIndex q
      in if currentRead = writeIndex q then Inl AssertFailed
         else let nextRecord = next_index (qsize q) currentRead
              in bindE (destroy (unat currentRead) (records q))
                   (\<lambda>r. Inr (q\<lparr>records := r, readIndex := nextRecord\<rparr>)))"

fun pop_q :: "nat \<Rightarrow> 'a iterable_queue \<Rightarrow> fault + 'a iterable_queue" where
  "pop_q 0 q = Inr q"
| "pop_q (Suc x) q = bindE (popFront q) (pop_q x)"

definition isEmpty :: "'a iterable_queue \<Rightarrow> bool" where
  "isEmpty q \<longleftrightarrow> readIndex q = writeIndex q"

definition isFull :: "'a iterable_queue \<Rightarrow> bool" where
  "isFull q \<longleftrightarrow> next_index (qsize q) (writeIndex q) = readIndex q"

text \<open>
  The index difference is computed in \<open>int\<close>: the indices are read_q as signed 32-bit numbers, so
  the value is meaningful for sizes below \<open>2 ^ 31\<close>, which the invariant demands.
\<close>

definition occupancy_q :: "'a iterable_queue \<Rightarrow> u64" where
  "occupancy_q q =
     (let ret = sint (writeIndex q) - sint (readIndex q);
          ret = (if ret < 0 then ret + sint (qsize q) else ret)
      in word_of_int ret)"

definition capacity :: "'a iterable_queue \<Rightarrow> u64" where
  "capacity q = ucast (qsize q) - 1"

text \<open>Pointers to elements are slot numbers; \<open>nullptr\<close> is \<open>None\<close>.\<close>

definition front_q :: "'a iterable_queue \<Rightarrow> u32 option" where
  "front_q q = (let currentRead = readIndex q
              in if currentRead = writeIndex q then None else Some currentRead)"

definition back_q :: "'a iterable_queue \<Rightarrow> u32 option" where
  "back_q q =
     (let currentWrite = writeIndex q
      in if currentWrite = readIndex q then None
         else let currentLast = currentWrite
              in Some (if currentLast = 0 then qsize q - 1 else currentLast - 1))"

definition flush_q :: "'a iterable_queue \<Rightarrow> fault + 'a iterable_queue" where
  "flush_q q = pop_q (unat (occupancy_q q)) q"

section \<open>Pre-filling, configuration, scrapping\<close>

fun prefill_loop :: "'a \<Rightarrow> nat \<Rightarrow> 'a iterable_queue \<Rightarrow> fault + 'a iterable_queue" where
  "prefill_loop dflt 0 q = Inr q"
| "prefill_loop dflt (Suc k) q =
     bindE (write_args id dflt q) (\<lambda>(_, q'). prefill_loop dflt k q')"

text \<open>
  The pre-fill thread waits for \<open>prefill_ready_\<close>, so its effect is that of the task run after
  the flag is set; \<open>force_pagefault\<close> joins the thread before it returns.
\<close>

definition prefill_task :: "'a \<Rightarrow> 'a iterable_queue \<Rightarrow> fault + 'a iterable_queue" where
  "prefill_task dflt q =
     bindE (prefill_loop dflt (unat (qsize q - 1)) q)
       (\<lambda>q'. bindE (flush_q q') (\<lambda>q''. Inr (q''\<lparr>prefill_done := True\<rparr>)))"

definition force_pagefault :: "'a \<Rightarrow> 'a iterable_queue \<Rightarrow> fault + 'a iterable_queue" where
  "force_pagefault dflt q = prefill_task dflt (q\<lparr>prefill_ready := True\<rparr>)"

definition conf_q ::
  "build_env \<Rightarrow> 'a \<Rightarrow> latency_buffer_conf \<Rightarrow> 'a iterable_queue \<Rightarrow> fault + 'a iterable_queue" where
  "conf_q env dflt cfg q =
     (if cfg_size cfg < 2 then Inl AssertFailed
      else bindE (free_memory env q)
        (\<lambda>q1. bindE (allocate_memory env (cfg_size cfg) (cfg_numa_aware cfg) (cfg_numa_node cfg)
                       (cfg_intrinsic_allocator cfg) (cfg_alignment_size cfg) q1)
          (\<lambda>q2. let q3 = q2\<lparr>readIndex := 0, writeIndex := 0\<rparr>
                in if records q3 = NullPtr then Inl BadAlloc
                   else if cfg_preallocation cfg then force_pagefault dflt q3
                   else Inr q3)))"

definition scrap_q :: "build_env \<Rightarrow> 'a iterable_queue \<Rightarrow> fault + 'a iterable_queue" where
  "scrap_q env q =
     bindE (free_memory env q)
       (\<lambda>q'. Inr (q'\<lparr>numa_aware := False, numa_node := 0, intrinsic_allocator := False,
                     alignment_size := 0, invalid_configuration_requested := False,
                     prefill_ready := False, prefill_done := False, qsize := 2,
                     records := alloc_region env StdMalloc 2, readIndex := 0, writeIndex := 0\<rparr>))"

section \<open>Iterators\<close>

text \<open>An iterator is its slot number; the end iterator is the largest 32-bit number.\<close>

definition end_iter :: u32 where
  "end_iter = - 1"

definition begin_iter :: "'a iterable_queue \<Rightarrow> u32" where
  "begin_iter q =
     (let currentRead = readIndex q
      in if currentRead = writeIndex q then end_iter else currentRead)"

definition good :: "'a iterable_queue \<Rightarrow> u32 \<Rightarrow> bool" where
  "good q m =
     (let currentRead = readIndex q; currentWrite = writeIndex q
      in m \<noteq> end_iter \<and>
         ((m \<ge> currentRead \<and> m < currentWrite) \<or>
          (m \<ge> currentRead \<and> currentWrite < currentRead) \<or>
          (currentWrite < currentRead \<and> m < currentRead \<and> m < currentWrite)))"

definition iter_next :: "'a iterable_queue \<Rightarrow> u32 \<Rightarrow> u32" where
  "iter_next q m =
     (let m1 = (if good q m then (let m' = m + 1 in if m' = qsize q then 0 else m') else m)
      in if \<not> good q m1 then end_iter else m1)"

fun iter_advance :: "'a iterable_queue \<Rightarrow> nat \<Rightarrow> u32 \<Rightarrow> u32" where
  "iter_advance q 0 m = m"
| "iter_advance q (Suc amount) m = iter_advance q amount (iter_next q m)"

definition iter_deref :: "'a iterable_queue \<Rightarrow> u32 \<Rightarrow> fault + 'a" where
  "iter_deref q m = slot (records q) (unat m)"

section \<open>The invariant and the abstraction to a list\<close>

text \<open>Number of stored elements, and the slot of the \<open>k\<close>-th oldest one.\<close>

definition stored :: "'a iterable_queue \<Rightarrow> nat" where
  "stored q =
     (if readIndex q \<le> writeIndex q then unat (writeIndex q) - unat (readIndex q)
      else unat (qsize q) + unat (writeIndex q) - unat (readIndex q))"

definition ring_slot :: "'a iterable_queue \<Rightarrow> nat \<Rightarrow> nat" where
  "ring_slot q k = (unat (readIndex q) + k) mod unat (qsize q)"

fun cells :: "'a region \<Rightarrow> 'a option list" where
  "cells (Region a xs) = xs"
| "cells _ = []"

definition contents :: "'a iterable_queue \<Rightarrow> 'a list" where
  "contents q = map (\<lambda>k. the (cells (records q) ! ring_slot q k)) [0..<stored q]"

text \<open>
  A well-formed queue: an allocated array of \<open>size_\<close> slots, at least two and fewer than
  \<open>2 ^ 31\<close>, both indices in range, and exactly the slots from the read_q index up to the write_q
  index hold live objects.
\<close>

definition queue_inv :: "'a iterable_queue \<Rightarrow> bool" where
  "queue_inv q \<longleftrightarrow>
     (case records q of
        Region a xs \<Rightarrow>
          length xs = unat (qsize q) \<and> 2 \<le> unat (qsize q) \<and> unat (qsize q) < 2 ^ 31 \<and>
          readIndex q < qsize q \<and> writeIndex q < qsize q \<and>
          list_all (\<lambda>k. (xs ! ring_slot q k \<noteq> None) = (k < stored q)) [0..<unat (qsize q)]
      | _ \<Rightarrow> False)"

text \<open>The free function the flags select is the one for the allocator the memory came from.\<close>

definition alloc_inv :: "'a iterable_queue \<Rightarrow> bool" where
  "alloc_inv q \<longleftrightarrow>
     (case records q of
        Region a _ \<Rightarrow> frees (intrinsic_allocator q) (numa_aware q) a
      | NullPtr \<Rightarrow> True
      | Dangling \<Rightarrow> False)"

text \<open>
  The same with every component named: \<open>n\<close> slots \<open>xs\<close>, read_q position \<open>r\<close>, \<open>c\<close> elements.
\<close>

definition ring_rep ::
  "'a iterable_queue \<Rightarrow> allocator \<Rightarrow> 'a option list \<Rightarrow> nat \<Rightarrow> nat \<Rightarrow> nat \<Rightarrow> bool" where
  "ring_rep q a xs n r c \<longleftrightarrow>
     records q = Region a xs \<and> unat (qsize q) = n \<and> length xs = n \<and> 2 \<le> n \<and> n < 2 ^ 31 \<and>
     unat (readIndex q) = r \<and> r < n \<and> c < n \<and> unat (writeIndex q) = (r + c) mod n \<and>
     (\<forall>k<n. (xs ! ((r + k) mod n) \<noteq> None) = (k < c))"

lemma ring_rep_inv:
  assumes "ring_rep q a xs n r c"
  shows "queue_inv q" "stored q = c" "contents q = map (\<lambda>k. the (xs ! ((r + k) mod n))) [0..<c]"
proof -
  have st: "stored q = c"
    using assms by (auto simp: ring_rep_def stored_def word_le_nat_alt ring_simps split: if_splits)
  then show "stored q = c" .
  show "queue_inv q"
    using assms st by (auto simp: queue_inv_def ring_rep_def ring_slot_def word_less_nat_alt list_all_iff)
  show "contents q = map (\<lambda>k. the (xs ! ((r + k) mod n))) [0..<c]"
    using assms st by (auto simp: contents_def ring_rep_def ring_slot_def)
qed

lemma queue_inv_rep:
  assumes "queue_inv q"
  obtains a xs where "ring_rep q a xs (unat (qsize q)) (unat (readIndex q)) (stored q)"
proof -
  obtain a xs where r: "records q = Region a xs"
    using assms by (cases "records q") (auto simp: queue_inv_def)
  have lt: "unat (readIndex q) < unat (qsize q)" "unat (writeIndex q) < unat (qsize q)"
    using assms r by (auto simp: queue_inv_def word_less_nat_alt)
  have c: "stored q < unat (qsize q)"
    "unat (writeIndex q) = (unat (readIndex q) + stored q) mod unat (qsize q)"
    using lt by (auto simp: stored_def word_le_nat_alt ring_simps)
  have "ring_rep q a xs (unat (qsize q)) (unat (readIndex q)) (stored q)"
    using assms r lt c by (auto simp: queue_inv_def ring_rep_def ring_slot_def list_all_iff)
  then show thesis by (rule that)
qed

lemma length_contents [simp]: "length (contents q) = stored q"
  by (simp add: contents_def)

section \<open>Effect of each operation on a well-formed queue\<close>

lemma ring_repD:
  assumes "ring_rep q a xs n r c"
  shows "records q = Region a xs" "unat (qsize q) = n" "length xs = n" "2 \<le> n" "n < 2 ^ 31"
    "unat (readIndex q) = r" "r < n" "c < n" "unat (writeIndex q) = (r + c) mod n"
  using assms by (auto simp: ring_rep_def)

lemma ring_rep_live: "ring_rep q a xs n r c \<Longrightarrow> k < n \<Longrightarrow> (xs ! ((r + k) mod n) \<noteq> None) = (k < c)"
  by (simp add: ring_rep_def)

lemma ring_rep_first: "ring_rep q a xs n r c \<Longrightarrow> (xs ! r \<noteq> None) = (0 < c)"
  using ring_rep_live [of q a xs n r c 0] by (simp add: ring_rep_def)

lemma ring_inj: "(r::nat) < n \<Longrightarrow> i < n \<Longrightarrow> j < n \<Longrightarrow> (r + i) mod n = (r + j) mod n \<longleftrightarrow> i = j"
  by (auto simp: add_mod_ring split: if_splits)

lemma ring_self_iff: "(r::nat) < n \<Longrightarrow> k < n \<Longrightarrow> (r + k) mod n = r \<longleftrightarrow> k = 0"
  by (auto simp: add_mod_ring split: if_splits)

lemma ring_shift: "((r + 1) mod n + k) mod n = (r + (k + 1)) mod (n::nat)"
  by (simp add: mod_simps)

lemma ring_later: "(r::nat) < n \<Longrightarrow> k < c \<Longrightarrow> c < n \<Longrightarrow> (r + c) mod n \<noteq> (r + k) mod n"
  using ring_inj [of r n c k] by simp

lemma ring_not_first: "(r::nat) < n \<Longrightarrow> k + 1 < n \<Longrightarrow> r \<noteq> (r + (k + 1)) mod n"
  using ring_self_iff [of r n "k + 1"] by simp

lemma next_write_index:
  assumes "ring_rep q a xs n r c"
  shows "unat (next_index (qsize q) (writeIndex q)) = (r + (c + 1)) mod n"
    and "next_index (qsize q) (writeIndex q) = readIndex q \<longleftrightarrow> c + 1 = n"
proof -
  have "writeIndex q < qsize q"
    using assms by (auto simp: ring_rep_def word_less_nat_alt)
  then show u: "unat (next_index (qsize q) (writeIndex q)) = (r + (c + 1)) mod n"
    using assms by (simp add: unat_next_index ring_rep_def mod_simps)
  have "next_index (qsize q) (writeIndex q) = readIndex q \<longleftrightarrow> (r + (c + 1)) mod n = r"
    using assms u by (metis ring_rep_def word_unat_eq_iff)
  also have "\<dots> \<longleftrightarrow> c + 1 = n"
    using ring_repD (7,8) [OF assms] add_mod_ring [of r n "c + 1"] by auto
  finally show "next_index (qsize q) (writeIndex q) = readIndex q \<longleftrightarrow> c + 1 = n" .
qed

lemma write_rep:
  fixes x :: 'a
  assumes rep: "ring_rep q a xs n r c" and room: "c + 1 < n"
  defines "q' \<equiv> q\<lparr>records := Region a (xs[(r + c) mod n := Some x]),
                   writeIndex := next_index (qsize q) (writeIndex q)\<rparr>"
  shows "write_q x q = Inr (True, q')" and "ring_rep q' a (xs[(r + c) mod n := Some x]) n r (c + 1)"
proof -
  show "write_q x q = Inr (True, q')"
    using rep room next_write_index (2) [OF rep] by (auto simp: write_q_def ring_rep_def q'_def Let_def)
  show "ring_rep q' a (xs[(r + c) mod n := Some x]) n r (c + 1)"
    using rep room next_write_index (1) [OF rep]
    by (auto simp: ring_rep_def q'_def nth_list_update ring_inj)
qed

lemma write_full:
  "ring_rep q a xs n r c \<Longrightarrow> c + 1 = n \<Longrightarrow>
   write_q x q = Inr (False, q\<lparr>overflow_ctr := overflow_ctr q + 1\<rparr>)"
  using next_write_index (2) [of q a xs n r c] by (simp add: write_q_def Let_def)

lemma empty_iff_rep: "ring_rep q a xs n r c \<Longrightarrow> readIndex q = writeIndex q \<longleftrightarrow> c = 0"
proof -
  assume rep: "ring_rep q a xs n r c"
  have "readIndex q = writeIndex q \<longleftrightarrow> unat (readIndex q) = unat (writeIndex q)"
    by (simp add: word_unat_eq_iff)
  also have "\<dots> \<longleftrightarrow> c = 0"
    using rep by (auto simp: ring_rep_def add_mod_ring split: if_splits)
  finally show ?thesis .
qed

lemma popFront_rep:
  assumes rep: "ring_rep q a xs n r c" and ne: "0 < c"
  defines "q' \<equiv> q\<lparr>records := Region a (xs[r := None]), readIndex := next_index (qsize q) (readIndex q)\<rparr>"
  shows "popFront q = Inr q'" and "ring_rep q' a (xs[r := None]) n ((r + 1) mod n) (c - 1)"
proof -
  have lt: "readIndex q < qsize q" using rep by (simp add: ring_rep_def word_less_nat_alt)
  have live: "xs ! r \<noteq> None"
    using ring_rep_first [OF rep] ne by simp
  show "popFront q = Inr q'"
    using rep ne live empty_iff_rep [OF rep] by (auto simp: popFront_def ring_rep_def q'_def Let_def)
  have cells: "(xs[r := None] ! ((r + (k + 1)) mod n) \<noteq> None) = (k < c - 1)" if "k < n" for k
  proof (cases "k + 1 < n")
    case True
    then have "r \<noteq> (r + (k + 1)) mod n" using ring_not_first [OF ring_repD (7) [OF rep]] by simp
    then have "(xs[r := None] ! ((r + (k + 1)) mod n) \<noteq> None) = (k + 1 < c)"
      using ring_rep_live [OF rep True] by simp
    then show ?thesis by linarith
  next
    case False
    with that have "k + 1 = n" by simp
    then have "(r + (k + 1)) mod n = r" using ring_repD (7) [OF rep] by simp
    then show ?thesis using ring_repD (3,7,8) [OF rep] \<open>k + 1 = n\<close> by auto
  qed
  have w: "unat (writeIndex q') = ((r + 1) mod n + (c - 1)) mod n"
    using ring_repD (9) [OF rep] ne by (simp only: ring_shift) (simp add: q'_def)
  show "ring_rep q' a (xs[r := None]) n ((r + 1) mod n) (c - 1)"
    unfolding ring_rep_def ring_shift
    using ring_repD [OF rep] ne lt w cells by (simp add: q'_def unat_next_index)
qed

text \<open>
  Fields no queue operation writes: configuration flags and the size. Together with the
  allocator of the array they decide how the memory is freed.
\<close>

definition same_config :: "'a iterable_queue \<Rightarrow> 'a iterable_queue \<Rightarrow> bool" where
  "same_config q q' \<longleftrightarrow>
     numa_aware q' = numa_aware q \<and> numa_node q' = numa_node q \<and>
     intrinsic_allocator q' = intrinsic_allocator q \<and> alignment_size q' = alignment_size q \<and>
     qsize q' = qsize q \<and> alloc_inv q' = alloc_inv q"

lemma same_config_refl [simp]: "same_config q q"
  by (simp add: same_config_def)

lemma same_config_trans: "same_config q q' \<Longrightarrow> same_config q' q'' \<Longrightarrow> same_config q q''"
  by (simp add: same_config_def)

lemma same_config_qsize: "same_config q q' \<Longrightarrow> qsize q' = qsize q"
  by (simp add: same_config_def)

lemma stored_less_size: "queue_inv q \<Longrightarrow> stored q < unat (qsize q)"
  by (elim queue_inv_rep) (auto simp: ring_rep_def)

lemma write_q_room:
  assumes "queue_inv q" and "stored q + 1 < unat (qsize q)"
  shows "\<exists>q'. write_q x q = Inr (True, q') \<and> queue_inv q' \<and> contents q' = contents q @ [x] \<and>
              same_config q q' \<and> overflow_ctr q' = overflow_ctr q \<and> readIndex q' = readIndex q"
proof -
  let ?n = "unat (qsize q)" and ?r = "unat (readIndex q)" and ?c = "stored q"
  obtain a xs where rep: "ring_rep q a xs ?n ?r ?c"
    using assms by (elim queue_inv_rep)
  let ?xs = "xs[(?r + ?c) mod ?n := Some x]"
  let ?q = "q\<lparr>records := Region a ?xs, writeIndex := next_index (qsize q) (writeIndex q)\<rparr>"
  have w: "write_q x q = Inr (True, ?q)" and rep': "ring_rep ?q a ?xs ?n ?r (?c + 1)"
    by (rule write_rep [OF rep assms(2)])+
  have "contents ?q = contents q @ [x]"
    using ring_repD (3,7,8) [OF rep] ring_later [of ?r ?n _ ?c]
    by (simp add: ring_rep_inv (3) [OF rep] ring_rep_inv (3) [OF rep'])
  moreover have "same_config q ?q"
    using ring_repD (1) [OF rep] by (simp add: same_config_def alloc_inv_def)
  ultimately show ?thesis
    using w ring_rep_inv (1) [OF rep'] by auto
qed

lemma write_q_no_room:
  assumes "queue_inv q" and "stored q + 1 = unat (qsize q)"
  shows "write_q x q = Inr (False, q\<lparr>overflow_ctr := overflow_ctr q + 1\<rparr>)"
  using assms by (elim queue_inv_rep) (rule write_full)

lemma contents_hd:
  assumes "ring_rep q a xs n r c" and "0 < c"
  shows "xs ! r = Some (hd (contents q))"
proof -
  have "hd (contents q) = the (xs ! r)"
    using assms ring_repD [OF assms(1)] ring_rep_inv (3) [OF assms(1)] by (simp add: hd_map)
  then show ?thesis using ring_rep_first [OF assms(1)] assms(2) by auto
qed

lemma popFront_spec:
  assumes "queue_inv q" and "contents q \<noteq> []"
  shows "\<exists>q'. popFront q = Inr q' \<and> read_q q = Inr (Some (hd (contents q)), q') \<and> queue_inv q' \<and>
              contents q' = tl (contents q) \<and> same_config q q' \<and> overflow_ctr q' = overflow_ctr q"
proof -
  let ?n = "unat (qsize q)" and ?r = "unat (readIndex q)" and ?c = "stored q"
  obtain a xs where rep: "ring_rep q a xs ?n ?r ?c"
    using assms by (elim queue_inv_rep)
  have pos: "0 < ?c" using assms(2) by (simp flip: length_contents)
  let ?xs = "xs[?r := None]"
  let ?q = "q\<lparr>records := Region a ?xs, readIndex := next_index (qsize q) (readIndex q)\<rparr>"
  have p: "popFront q = Inr ?q" and rep': "ring_rep ?q a ?xs ?n ((?r + 1) mod ?n) (?c - 1)"
    by (rule popFront_rep [OF rep pos])+
  have "contents ?q = map (\<lambda>k. the (?xs ! ((?r + (k + 1)) mod ?n))) [0..<?c - 1]"
    using ring_rep_inv (3) [OF rep'] by (simp only: ring_shift)
  also have "\<dots> = map (\<lambda>k. the (xs ! ((?r + (k + 1)) mod ?n))) [0..<?c - 1]"
    using ring_repD (7,8) [OF rep] ring_not_first [of ?r ?n] by (intro map_cong refl) simp
  also have "\<dots> = tl (contents q)"
    using pos by (intro nth_equalityI) (auto simp: ring_rep_inv (3) [OF rep] nth_tl)
  finally have "contents ?q = tl (contents q)" .
  moreover have "read_q q = Inr (Some (hd (contents q)), ?q)"
    using contents_hd [OF rep pos] ring_repD [OF rep] pos empty_iff_rep [OF rep]
    by (auto simp: read_q_def Let_def)
  moreover have "same_config q ?q"
    using ring_repD (1) [OF rep] by (simp add: same_config_def alloc_inv_def)
  ultimately show ?thesis
    using p ring_rep_inv (1) [OF rep'] by auto
qed

lemma read_q_empty: "queue_inv q \<Longrightarrow> contents q = [] \<Longrightarrow> read_q q = Inr (None, q) \<and> popFront q = Inl AssertFailed"
proof (elim queue_inv_rep)
  fix a xs
  assume "contents q = []" and rep: "ring_rep q a xs (unat (qsize q)) (unat (readIndex q)) (stored q)"
  then have "readIndex q = writeIndex q"
    using empty_iff_rep [OF rep] by (metis length_contents list.size(3))
  then show ?thesis by (simp add: read_q_def popFront_def)
qed

lemma pop_q_spec:
  assumes "queue_inv q" and "k \<le> stored q"
  shows "\<exists>q'. pop_q k q = Inr q' \<and> queue_inv q' \<and> contents q' = drop k (contents q) \<and>
              same_config q q' \<and> overflow_ctr q' = overflow_ctr q"
  using assms
proof (induction k arbitrary: q)
  case 0
  then show ?case by simp
next
  case (Suc k)
  then have "contents q \<noteq> []" by (metis length_contents list.size(3) not_less_eq_eq zero_le)
  then obtain q1 where q1: "popFront q = Inr q1" "queue_inv q1" "contents q1 = tl (contents q)"
      "same_config q q1" "overflow_ctr q1 = overflow_ctr q"
    using popFront_spec [OF Suc.prems(1)] by blast
  have "k \<le> stored q1" using q1(3) Suc.prems(2) by (metis length_contents length_tl diff_le_mono diff_Suc_1)
  from Suc.IH [OF q1(2) this] obtain q' where "pop_q k q1 = Inr q'" "queue_inv q'"
      "contents q' = drop k (contents q1)" "same_config q1 q'" "overflow_ctr q' = overflow_ctr q1"
    by blast
  then show ?case using q1 by (auto simp: drop_Suc intro: same_config_trans)
qed

lemma pop_q_too_many: "queue_inv q \<Longrightarrow> stored q < k \<Longrightarrow> pop_q k q = Inl AssertFailed"
proof (induction k arbitrary: q)
  case 0
  then show ?case by simp
next
  case (Suc k)
  show ?case
  proof (cases "contents q = []")
    case True
    then show ?thesis using read_q_empty [OF Suc.prems(1)] by simp
  next
    case False
    then obtain q1 where q1: "popFront q = Inr q1" "queue_inv q1" "contents q1 = tl (contents q)"
      using popFront_spec [OF Suc.prems(1)] by blast
    have "0 < stored q" using False by (simp flip: length_contents)
    moreover have "stored q1 = stored q - 1" using q1(3) by (metis length_contents length_tl)
    ultimately have "stored q1 < k" using Suc.prems(2) by linarith
    then show ?thesis using Suc.IH [OF q1(2)] q1(1) by simp
  qed
qed

lemma occupancy_q_spec: "queue_inv q \<Longrightarrow> occupancy_q q = of_nat (stored q) \<and> unat (occupancy_q q) = stored q"
proof (elim queue_inv_rep)
  fix a xs
  let ?n = "unat (qsize q)" and ?r = "unat (readIndex q)"
  assume rep: "ring_rep q a xs ?n ?r (stored q)"
  note d = ring_repD [OF rep]
  have s: "sint (readIndex q) = int ?r" "sint (writeIndex q) = int (unat (writeIndex q))" "sint (qsize q) = int ?n"
    using d ring_bound [OF d(7), of "stored q"] by (simp_all only: sint_small less_trans)
  have "unat (writeIndex q) < ?n" using d(7,9) by simp
  then have "occupancy_q q = word_of_int (int (stored q))"
    unfolding occupancy_q_def s stored_def word_le_nat_alt by (rule ring_diff_int [OF d(7)])
  then have o: "occupancy_q q = of_nat (stored q)" by simp
  have "stored q < 2 ^ 64" using d(5,8) by simp
  then show ?thesis using o by (simp add: unat_of_nat_u64)
qed

lemma flush_q_spec:
  assumes "queue_inv q"
  shows "\<exists>q'. flush_q q = Inr q' \<and> queue_inv q' \<and> contents q' = [] \<and> same_config q q' \<and>
              overflow_ctr q' = overflow_ctr q"
proof -
  have "flush_q q = pop_q (stored q) q"
    using occupancy_q_spec [OF assms] unfolding flush_q_def by metis
  then show ?thesis using pop_q_spec [OF assms order_refl] by simp
qed

lemma isEmpty_spec: "queue_inv q \<Longrightarrow> isEmpty q \<longleftrightarrow> contents q = []"
  by (elim queue_inv_rep) (auto simp: isEmpty_def dest: empty_iff_rep simp flip: length_0_conv)

lemma isFull_spec: "queue_inv q \<Longrightarrow> isFull q \<longleftrightarrow> length (contents q) = unat (capacity q)"
proof (elim queue_inv_rep)
  fix a xs
  assume rep: "ring_rep q a xs (unat (qsize q)) (unat (readIndex q)) (stored q)"
  have "unat (capacity q) = unat (qsize q) - 1"
    using ring_repD (4) [OF rep] by (simp add: capacity_def unat_sub word_le_nat_alt)
  then show ?thesis
    using next_write_index (2) [OF rep] ring_repD (4) [OF rep] by (auto simp: isFull_def)
qed

section \<open>Element access and iteration\<close>

text \<open>\<open>at_pos q i k\<close>: slot number \<open>i\<close> is the position of the \<open>k\<close>-th oldest element.\<close>

definition at_pos :: "'a iterable_queue \<Rightarrow> u32 \<Rightarrow> nat \<Rightarrow> bool" where
  "at_pos q i k \<longleftrightarrow> unat i = ring_slot q k \<and> k \<le> stored q"

lemma at_pos_less: "queue_inv q \<Longrightarrow> at_pos q i k \<Longrightarrow> i < qsize q"
  by (auto simp: at_pos_def ring_slot_def word_less_nat_alt elim!: queue_inv_rep dest!: ring_repD (7))

lemma end_iter_not_in_range: "queue_inv q \<Longrightarrow> i < qsize q \<Longrightarrow> i \<noteq> end_iter"
proof -
  assume "queue_inv q" and "i < qsize q"
  then have "unat i < 2 ^ 31"
    by (auto simp: word_less_nat_alt elim!: queue_inv_rep dest!: ring_repD (5))
  moreover have "unat end_iter = 2 ^ 32 - 1"
    by (simp add: end_iter_def unsigned_minus_1_eq_mask mask_eq_exp_minus_1)
  ultimately show ?thesis by auto
qed

lemma deref_at_pos:
  assumes "queue_inv q" and "at_pos q i k" and "k < stored q"
  shows "iter_deref q i = Inr (contents q ! k)"
proof -
  obtain a xs where rep: "ring_rep q a xs (unat (qsize q)) (unat (readIndex q)) (stored q)"
    using assms(1) by (elim queue_inv_rep)
  have i: "unat i = (unat (readIndex q) + k) mod unat (qsize q)"
    using assms(2) by (simp add: at_pos_def ring_slot_def)
  have "unat i < length xs" using ring_repD (3,7) [OF rep] i by simp
  moreover have "xs ! unat i \<noteq> None"
    using ring_rep_live [OF rep, of k] ring_repD (8) [OF rep] assms(3) i by simp
  ultimately show ?thesis
    using ring_repD (1) [OF rep] assms(3) i ring_rep_inv (3) [OF rep]
    by (auto simp: iter_deref_def)
qed

lemma front_q_spec:
  assumes "queue_inv q"
  shows "contents q = [] \<Longrightarrow> front_q q = None"
    and "contents q \<noteq> [] \<Longrightarrow> front_q q = Some (readIndex q) \<and> at_pos q (readIndex q) 0"
  using assms isEmpty_spec [OF assms]
  by (auto simp: front_q_def isEmpty_def at_pos_def ring_slot_def Let_def elim!: queue_inv_rep dest!: ring_repD (7))

lemma prev_index:
  assumes "w < n"
  shows "unat (if w = 0 then n - 1 else w - 1 :: u32) = (if unat w = 0 then unat n - 1 else unat w - 1)"
proof -
  have "n \<noteq> 0" using assms by auto
  then show ?thesis by (auto simp: unat_minus_one unat_0_iff)
qed

lemma back_q_spec:
  assumes "queue_inv q"
  shows "contents q = [] \<Longrightarrow> back_q q = None"
    and "contents q \<noteq> [] \<Longrightarrow> \<exists>i. back_q q = Some i \<and> at_pos q i (stored q - 1)"
proof -
  show "contents q = [] \<Longrightarrow> back_q q = None"
    using isEmpty_spec [OF assms] by (auto simp: back_q_def isEmpty_def Let_def)
next
  assume ne: "contents q \<noteq> []"
  then have pos: "0 < stored q" by (simp flip: length_contents)
  obtain a xs where rep: "ring_rep q a xs (unat (qsize q)) (unat (readIndex q)) (stored q)"
    using assms by (elim queue_inv_rep)
  let ?i = "if writeIndex q = 0 then qsize q - 1 else writeIndex q - 1"
  have "writeIndex q < qsize q" using ring_repD (7,9) [OF rep] by (simp add: word_less_nat_alt)
  then have "unat ?i = (unat (readIndex q) + (stored q - 1)) mod unat (qsize q)"
    using ring_repD (7,8,9) [OF rep] pos add_mod_ring [of "unat (readIndex q)" "unat (qsize q)" "stored q - 1"]
      add_mod_ring [of "unat (readIndex q)" "unat (qsize q)" "stored q"]
    by (simp only: prev_index) (auto split: if_splits)
  then show "\<exists>i. back_q q = Some i \<and> at_pos q i (stored q - 1)"
    using ne isEmpty_spec [OF assms] by (auto simp: back_q_def isEmpty_def at_pos_def ring_slot_def Let_def)
qed

lemma good_at_pos:
  assumes "queue_inv q" and "at_pos q i k"
  shows "good q i \<longleftrightarrow> k < stored q"
proof -
  obtain a xs where rep: "ring_rep q a xs (unat (qsize q)) (unat (readIndex q)) (stored q)"
    using assms(1) by (elim queue_inv_rep)
  have ne: "i \<noteq> end_iter" using end_iter_not_in_range at_pos_less assms by blast
  have i: "unat i = (unat (readIndex q) + k) mod unat (qsize q)" and k: "k \<le> stored q"
    using assms(2) by (auto simp: at_pos_def ring_slot_def)
  show ?thesis
    using ne i k ring_repD (7,8,9) [OF rep]
    by (auto simp: good_def Let_def word_le_nat_alt word_less_nat_alt add_mod_ring split: if_splits)
qed

lemma next_at_pos:
  assumes "queue_inv q" and "at_pos q i k" and "k < stored q"
  shows "at_pos q (next_index (qsize q) i) (k + 1)"
proof -
  have "i < qsize q" using at_pos_less assms by blast
  then show ?thesis
    using assms(2,3) by (simp add: at_pos_def unat_next_index ring_slot_def mod_simps)
qed

lemma iter_next_at_pos:
  assumes "queue_inv q" and "at_pos q i k" and "k < stored q"
  shows "if k + 1 < stored q then at_pos q (iter_next q i) (k + 1) else iter_next q i = end_iter"
proof -
  have "iter_next q i = (if good q (next_index (qsize q) i) then next_index (qsize q) i else end_iter)"
    using good_at_pos [OF assms(1,2)] assms(3) by (simp add: iter_next_def next_index_def Let_def)
  then show ?thesis
    using good_at_pos [OF assms(1) next_at_pos [OF assms]] next_at_pos [OF assms] by simp
qed

lemma iter_next_end [simp]: "iter_next q end_iter = end_iter"
  by (simp add: iter_next_def good_def)

lemma iter_advance_at_pos:
  assumes "queue_inv q" and "at_pos q i k" and "k < stored q"
  shows "if k + j < stored q then at_pos q (iter_advance q j i) (k + j) else iter_advance q j i = end_iter"
  using assms(2,3)
proof (induction j arbitrary: i k)
  case 0
  then show ?case by simp
next
  case (Suc j)
  have adv_end: "iter_advance q m end_iter = end_iter" for m by (induction m) auto
  show ?case
  proof (cases "k + 1 < stored q")
    case True
    then have "at_pos q (iter_next q i) (k + 1)" using iter_next_at_pos [OF assms(1) Suc.prems] by simp
    from Suc.IH [OF this True] show ?thesis by (simp add: add.commute [of 1] split: if_splits)
  next
    case False
    then show ?thesis using iter_next_at_pos [OF assms(1) Suc.prems] adv_end by simp
  qed
qed

section \<open>Memory management\<close>

lemma ring_surj: "(r::nat) < n \<Longrightarrow> i < n \<Longrightarrow> \<exists>k<n. (r + k) mod n = i"
  by (rule exI [of _ "(i + (n - r)) mod n"]) (simp add: mod_simps)

lemma ring_rep_empty_cells:
  assumes rep: "ring_rep q a xs n r 0"
  shows "xs = replicate n None"
proof (rule nth_equalityI)
  show "length xs = length (replicate n (None :: 'a option))" using ring_repD (3) [OF rep] by simp
next
  fix i assume "i < length xs"
  then have "i < n" using ring_repD (3) [OF rep] by simp
  then obtain k where "k < n" "(r + k) mod n = i" using ring_surj ring_repD (7) [OF rep] by blast
  then show "xs ! i = replicate n None ! i" using ring_rep_live [OF rep] \<open>i < n\<close> by auto
qed

lemma destroy_range_rep:
  "ring_rep q a xs n r c \<Longrightarrow> destroy_range n r ((r + c) mod n) (Region a xs) = Inr (Region a (replicate n None))"
proof (induction c arbitrary: q xs r)
  case 0
  then show ?case
    using ring_rep_empty_cells [OF 0] ring_repD (7) [OF 0] by (simp add: destroy_range.simps)
next
  case (Suc c)
  let ?r = "(r + 1) mod n"
  note d = ring_repD [OF Suc.prems]
  obtain q' where rep': "ring_rep q' a (xs[r := None]) n ?r c"
    using popFront_rep (2) [OF Suc.prems] by auto
  have e: "(r + Suc c) mod n = (?r + c) mod n" using ring_shift [of r n c] by (simp only: Suc_eq_plus1)
  have "r \<noteq> (r + Suc c) mod n" using ring_self_iff [OF d(7,8)] by auto
  moreover have "destroy r (Region a xs) = Inr (Region a (xs[r := None]))"
    using ring_rep_first [OF Suc.prems] d(3,7) by simp
  moreover have "(if r + 1 = n then 0 else r + 1) = ?r" using d(7) by (simp add: Suc_mod_ring)
  ultimately show ?case
    using Suc.IH [OF rep'] e by (simp add: destroy_range.simps [of n r])
qed

lemma free_memory_spec:
  assumes "queue_inv q" and "alloc_inv q" and "numa_aware q \<longrightarrow> with_libnuma env"
  shows "free_memory env q = Inr (q\<lparr>records := Dangling\<rparr>)"
proof -
  obtain a xs where rep: "ring_rep q a xs (unat (qsize q)) (unat (readIndex q)) (stored q)"
    using assms(1) by (elim queue_inv_rep)
  note d = ring_repD [OF rep]
  have "release env (q\<lparr>records := Region a ys\<rparr>) = Inr Dangling" for ys
    using assms(2,3) d(1) by (auto simp: release_def alloc_inv_def)
  moreover have "destroy_range (unat (qsize q)) (unat (readIndex q)) (unat (writeIndex q)) (records q) =
      Inr (Region a (replicate (unat (qsize q)) None))"
    unfolding d(1,9) by (rule destroy_range_rep [OF rep])
  ultimately show ?thesis
    using d(1) by (simp add: free_memory_def)
qed

text \<open>
  An array of raw slots with both indices at 0 is an empty well-formed queue.
\<close>

lemma fresh_queue_inv:
  assumes "records q = Region a (replicate (unat (qsize q)) None)" and "2 \<le> unat (qsize q)"
    and "unat (qsize q) < 2 ^ 31" and "readIndex q = 0" and "writeIndex q = 0"
  shows "queue_inv q" "contents q = []"
proof -
  have "ring_rep q a (replicate (unat (qsize q)) None) (unat (qsize q)) 0 0"
    using assms by (simp add: ring_rep_def)
  from ring_rep_inv (1,3) [OF this] show "queue_inv q" "contents q = []" by simp_all
qed

lemma write_args_write: "write_args ctor args q = write_q (ctor args) q"
  by (simp add: write_args_def write_q_def)

lemma prefill_loop_spec:
  assumes "queue_inv q" and "stored q + k < unat (qsize q)"
  shows "\<exists>q'. prefill_loop d k q = Inr q' \<and> queue_inv q' \<and> contents q' = contents q @ replicate k d \<and>
              same_config q q' \<and> overflow_ctr q' = overflow_ctr q"
  using assms
proof (induction k arbitrary: q)
  case 0
  then show ?case by simp
next
  case (Suc k)
  obtain q1 where q1: "write_q d q = Inr (True, q1)" "queue_inv q1" "contents q1 = contents q @ [d]"
      "same_config q q1" "overflow_ctr q1 = overflow_ctr q"
    using write_q_room [OF Suc.prems(1), of d] Suc.prems(2) by auto
  have "stored q1 + k < unat (qsize q1)"
    using q1(3,4) Suc.prems(2) by (simp add: same_config_def flip: length_contents)
  from Suc.IH [OF q1(2) this] obtain q' where "prefill_loop d k q1 = Inr q'" "queue_inv q'"
      "contents q' = contents q1 @ replicate k d" "same_config q1 q'" "overflow_ctr q' = overflow_ctr q1"
    by blast
  then show ?case using q1 by (auto simp: write_args_write intro: same_config_trans)
qed

lemma force_pagefault_spec:
  assumes "queue_inv q" and "contents q = []"
  shows "\<exists>q'. force_pagefault d q = Inr q' \<and> queue_inv q' \<and> contents q' = [] \<and>
              same_config q q' \<and> overflow_ctr q' = overflow_ctr q \<and> prefill_done q'"
proof -
  let ?q = "q\<lparr>prefill_ready := True\<rparr>"
  have frame: "same_config q ?q" by (simp add: same_config_def alloc_inv_def split: region.splits)
  have inv: "queue_inv ?q" and st: "stored ?q = 0"
    using assms by (auto simp: queue_inv_def stored_def ring_slot_def simp flip: length_0_conv split: region.splits)
  have "qsize q \<noteq> 0" using stored_less_size [OF assms(1)] by auto
  then have n: "unat (qsize q - 1) < unat (qsize q)" by (simp add: unat_minus_one unat_gt_0)
  then obtain q1 where q1: "prefill_loop d (unat (qsize q - 1)) ?q = Inr q1" "queue_inv q1"
      "same_config ?q q1" "overflow_ctr q1 = overflow_ctr ?q"
    using prefill_loop_spec [OF inv] st by fastforce
  then obtain q2 where q2: "flush_q q1 = Inr q2" "queue_inv q2" "contents q2 = []"
      "same_config q1 q2" "overflow_ctr q2 = overflow_ctr q1"
    using flush_q_spec by blast
  have "queue_inv (q2\<lparr>prefill_done := True\<rparr>)" "contents (q2\<lparr>prefill_done := True\<rparr>) = []"
    "same_config q2 (q2\<lparr>prefill_done := True\<rparr>)"
    using q2(2,3) by (auto simp: queue_inv_def stored_def ring_slot_def contents_def same_config_def alloc_inv_def
        split: region.splits)
  then show ?thesis
    using q1 q2 frame by (auto simp: force_pagefault_def prefill_task_def intro: same_config_trans)
qed

text \<open>
  The allocation strategies \<open>allocate_memory\<close> and \<open>free_memory\<close> agree on: NUMA allocation on
  one of the eight nodes (and not the intrinsic allocator as well), the intrinsic allocator with
  an alignment, or the standard ones.
\<close>

definition coherent_cfg :: "build_env \<Rightarrow> latency_buffer_conf \<Rightarrow> bool" where
  "coherent_cfg env cfg \<longleftrightarrow>
     (if cfg_numa_aware cfg
      then cfg_numa_node cfg < 8 \<and> with_libnuma env \<and> \<not> cfg_intrinsic_allocator cfg
      else cfg_intrinsic_allocator cfg \<longrightarrow> cfg_alignment_size cfg > 0)"

definition selected_allocator :: "latency_buffer_conf \<Rightarrow> allocator" where
  "selected_allocator cfg =
     (if cfg_numa_aware cfg then NumaAlloc (cfg_numa_node cfg)
      else if cfg_alignment_size cfg = 0 then StdMalloc
      else if cfg_intrinsic_allocator cfg then MmMalloc (cfg_alignment_size cfg)
      else AlignedAlloc (cfg_alignment_size cfg))"

lemma allocate_memory_coherent:
  assumes "coherent_cfg env cfg" and "2 \<le> cfg_size cfg"
  shows "allocate_memory env (cfg_size cfg) (cfg_numa_aware cfg) (cfg_numa_node cfg)
           (cfg_intrinsic_allocator cfg) (cfg_alignment_size cfg) q =
         Inr (q\<lparr>records := alloc_region env (selected_allocator cfg) (cfg_size cfg),
                qsize := ucast (cfg_size cfg), numa_aware := cfg_numa_aware cfg,
                numa_node := cfg_numa_node cfg, intrinsic_allocator := cfg_intrinsic_allocator cfg,
                alignment_size := cfg_alignment_size cfg\<rparr>)"
  using assms by (auto simp: allocate_memory_def coherent_cfg_def selected_allocator_def word_gt_0)

lemma frees_selected:
  "coherent_cfg env cfg \<Longrightarrow>
   frees (cfg_intrinsic_allocator cfg) (cfg_numa_aware cfg) (selected_allocator cfg)"
  by (auto simp: coherent_cfg_def selected_allocator_def word_gt_0 split: if_splits)

lemma unat_ucast_u32: "unat (w::u64) < 2 ^ 32 \<Longrightarrow> unat (ucast w :: u32) = unat w"
  by (simp add: unsigned_ucast_eq take_bit_nat_eq_self)

lemma conf_q_coherent:
  assumes inv: "queue_inv q" "alloc_inv q" "numa_aware q \<longrightarrow> with_libnuma env"
    and cfg: "coherent_cfg env cfg" "2 \<le> cfg_size cfg" "unat (cfg_size cfg) < 2 ^ 31"
    and ok: "alloc_succeeds env (selected_allocator cfg) (cfg_size cfg)"
  shows "\<exists>q'. conf_q env d cfg q = Inr q' \<and> queue_inv q' \<and> alloc_inv q' \<and> contents q' = [] \<and>
              unat (qsize q') = unat (cfg_size cfg) \<and> (numa_aware q' \<longrightarrow> with_libnuma env)"
proof -
  let ?a = "selected_allocator cfg" and ?n = "unat (cfg_size cfg)"
  let ?q = "q\<lparr>records := Region ?a (replicate ?n None), qsize := ucast (cfg_size cfg),
               numa_aware := cfg_numa_aware cfg, numa_node := cfg_numa_node cfg,
               intrinsic_allocator := cfg_intrinsic_allocator cfg,
               alignment_size := cfg_alignment_size cfg, readIndex := 0, writeIndex := 0\<rparr>"
  have n: "unat (qsize ?q) = ?n" using cfg(3) by (simp add: unat_ucast_u32)
  have two: "2 \<le> ?n" using cfg(2) by (simp add: word_le_nat_alt)
  have conf: "conf_q env d cfg q = (if cfg_preallocation cfg then force_pagefault d ?q else Inr ?q)"
    using cfg(2) [folded not_less] ok
    by (simp add: conf_q_def free_memory_spec [OF inv] allocate_memory_coherent [OF cfg(1,2)]
        alloc_region_def Let_def)
  have q: "queue_inv ?q" "contents ?q = []"
    by (rule fresh_queue_inv [of _ ?a]; use n two cfg(3) in simp)+
  have lib: "numa_aware ?q \<longrightarrow> with_libnuma env" using cfg(1) by (simp add: coherent_cfg_def)
  have al: "alloc_inv ?q" using frees_selected [OF cfg(1)] by (simp add: alloc_inv_def)
  show ?thesis
  proof (cases "cfg_preallocation cfg")
    case True
    obtain q' where "force_pagefault d ?q = Inr q'" "queue_inv q'" "contents q' = []" "same_config ?q q'"
      using force_pagefault_spec [OF q] by blast
    then show ?thesis using conf True al n lib by (auto simp: same_config_def)
  next
    case False
    then show ?thesis using conf q al n lib by auto
  qed
qed

end
