(* ===== verification/Queue_Contract.thy ===== *)
theory Queue_Contract
  imports Iterable_Queue
begin

text \<open>
  What the ring buffer promises: a bounded first-in first-out list. The abstract
  specification is a list with a capacity; every sequence of operations on the ring buffer
  returns what the list returns (\<open>queue_refines_bounded_list\<close>), iterators walk the stored
  elements in order, and configuration gives an empty well-formed queue exactly for the
  allocation strategies that allocation and release agree on.
\<close>

section \<open>The abstract specification\<close>

datatype 'a queue_op =
    Write 'a | Read | PopFront | Pop nat | Flush
  | Occupancy | IsEmpty | IsFull | Front | Back

datatype 'a queue_result =
    RUnit | RBool bool | RElement "'a option" | RCount u64 | RFault fault

text \<open>
  One operation on a list of at most \<open>cap\<close> elements. Popping more than there is fails the
  assertion of \<open>popFront\<close>, after which no further operation runs.
\<close>

fun spec_op :: "nat \<Rightarrow> 'a queue_op \<Rightarrow> 'a list \<Rightarrow> fault + ('a queue_result \<times> 'a list)" where
  "spec_op cap (Write x) xs =
     (if length xs < cap then Inr (RBool True, xs @ [x]) else Inr (RBool False, xs))"
| "spec_op cap Read xs =
     (case xs of [] \<Rightarrow> Inr (RElement None, []) | y # ys \<Rightarrow> Inr (RElement (Some y), ys))"
| "spec_op cap PopFront xs = (case xs of [] \<Rightarrow> Inl AssertFailed | y # ys \<Rightarrow> Inr (RUnit, ys))"
| "spec_op cap (Pop n) xs = (if n \<le> length xs then Inr (RUnit, drop n xs) else Inl AssertFailed)"
| "spec_op cap Flush xs = Inr (RUnit, [])"
| "spec_op cap Occupancy xs = Inr (RCount (of_nat (length xs)), xs)"
| "spec_op cap IsEmpty xs = Inr (RBool (xs = []), xs)"
| "spec_op cap IsFull xs = Inr (RBool (length xs = cap), xs)"
| "spec_op cap Front xs = Inr (RElement (if xs = [] then None else Some (hd xs)), xs)"
| "spec_op cap Back xs = Inr (RElement (if xs = [] then None else Some (last xs)), xs)"

text \<open>The element behind the pointer \<open>front\<close> or \<open>back\<close> returns.\<close>

definition pointee :: "'a iterable_queue \<Rightarrow> u32 option \<Rightarrow> fault + 'a option" where
  "pointee q p = (case p of None \<Rightarrow> Inr None | Some i \<Rightarrow> bindE (iter_deref q i) (\<lambda>x. Inr (Some x)))"

fun exec_op :: "'a queue_op \<Rightarrow> 'a iterable_queue \<Rightarrow> fault + ('a queue_result \<times> 'a iterable_queue)" where
  "exec_op (Write x) q = bindE (write_q x q) (\<lambda>(b, q'). Inr (RBool b, q'))"
| "exec_op Read q = bindE (read_q q) (\<lambda>(r, q'). Inr (RElement r, q'))"
| "exec_op PopFront q = bindE (popFront q) (\<lambda>q'. Inr (RUnit, q'))"
| "exec_op (Pop n) q = bindE (pop_q n q) (\<lambda>q'. Inr (RUnit, q'))"
| "exec_op Flush q = bindE (flush_q q) (\<lambda>q'. Inr (RUnit, q'))"
| "exec_op Occupancy q = Inr (RCount (occupancy_q q), q)"
| "exec_op IsEmpty q = Inr (RBool (isEmpty q), q)"
| "exec_op IsFull q = Inr (RBool (isFull q), q)"
| "exec_op Front q = bindE (pointee q (front_q q)) (\<lambda>r. Inr (RElement r, q))"
| "exec_op Back q = bindE (pointee q (back_q q)) (\<lambda>r. Inr (RElement r, q))"

text \<open>A sequence of operations, with the results in order; a fault ends the run.\<close>

fun run_spec :: "nat \<Rightarrow> 'a queue_op list \<Rightarrow> 'a list \<Rightarrow> 'a queue_result list \<times> 'a list" where
  "run_spec cap [] xs = ([], xs)"
| "run_spec cap (o' # os) xs =
     (case spec_op cap o' xs of
        Inl e \<Rightarrow> ([RFault e], xs)
      | Inr (r, xs') \<Rightarrow> (case run_spec cap os xs' of (rs, ys) \<Rightarrow> (r # rs, ys)))"

fun run_queue :: "'a queue_op list \<Rightarrow> 'a iterable_queue \<Rightarrow> 'a queue_result list \<times> 'a iterable_queue" where
  "run_queue [] q = ([], q)"
| "run_queue (o' # os) q =
     (case exec_op o' q of
        Inl e \<Rightarrow> ([RFault e], q)
      | Inr (r, q') \<Rightarrow> (case run_queue os q' of (rs, q'') \<Rightarrow> (r # rs, q'')))"

section \<open>Refinement\<close>

text \<open>\<open>q\<close> represents \<open>xs\<close> with room for \<open>cap\<close> elements.\<close>

definition represents :: "'a iterable_queue \<Rightarrow> nat \<Rightarrow> 'a list \<Rightarrow> bool" where
  "represents q cap xs \<longleftrightarrow> queue_inv q \<and> contents q = xs \<and> unat (qsize q) = cap + 1"

text \<open>The two outcomes of one operation correspond.\<close>

definition corresponds ::
  "nat \<Rightarrow> fault + ('a queue_result \<times> 'a iterable_queue) \<Rightarrow> fault + ('a queue_result \<times> 'a list) \<Rightarrow> bool" where
  "corresponds cap c s \<longleftrightarrow>
     (case (c, s) of
        (Inl e, Inl e') \<Rightarrow> e = e'
      | (Inr (r, q), Inr (r', xs)) \<Rightarrow> r = r' \<and> represents q cap xs
      | _ \<Rightarrow> False)"

lemma corresponds_simps [simp]:
  "corresponds cap (Inl e) (Inl e') \<longleftrightarrow> e = e'"
  "corresponds cap (Inr (r, q)) (Inr (r', xs)) \<longleftrightarrow> r = r' \<and> represents q cap xs"
  by (simp_all add: corresponds_def)

lemma representsD:
  assumes "represents q cap xs"
  shows "queue_inv q" "contents q = xs" "unat (qsize q) = cap + 1" "stored q = length xs" "length xs \<le> cap"
  using assms stored_less_size [of q] by (auto simp: represents_def simp flip: length_contents)

lemma represents_same_config:
  "represents q cap xs \<Longrightarrow> queue_inv q' \<Longrightarrow> same_config q q' \<Longrightarrow> contents q' = ys \<Longrightarrow> represents q' cap ys"
  by (simp add: represents_def same_config_def)

lemma pointee_front: "represents q cap xs \<Longrightarrow> pointee q (front_q q) = Inr (if xs = [] then None else Some (hd xs))"
proof (cases "xs = []")
  case False
  assume r: "represents q cap xs"
  note d = representsD [OF r]
  have "front_q q = Some (readIndex q)" "at_pos q (readIndex q) 0"
    using front_q_spec (2) [OF d(1)] d(2) False by auto
  moreover have "0 < stored q" using False d(4) by simp
  ultimately show ?thesis
    using deref_at_pos [OF d(1), of "readIndex q" 0] d(2) False by (simp add: pointee_def hd_conv_nth)
qed (auto simp: pointee_def represents_def front_q_spec (1))

lemma pointee_back: "represents q cap xs \<Longrightarrow> pointee q (back_q q) = Inr (if xs = [] then None else Some (last xs))"
proof (cases "xs = []")
  case False
  assume r: "represents q cap xs"
  note d = representsD [OF r]
  obtain i where "back_q q = Some i" "at_pos q i (stored q - 1)"
    using back_q_spec (2) [OF d(1)] d(2) False by auto
  moreover have "stored q - 1 < stored q" using False d(4) by simp
  ultimately show ?thesis
    using deref_at_pos [OF d(1)] d(2,4) False by (simp add: pointee_def last_conv_nth)
qed (auto simp: pointee_def represents_def back_q_spec (1))

lemma write_corresponds: "represents q cap xs \<Longrightarrow> corresponds cap (exec_op (Write x) q) (spec_op cap (Write x) xs)"
proof (cases "length xs < cap")
  case True
  assume r: "represents q cap xs"
  note d = representsD [OF r]
  show ?thesis
    using write_q_room [OF d(1), of x] d True represents_same_config [OF r] by fastforce
next
  case False
  assume r: "represents q cap xs"
  note d = representsD [OF r]
  let ?q = "q\<lparr>overflow_ctr := overflow_ctr q + 1\<rparr>"
  have "queue_inv ?q" "contents ?q = contents q"
    using d(1) by (auto simp: queue_inv_def stored_def ring_slot_def contents_def split: region.splits)
  then show ?thesis
    using write_q_no_room [OF d(1), of x] d False by (auto simp: represents_def)
qed

lemma pop_corresponds: "represents q cap xs \<Longrightarrow> corresponds cap (exec_op (Pop n) q) (spec_op cap (Pop n) xs)"
proof (cases "n \<le> length xs")
  case True
  assume r: "represents q cap xs"
  note d = representsD [OF r]
  show ?thesis
    using pop_q_spec [OF d(1), of n] d True represents_same_config [OF r] by fastforce
next
  case False
  assume "represents q cap xs"
  then show ?thesis using pop_q_too_many [of q n] False by (simp add: representsD)
qed

lemma consumer_corresponds:
  assumes r: "represents q cap xs"
  shows "corresponds cap (exec_op Read q) (spec_op cap Read xs)"
    and "corresponds cap (exec_op PopFront q) (spec_op cap PopFront xs)"
    and "corresponds cap (exec_op Flush q) (spec_op cap Flush xs)"
proof -
  note d = representsD [OF r]
  have "corresponds cap (exec_op Read q) (spec_op cap Read xs) \<and>
        corresponds cap (exec_op PopFront q) (spec_op cap PopFront xs)"
  proof (cases xs)
    case Nil
    then show ?thesis using read_q_empty [OF d(1)] d(2) r by simp
  next
    case (Cons y ys)
    then show ?thesis using popFront_spec [OF d(1)] d(2) represents_same_config [OF r] by fastforce
  qed
  then show "corresponds cap (exec_op Read q) (spec_op cap Read xs)"
    "corresponds cap (exec_op PopFront q) (spec_op cap PopFront xs)" by simp_all
  show "corresponds cap (exec_op Flush q) (spec_op cap Flush xs)"
    using flush_q_spec [OF d(1)] represents_same_config [OF r] by fastforce
qed

lemma exec_op_corresponds:
  assumes "represents q cap xs"
  shows "corresponds cap (exec_op op q) (spec_op cap op xs)"
proof (cases op)
  case (Write x)
  show ?thesis unfolding Write by (rule write_corresponds [OF assms])
next
  case (Pop n)
  show ?thesis unfolding Pop by (rule pop_corresponds [OF assms])
next
  case IsFull
  have "unat (capacity q) = cap"
    using assms isFull_spec by (simp add: represents_def capacity_def unat_sub word_le_nat_alt)
  then show ?thesis using assms IsFull isFull_spec [of q] by (simp add: represents_def)
qed (use assms consumer_corresponds [OF assms] pointee_front [OF assms] pointee_back [OF assms] in
      \<open>auto simp: represents_def isEmpty_spec occupancy_q_spec\<close>)

section \<open>The queue is a bounded first-in first-out list\<close>

text \<open>
  C1. Every sequence of writes, reads, pops, flushes and queries on a well-formed
  \<open>IterableQueueModel\<close> of \<open>cap + 1\<close> slots returns exactly what the same sequence returns on a
  list bounded by \<open>cap\<close> elements (writes append or are refused when \<open>cap\<close> elements are
  stored, reads and pops take the oldest, popping from an empty queue fails the assertion), no
  access touches a slot that is out of range or holds no object, and the queue stays
  well-formed.
\<close>

theorem queue_refines_bounded_list:
  assumes "represents q cap xs"
  shows "fst (run_queue ops q) = fst (run_spec cap ops xs) \<and>
         represents (snd (run_queue ops q)) cap (snd (run_spec cap ops xs))"
  using assms
proof (induction ops arbitrary: q xs)
  case Nil
  then show ?case by simp
next
  case (Cons op ops)
  have c: "corresponds cap (exec_op op q) (spec_op cap op xs)"
    by (rule exec_op_corresponds [OF Cons.prems])
  show ?case
  proof (cases "exec_op op q")
    case (Inl e)
    then show ?thesis using c Cons.prems by (auto simp: corresponds_def split: sum.splits)
  next
    case (Inr p)
    then obtain r q' xs' where "exec_op op q = Inr (r, q')" "spec_op cap op xs = Inr (r, xs')"
      and rep: "represents q' cap xs'"
      using c by (cases p) (auto simp: corresponds_def split: sum.splits)
    then show ?thesis using Cons.IH [OF rep] by (auto split: prod.splits)
  qed
qed

text \<open>An environment in which every allocation succeeds, for concrete instances.\<close>

definition plain_env :: build_env where
  "plain_env = \<lparr>with_libnuma = False, alloc_succeeds = (\<lambda>_ _. True), trivially_destructible = False\<rparr>"

lemma default_queue_represents: "represents (default_queue plain_env) 1 []"
  using fresh_queue_inv [of "default_queue plain_env" StdMalloc]
  by (simp add: represents_def default_queue_def alloc_region_def plain_env_def)

theorem queue_refines_bounded_list_witness:
  "represents (default_queue plain_env) 1 ([] :: u64 list) \<and>
   fst (run_queue [Write 7, Write 8, Front, Read, PopFront] (default_queue plain_env)) =
   [RBool True, RBool False, RElement (Some (7::u64)), RElement (Some 7), RFault AssertFailed]"
  using queue_refines_bounded_list [OF default_queue_represents, of "[Write (7::u64), Write 8, Front, Read, PopFront]"]
    default_queue_represents by simp

text \<open>
  Iterating a well-formed queue from \<open>begin()\<close> with \<open>operator++\<close> visits the stored elements
  oldest first: after \<open>k\<close> increments the iterator is good and refers to the \<open>k\<close>-th oldest element
  while \<open>k\<close> is less than the number of elements, and it is \<open>end()\<close> from then on, across the
  wrap-around of the ring.
\<close>

theorem iteration_visits_contents:
  assumes "queue_inv q"
  shows "if k < length (contents q)
         then good q (iter_advance q k (begin_iter q)) \<and>
              iter_deref q (iter_advance q k (begin_iter q)) = Inr (contents q ! k)
         else iter_advance q k (begin_iter q) = end_iter"
proof (cases "contents q = []")
  case True
  have "iter_advance q k end_iter = end_iter" by (induction k) auto
  then show ?thesis
    using True isEmpty_spec [OF assms] by (simp add: begin_iter_def isEmpty_def)
next
  case False
  then have "begin_iter q = readIndex q"
    using isEmpty_spec [OF assms] by (simp add: begin_iter_def isEmpty_def)
  moreover have "at_pos q (readIndex q) 0" "0 < stored q"
    using front_q_spec (2) [OF assms False] False by (simp_all flip: length_contents)
  ultimately show ?thesis
    using iter_advance_at_pos [OF assms, of "readIndex q" 0 k] good_at_pos [OF assms] deref_at_pos [OF assms]
    by (auto split: if_splits)
qed

text \<open>A queue of four slots whose three elements wrap around the end of the array.\<close>

definition wrapped_queue :: "u64 iterable_queue" where
  "wrapped_queue = (default_queue plain_env)
     \<lparr>qsize := 4, records := Region StdMalloc [Some 11, Some 12, None, Some 10],
      readIndex := 3, writeIndex := 2\<rparr>"

lemma wrapped_queue_inv: "queue_inv wrapped_queue"
  by (simp add: queue_inv_def wrapped_queue_def default_queue_def stored_def ring_slot_def upt_rec)

theorem iteration_visits_contents_witness:
  "queue_inv wrapped_queue \<and> contents wrapped_queue = [10, 11, 12] \<and>
   iter_deref wrapped_queue (iter_advance wrapped_queue 2 (begin_iter wrapped_queue)) = Inr 12"
proof -
  have c: "contents wrapped_queue = [10, 11, 12]"
    by (simp add: contents_def wrapped_queue_def default_queue_def stored_def ring_slot_def upt_rec)
  then show ?thesis
    using iteration_visits_contents [OF wrapped_queue_inv, of 2] wrapped_queue_inv by simp
qed

section \<open>Configuration and release\<close>

text \<open>
  \<open>conf\<close> on a well-formed queue, with an allocation strategy that allocation and release
  agree on, a size of at least two and below \<open>2 ^ 31\<close>, and a successful allocation, returns: the old
  elements are destroyed and the old memory freed by the matching function, and the new queue is
  well-formed, empty, of the configured size, and will be freed by the matching function. The
  pre-filling of the buffer leaves nothing behind. \<open>scrap\<close> then gives back the state of a
  default-constructed queue, but for the overflow counter and whether its own small allocation
  succeeds.
\<close>

theorem conf_then_scrap:
  assumes "queue_inv q" "alloc_inv q" "numa_aware q \<longrightarrow> with_libnuma env"
    and "coherent_cfg env cfg" "2 \<le> cfg_size cfg" "unat (cfg_size cfg) < 2 ^ 31"
    and "alloc_succeeds env (selected_allocator cfg) (cfg_size cfg)"
  shows "\<exists>q'. conf_q env d cfg q = Inr q' \<and> queue_inv q' \<and> alloc_inv q' \<and> contents q' = [] \<and>
              unat (qsize q') = unat (cfg_size cfg) \<and>
              scrap_q env q' = Inr ((default_queue env)\<lparr>overflow_ctr := overflow_ctr q'\<rparr>)"
proof -
  obtain q' where q': "conf_q env d cfg q = Inr q'" "queue_inv q'" "alloc_inv q'" "contents q' = []"
      "unat (qsize q') = unat (cfg_size cfg)" "numa_aware q' \<longrightarrow> with_libnuma env"
    using conf_q_coherent [OF assms] by blast
  have "scrap_q env q' = Inr ((default_queue env)\<lparr>overflow_ctr := overflow_ctr q'\<rparr>)"
    by (simp add: scrap_q_def free_memory_spec [OF q'(2,3,6)] default_queue_def)
  with q' show ?thesis by blast
qed

definition numa_env :: build_env where
  "numa_env = plain_env\<lparr>with_libnuma := True\<rparr>"

definition sample_cfg :: "u64 \<Rightarrow> bool \<Rightarrow> u8 \<Rightarrow> bool \<Rightarrow> u64 \<Rightarrow> latency_buffer_conf" where
  "sample_cfg sz numa node intrinsic align =
     \<lparr>cfg_size = sz, cfg_numa_aware = numa, cfg_numa_node = node, cfg_intrinsic_allocator = intrinsic,
      cfg_alignment_size = align, cfg_preallocation = False\<rparr>"

lemma default_queue_alloc_inv: "alloc_succeeds env StdMalloc 2 \<Longrightarrow> alloc_inv (default_queue env)"
  by (simp add: alloc_inv_def default_queue_def alloc_region_def)

lemma default_queue_inv: "alloc_succeeds env StdMalloc 2 \<Longrightarrow> queue_inv (default_queue env)"
  using fresh_queue_inv (1) [of "default_queue env" StdMalloc]
  by (simp add: default_queue_def alloc_region_def)

lemmas sample_simps = sample_cfg_def numa_env_def plain_env_def default_queue_def coherent_cfg_def
  selected_allocator_def

theorem conf_then_scrap_witness:
  "\<exists>q'. conf_q plain_env (0::u64)
          (sample_cfg 8 False 0 False 64\<lparr>cfg_preallocation := True\<rparr>) (default_queue plain_env) = Inr q' \<and>
        unat (qsize q') = 8 \<and> contents q' = []"
  using conf_then_scrap [of "default_queue plain_env" plain_env
      "sample_cfg 8 False 0 False 64\<lparr>cfg_preallocation := True\<rparr>" "0::u64"]
    default_queue_inv [of plain_env] default_queue_alloc_inv [of plain_env]
  by (auto simp: sample_simps)

text \<open>
  When the flags select no allocator (NUMA awareness with a node of 8 or more and no
  alignment, or the intrinsic allocator without an alignment) \<open>allocate_memory\<close> leaves
  \<open>records_\<close> as it is. In \<open>conf\<close> that pointer was just freed and is not null, so the check that
  should make the configuration fail does not: \<open>conf\<close> returns, and the next write goes to freed
  memory.
\<close>

theorem conf_unsupported_leaves_freed_memory:
  assumes inv: "queue_inv q" "alloc_inv q" "numa_aware q \<longrightarrow> with_libnuma env"
    and sz: "2 \<le> cfg_size cfg" "unat (cfg_size cfg) < 2 ^ 31"
    and flags: "cfg_alignment_size cfg = 0" "\<not> (cfg_numa_aware cfg \<and> cfg_numa_node cfg < 8)"
      "cfg_numa_aware cfg \<or> cfg_intrinsic_allocator cfg"
    and pre: "\<not> cfg_preallocation cfg"
  shows "\<exists>q'. conf_q env d cfg q = Inr q' \<and> records q' = Dangling \<and> write_q x q' = Inl InvalidAccess"
proof -
  let ?q = "q\<lparr>records := Dangling, qsize := ucast (cfg_size cfg), numa_aware := cfg_numa_aware cfg,
               numa_node := cfg_numa_node cfg, intrinsic_allocator := cfg_intrinsic_allocator cfg,
               alignment_size := cfg_alignment_size cfg, readIndex := 0, writeIndex := 0\<rparr>"
  have c: "conf_q env d cfg q = Inr ?q"
    using sz(1) [folded not_less] flags pre
    by (auto simp: conf_q_def free_memory_spec [OF inv] allocate_memory_def Let_def)
  have "unat (ucast (cfg_size cfg) :: u32) = unat (cfg_size cfg)" using sz(2) by (simp add: unat_ucast_u32)
  then have "1 \<noteq> (ucast (cfg_size cfg) :: u32)"
    using sz(1) by (auto simp: word_le_nat_alt word_unat_eq_iff)
  then have "next_index (qsize ?q) 0 \<noteq> 0" by (simp add: next_index_def)
  then have "write_q x ?q = Inl InvalidAccess" by (simp add: write_q_def)
  with c show ?thesis by auto
qed

theorem conf_unsupported_leaves_freed_memory_witness:
  "\<exists>q'. conf_q plain_env (0::u64) (sample_cfg 8 False 0 True 0) (default_queue plain_env) = Inr q' \<and>
        records q' = Dangling \<and> write_q 5 q' = Inl InvalidAccess"
  using conf_unsupported_leaves_freed_memory [of "default_queue plain_env" plain_env
      "sample_cfg 8 False 0 True 0" "0::u64" 5]
    default_queue_inv [of plain_env] default_queue_alloc_inv [of plain_env]
  by (auto simp: sample_simps)

text \<open>
  When NUMA allocation and the intrinsic allocator are both requested, memory comes from
  libnuma but \<open>free_memory\<close> tests the intrinsic flag first and hands it to \<open>_mm_free\<close>: the
  configuration succeeds and the next \<open>scrap\<close> frees with the wrong function.
\<close>

theorem conf_numa_and_intrinsic_mismatched_free:
  assumes inv: "queue_inv q" "alloc_inv q" "numa_aware q \<longrightarrow> with_libnuma env"
    and sz: "2 \<le> cfg_size cfg" "unat (cfg_size cfg) < 2 ^ 31"
    and flags: "cfg_numa_aware cfg" "cfg_numa_node cfg < 8" "cfg_intrinsic_allocator cfg" "with_libnuma env"
    and pre: "\<not> cfg_preallocation cfg" and ok: "alloc_succeeds env (NumaAlloc (cfg_numa_node cfg)) (cfg_size cfg)"
  shows "\<exists>q'. conf_q env d cfg q = Inr q' \<and> queue_inv q' \<and> scrap_q env q' = Inl InvalidFree"
proof -
  let ?q = "q\<lparr>records := Region (NumaAlloc (cfg_numa_node cfg)) (replicate (unat (cfg_size cfg)) None),
               qsize := ucast (cfg_size cfg), numa_aware := True,
               numa_node := cfg_numa_node cfg, intrinsic_allocator := True,
               alignment_size := cfg_alignment_size cfg, readIndex := 0, writeIndex := 0\<rparr>"
  have c: "conf_q env d cfg q = Inr ?q"
    using sz(1) [folded not_less] flags pre ok
    by (auto simp: conf_q_def free_memory_spec [OF inv] allocate_memory_def alloc_region_def Let_def)
  have n: "unat (ucast (cfg_size cfg) :: u32) = unat (cfg_size cfg)" using sz(2) by (simp add: unat_ucast_u32)
  have "2 \<le> unat (cfg_size cfg)" using sz(1) by (simp add: word_le_nat_alt)
  then have "queue_inv ?q"
    using fresh_queue_inv (1) [of ?q "NumaAlloc (cfg_numa_node cfg)"] n sz(2) by simp
  moreover have "scrap_q env ?q = Inl InvalidFree"
    by (simp add: scrap_q_def free_memory_def release_def destroy_range.simps)
  ultimately show ?thesis using c by blast
qed

theorem conf_numa_and_intrinsic_mismatched_free_witness:
  "\<exists>q'. conf_q numa_env (0::u64) (sample_cfg 8 True 0 True 64) (default_queue numa_env) = Inr q' \<and>
        queue_inv q' \<and> scrap_q numa_env q' = Inl InvalidFree"
  using conf_numa_and_intrinsic_mismatched_free [of "default_queue numa_env" numa_env
      "sample_cfg 8 True 0 True 64" "0::u64"]
    default_queue_inv [of numa_env] default_queue_alloc_inv [of numa_env]
  by (auto simp: sample_simps)

end
