(* ===== verification/Readout_Types.thy ===== *)
theory Readout_Types
  imports Prelude
begin

text \<open>
  The element type of a latency buffer. The C++ classes are templates over a readout type; the
  operations they call on it are the fields of the record \<open>readout_ops\<close>, which every generic
  definition takes as an argument. The concrete readout types live in other packages, except
  for the dummy frame of ReadoutTypes.hpp, which is modelled here and shows that the laws the
  library relies on can hold.
\<close>

section \<open>Operations on a readout type\<close>

text \<open>
  \<open>elem_less\<close> is \<open>operator<\<close>; \<open>frame_timestamps\<close> lists the timestamps of the frames from
  \<open>begin()\<close> to \<open>end()\<close> (\<open>get_frame_iterator_timestamp\<close>); \<open>default_element\<close> is \<open>RDT()\<close>; \<open>uninit_element\<close> is what
  \<open>RDT x;\<close> leaves in \<open>x\<close>, indeterminate values for a type without initialisers.
\<close>

record 'a readout_ops =
  get_timestamp :: "'a \<Rightarrow> u64"
  set_timestamp :: "u64 \<Rightarrow> 'a \<Rightarrow> 'a"
  elem_less :: "'a \<Rightarrow> 'a \<Rightarrow> bool"
  get_num_frames :: "'a \<Rightarrow> u64"
  expected_tick_difference :: u64
  get_payload_size :: "'a \<Rightarrow> u64"
  get_frame_size :: "'a \<Rightarrow> u64"
  frame_timestamps :: "'a \<Rightarrow> u64 list"
  default_element :: 'a
  uninit_element :: 'a

text \<open>
  What the searches rely on: the order refines the order of timestamps, and setting the
  timestamp of an element is what reading it returns.
\<close>

locale readout_order =
  fixes R :: "'a readout_ops"
  assumes less_imp_ts: "elem_less R x y \<Longrightarrow> get_timestamp R x \<le> get_timestamp R y"
    and ts_imp_less: "get_timestamp R x < get_timestamp R y \<Longrightarrow> elem_less R x y"
    and get_set_timestamp: "get_timestamp R (set_timestamp R t x) = t"
begin

lemma less_iff_ts: "get_timestamp R x \<noteq> get_timestamp R y \<Longrightarrow> elem_less R x y \<longleftrightarrow> get_timestamp R x < get_timestamp R y"
  using less_imp_ts [of x y] ts_imp_less [of x y] by (auto simp: order_le_less)

lemma not_less_ts: "\<not> elem_less R x y \<Longrightarrow> get_timestamp R y \<le> get_timestamp R x"
  using ts_imp_less [of x y] linorder_not_less by blast

end

section \<open>Positions in a list ordered by timestamp\<close>

definition ts_sorted :: "'a readout_ops \<Rightarrow> 'a list \<Rightarrow> bool" where
  "ts_sorted R xs \<longleftrightarrow> sorted_wrt (\<lambda>x y. get_timestamp R x < get_timestamp R y) xs"

text \<open>The position of the first element whose timestamp is not below \<open>t\<close>.\<close>

definition lb_index :: "'a readout_ops \<Rightarrow> u64 \<Rightarrow> 'a list \<Rightarrow> nat" where
  "lb_index R t xs = length (takeWhile (\<lambda>x. get_timestamp R x < t) xs)"

lemma lb_index_le [simp]: "lb_index R t xs \<le> length xs"
  by (simp add: lb_index_def length_takeWhile_le)

lemma lb_index_eqI:
  assumes "k \<le> length xs" and "\<And>j. j < k \<Longrightarrow> get_timestamp R (xs ! j) < t"
    and "k < length xs \<Longrightarrow> t \<le> get_timestamp R (xs ! k)"
  shows "lb_index R t xs = k"
proof -
  have "takeWhile (\<lambda>x. get_timestamp R x < t) xs = take k xs"
    by (rule takeWhile_eq_take_P_nth) (use assms in \<open>auto simp: not_less\<close>)
  then show ?thesis using assms(1) by (simp add: lb_index_def)
qed

lemma lb_index_below: "j < lb_index R t xs \<Longrightarrow> get_timestamp R (xs ! j) < t"
  unfolding lb_index_def by (metis nth_mem set_takeWhileD takeWhile_nth)

lemma lb_index_at: "lb_index R t xs < length xs \<Longrightarrow> t \<le> get_timestamp R (xs ! lb_index R t xs)"
  unfolding lb_index_def using nth_length_takeWhile not_less by fastforce

lemma ts_sorted_less: "ts_sorted R xs \<Longrightarrow> i < j \<Longrightarrow> j < length xs \<Longrightarrow> get_timestamp R (xs ! i) < get_timestamp R (xs ! j)"
  by (simp add: ts_sorted_def sorted_wrt_iff_nth_less)

lemma ts_sorted_le: "ts_sorted R xs \<Longrightarrow> i \<le> j \<Longrightarrow> j < length xs \<Longrightarrow> get_timestamp R (xs ! i) \<le> get_timestamp R (xs ! j)"
  using ts_sorted_less [of R xs i j] by (cases "i = j") auto

lemma lb_index_exact: "ts_sorted R xs \<Longrightarrow> k < length xs \<Longrightarrow> lb_index R (get_timestamp R (xs ! k)) xs = k"
  by (rule lb_index_eqI) (auto intro: ts_sorted_less)

lemma lb_index_above:
  assumes "ts_sorted R xs" and "lb_index R t xs \<le> j" and "j < length xs"
  shows "t \<le> get_timestamp R (xs ! j)"
  using lb_index_at [of R t xs] ts_sorted_le [OF assms] assms(2,3) by (meson le_less_trans order_trans)

section \<open>The dummy frame\<close>

record dummy_frame =
  timestamp :: u64
  another_key :: u64
  frame_data :: "u8 list"

definition DUMMY_FRAME_SIZE :: nat where
  "DUMMY_FRAME_SIZE = 1024"

definition dummy_less :: "dummy_frame \<Rightarrow> dummy_frame \<Rightarrow> bool" where
  "dummy_less x y \<longleftrightarrow>
     timestamp x < timestamp y \<or> (timestamp x = timestamp y \<and> another_key x < another_key y)"

definition dummy_get_timestamp :: "dummy_frame \<Rightarrow> u64" where
  "dummy_get_timestamp x = timestamp x"

definition dummy_set_timestamp :: "u64 \<Rightarrow> dummy_frame \<Rightarrow> dummy_frame" where
  "dummy_set_timestamp ts x = x\<lparr>timestamp := ts\<rparr>"

definition dummy_set_another_key :: "u64 \<Rightarrow> dummy_frame \<Rightarrow> dummy_frame" where
  "dummy_set_another_key compkey x = x\<lparr>another_key := compkey\<rparr>"

text \<open>
  The dummy frame as a readout type. It holds one frame per element and \<open>begin()\<close> is the
  element itself; it declares no tick difference, so that is an argument, and no payload size, for
  which its element size is taken. Of the values an uninitialised frame may hold, zeros are chosen.
\<close>

definition dummy_ops :: "u64 \<Rightarrow> dummy_frame readout_ops" where
  "dummy_ops tick =
     \<lparr>get_timestamp = dummy_get_timestamp, set_timestamp = dummy_set_timestamp, elem_less = dummy_less,
      get_num_frames = (\<lambda>_. 1), expected_tick_difference = tick,
      get_payload_size = (\<lambda>_. of_nat DUMMY_FRAME_SIZE), get_frame_size = (\<lambda>_. of_nat DUMMY_FRAME_SIZE),
      frame_timestamps = (\<lambda>x. [dummy_get_timestamp x]),
      default_element = \<lparr>timestamp = 0, another_key = 0, frame_data = replicate DUMMY_FRAME_SIZE 0\<rparr>,
      uninit_element = \<lparr>timestamp = 0, another_key = 0, frame_data = replicate DUMMY_FRAME_SIZE 0\<rparr>\<rparr>"

lemma dummy_ops_sel [simp]:
  "get_timestamp (dummy_ops tick) x = timestamp x"
  "set_timestamp (dummy_ops tick) t x = x\<lparr>timestamp := t\<rparr>"
  "elem_less (dummy_ops tick) x y = dummy_less x y"
  "get_num_frames (dummy_ops tick) x = 1"
  "expected_tick_difference (dummy_ops tick) = tick"
  "get_payload_size (dummy_ops tick) x = of_nat DUMMY_FRAME_SIZE"
  "get_frame_size (dummy_ops tick) x = of_nat DUMMY_FRAME_SIZE"
  "frame_timestamps (dummy_ops tick) x = [timestamp x]"
  by (simp_all add: dummy_ops_def dummy_get_timestamp_def dummy_set_timestamp_def)

interpretation dummy: readout_order "dummy_ops tick"
  by unfold_locales
    (auto simp: dummy_less_def)

end
