(* ===== verification/Searchable_Queues.thy ===== *)
theory Searchable_Queues
  imports Iterable_Queue Readout_Types
begin

text \<open>
  The two queue models that can be searched by timestamp: \<open>BinarySearchQueueModel\<close>
  (models/detail/BinarySearchQueueModel.hxx) searches the ring by bisection,
  \<open>FixedRateQueueModel\<close> (models/detail/FixedRateQueueModel.hxx) computes the position from the
  distance to the oldest timestamp. Both are compared with the reference position
  \<open>lb_index\<close>, the number of stored elements with a smaller timestamp.
\<close>

section \<open>Binary search\<close>

text \<open>The loop of \<open>lower_bound\<close>; not returning would be \<open>None\<close>.\<close>

partial_function (option) bs_loop ::
  "'a readout_ops \<Rightarrow> 'a iterable_queue \<Rightarrow> 'a \<Rightarrow> u32 \<Rightarrow> u32 \<Rightarrow> (fault + u32) option" where
  "bs_loop R q element start_index end_index =
     (let diff = (if start_index \<le> end_index then end_index - start_index
                  else qsize q + end_index - start_index);
          mid = start_index + ((diff + 1) div 2);
          middle_index = (if mid \<ge> qsize q then mid - qsize q else mid)
      in case iter_deref q middle_index of
           Inl f \<Rightarrow> Some (Inl f)
         | Inr element_between \<Rightarrow>
             if get_timestamp R element = get_timestamp R element_between then Some (Inr middle_index)
             else if diff = 0 then
               (if elem_less R element element_between then Some (Inr middle_index)
                else let m = middle_index + 1 in Some (Inr (if m \<ge> qsize q then m - qsize q else m)))
             else if elem_less R element element_between then
               bs_loop R q element start_index (if middle_index \<noteq> 0 then middle_index - 1 else qsize q - 1)
             else bs_loop R q element middle_index end_index)"

definition bs_lower_bound ::
  "'a readout_ops \<Rightarrow> 'a \<Rightarrow> bool \<Rightarrow> 'a iterable_queue \<Rightarrow> (fault + u32) option" where
  "bs_lower_bound R element with_errors q =
     (let start_index = readIndex q; end_index = writeIndex q
      in if start_index = end_index then Some (Inr end_iter)
         else let end_index = (if end_index = 0 then qsize q - 1 else end_index - 1)
              in case iter_deref q start_index of
                   Inl f \<Rightarrow> Some (Inl f)
                 | Inr left_element \<Rightarrow>
                     if elem_less R element left_element then Some (Inr end_iter)
                     else bs_loop R q element start_index end_index)"

section \<open>Fixed-rate search\<close>

definition fr_lower_bound ::
  "'a readout_ops \<Rightarrow> 'a \<Rightarrow> bool \<Rightarrow> 'a iterable_queue \<Rightarrow> (fault + u32) option" where
  "fr_lower_bound R element with_errors q =
     (if with_errors then bs_lower_bound R element with_errors q
      else Some (
        let ts = get_timestamp R element;
            start_index = readIndex q;
            occupancy_guess = occupancy_q q
        in bindE (iter_deref q start_index) (\<lambda>oldest.
             let last_ts = get_timestamp R oldest;
                 n_frames = get_num_frames R oldest;
                 tick = expected_tick_difference R;
                 newest_ts = last_ts + occupancy_guess * tick * n_frames
             in if last_ts > ts \<or> ts > newest_ts then Inr end_iter
                else if tick = 0 \<or> n_frames = 0 \<or> tick * n_frames = 0 then Inl DivisionByZero
                else let time_tick_diff = ts - last_ts;
                         num_element_offset = ucast (time_tick_diff div tick div n_frames);
                         target_index = start_index + num_element_offset;
                         target_index = (if time_tick_diff mod (tick * n_frames) \<noteq> 0
                                         then target_index + 1 else target_index)
                     in Inr (if target_index \<ge> qsize q then target_index - qsize q else target_index))))"

section \<open>Index arithmetic of the searches\<close>

lemma at_pos_le: "at_pos q i k \<Longrightarrow> k \<le> stored q"
  by (simp add: at_pos_def)

lemma at_pos_unat:
  assumes "queue_inv q" and "at_pos q i k"
  shows "unat i = (if unat (readIndex q) + k < unat (qsize q) then unat (readIndex q) + k
                   else unat (readIndex q) + k - unat (qsize q))"
  using assms stored_less_size [OF assms(1)]
  by (auto simp: at_pos_def ring_slot_def add_mod_ring elim!: queue_inv_rep dest!: ring_repD (7))

lemma queue_bounds:
  assumes "queue_inv q"
  shows "unat (readIndex q) < unat (qsize q)" "unat (qsize q) < 2 ^ 31" "2 \<le> unat (qsize q)" "stored q < unat (qsize q)"
  using assms by (auto elim!: queue_inv_rep dest: ring_repD)

text \<open>Distance between two positions, as the loop computes it.\<close>

lemma diff_at_pos:
  assumes inv: "queue_inv q" and s: "at_pos q s a" and t: "at_pos q t b" and ab: "a \<le> b"
  shows "unat (if s \<le> t then t - s else qsize q + t - s) = b - a"
proof -
  note u = at_pos_unat [OF inv s] at_pos_unat [OF inv t]
  note bnd = queue_bounds [OF inv] at_pos_le [OF t]
  show ?thesis
  proof (cases "s \<le> t")
    case True
    then show ?thesis using u bnd ab by (auto simp: unat_sub word_le_nat_alt split: if_splits)
  next
    case False
    have "unat t < unat (qsize q)" using u(2) bnd by (auto split: if_splits)
    then have "unat (qsize q + t) = unat (qsize q) + unat t" using bnd(2) by (simp add: unat_plus_if')
    then show ?thesis
      using False u bnd ab by (auto simp: unat_sub_if_size word_size word_le_nat_alt split: if_splits)
  qed
qed

text \<open>Going \<open>d\<close> positions up from a position, with one conditional subtraction.\<close>

lemma advance_at_pos:
  assumes inv: "queue_inv q" and s: "at_pos q s a" and d: "a + unat d \<le> stored q"
  shows "at_pos q (if s + d \<ge> qsize q then s + d - qsize q else s + d) (a + unat d)"
proof -
  note u = at_pos_unat [OF inv s]
  note bnd = queue_bounds [OF inv]
  have lt: "unat s < unat (qsize q)" using u bnd d by (auto split: if_splits)
  have sum: "unat (s + d) = unat s + unat d" using lt bnd d by (simp add: unat_plus_if')
  have slot: "ring_slot q (a + unat d) = (unat s + unat d) mod unat (qsize q)"
    using s by (simp add: at_pos_def ring_slot_def mod_simps add.assoc)
  have "unat d < unat (qsize q)" using bnd(4) d by linarith
  then show ?thesis
    using sum slot lt d by (auto simp: at_pos_def word_le_nat_alt unat_sub add_mod_ring)
qed

lemma prev_at_pos:
  assumes inv: "queue_inv q" and s: "at_pos q s (Suc a)"
  shows "at_pos q (if s \<noteq> 0 then s - 1 else qsize q - 1) a"
proof -
  note u = at_pos_unat [OF inv s]
  note bnd = queue_bounds [OF inv] at_pos_le [OF s]
  have "s < qsize q" by (rule at_pos_less [OF inv s])
  then have "unat (if s \<noteq> 0 then s - 1 else qsize q - 1) =
      (if unat s = 0 then unat (qsize q) - 1 else unat s - 1)"
    using prev_index [of s "qsize q"] by (auto split: if_splits)
  moreover have "ring_slot q a = (if unat (readIndex q) + a < unat (qsize q) then unat (readIndex q) + a
      else unat (readIndex q) + a - unat (qsize q))"
    using bnd add_mod_ring [of "unat (readIndex q)" "unat (qsize q)" a] by (simp add: ring_slot_def)
  ultimately show ?thesis using u bnd by (auto simp: at_pos_def split: if_splits)
qed

lemma half_up: "unat (d::u32) + 1 < 2 ^ 32 \<Longrightarrow> unat ((d + 1) div 2) = (unat d + 1) div 2"
  by (simp add: unat_div_distrib unat_plus_if')

section \<open>Correctness of the searches\<close>

lemma ts_at_pos:
  assumes "queue_inv q" and "at_pos q i k" and "k < stored q"
  shows "\<exists>x. iter_deref q i = Inr x \<and> get_timestamp R x = get_timestamp R (contents q ! k)"
  using deref_at_pos [OF assms] by blast

context readout_order
begin

lemma bs_loop_correct:
  assumes inv: "queue_inv q" and srt: "ts_sorted R (contents q)"
  shows "at_pos q s a \<Longrightarrow> at_pos q t b \<Longrightarrow> a \<le> b \<Longrightarrow> b < stored q \<Longrightarrow>
         get_timestamp R (contents q ! a) \<le> get_timestamp R e \<Longrightarrow>
         (b + 1 < stored q \<Longrightarrow> get_timestamp R e < get_timestamp R (contents q ! (b + 1))) \<Longrightarrow>
         \<exists>i. bs_loop R q e s t = Some (Inr i) \<and> at_pos q i (lb_index R (get_timestamp R e) (contents q))"
proof (induction "b - a" arbitrary: a b s t rule: less_induct)
  case less
  note bnd = queue_bounds [OF inv]
  let ?c = "contents q" and ?T = "get_timestamp R e"
  define diff where "diff = (if s \<le> t then t - s else qsize q + t - s)"
  define mid where "mid = s + (diff + 1) div 2"
  define m where "m = (if mid \<ge> qsize q then mid - qsize q else mid)"
  define k where "k = a + (b - a + 1) div 2"
  have d: "unat diff = b - a" unfolding diff_def by (rule diff_at_pos [OF inv less.prems(1-3)])
  then have h: "unat ((diff + 1) div 2) = (b - a + 1) div 2"
    using half_up [of diff] bnd less.prems(4) by simp
  have k: "a \<le> k" "k \<le> b" "k < stored q" "a < b \<Longrightarrow> a < k" using less.prems(3,4) by (auto simp: k_def)
  have m: "at_pos q m k"
    using advance_at_pos [OF inv less.prems(1), of "(diff + 1) div 2"] k(3)
    unfolding m_def mid_def k_def h by simp
  have x: "iter_deref q m = Inr (?c ! k)" by (rule deref_at_pos [OF inv m k(3)])
  have step: "bs_loop R q e s t =
     (if ?T = get_timestamp R (?c ! k) then Some (Inr m)
      else if diff = 0 then (if elem_less R e (?c ! k) then Some (Inr m)
        else Some (Inr (if m + 1 \<ge> qsize q then m + 1 - qsize q else m + 1)))
      else if elem_less R e (?c ! k) then bs_loop R q e s (if m \<noteq> 0 then m - 1 else qsize q - 1)
      else bs_loop R q e m t)"
    by (subst bs_loop.simps, unfold Let_def, fold diff_def, fold mid_def, fold m_def)
      (simp only: x sum.case)
  have kl: "k < length ?c" using k(3) by simp
  show ?case
  proof (cases "?T = get_timestamp R (?c ! k)")
    case True
    then show ?thesis using step m lb_index_exact [OF srt kl] by simp
  next
    case ne: False
    note cmp = less_iff_ts [OF ne]
    show ?thesis
    proof (cases "diff = 0")
      case True
      then have ab: "a = b" "k = a" using d less.prems(3) k by auto
      have lt: "get_timestamp R (?c ! k) < ?T" using ne ab less.prems(5) by auto
      then have nl: "\<not> elem_less R e (?c ! k)" using cmp by simp
      have "lb_index R ?T ?c = k + 1"
      proof (rule lb_index_eqI)
        show "k + 1 \<le> length ?c" using kl by simp
        show "get_timestamp R (?c ! j) < ?T" if "j < k + 1" for j
          using ts_sorted_le [OF srt _ kl, of j] lt that by (simp add: less_Suc_eq_le)
        show "?T \<le> get_timestamp R (?c ! (k + 1))" if "k + 1 < length ?c"
          using less.prems(6) ab that by simp
      qed
      moreover have "at_pos q (if m + 1 \<ge> qsize q then m + 1 - qsize q else m + 1) (k + 1)"
        using advance_at_pos [OF inv m, of 1] k(3) by simp
      ultimately show ?thesis using step ne nl True by simp
    next
      case nz: False
      then have ab: "a < b" using d less.prems(3) by (cases "a = b") (auto simp: unat_0_iff)
      show ?thesis
      proof (cases "elem_less R e (?c ! k)")
        case True
        obtain k' where k': "k = Suc k'" using k(4) [OF ab] by (cases k) auto
        have p: "at_pos q (if m \<noteq> 0 then m - 1 else qsize q - 1) k'"
          using prev_at_pos [OF inv] m k' by simp
        have "\<exists>i. bs_loop R q e s (if m \<noteq> 0 then m - 1 else qsize q - 1) = Some (Inr i) \<and>
                at_pos q i (lb_index R ?T ?c)"
          by (rule less.hyps [OF _ less.prems(1) p _ _ less.prems(5)])
            (use k k' ab True cmp in auto)
        then show ?thesis using step ne nz True by simp
      next
        case False
        have "\<exists>i. bs_loop R q e m t = Some (Inr i) \<and> at_pos q i (lb_index R ?T ?c)"
          by (rule less.hyps [OF _ m less.prems(2) _ less.prems(4) _ less.prems(6)])
            (use k ab False not_less_ts in auto)
        then show ?thesis using step ne nz False by simp
      qed
    qed
  qed
qed

text \<open>
  The whole search: \<open>end()\<close> for an empty queue and for a key below the oldest element, and the
  position of the lower bound otherwise (the position after the newest element, which is not
  \<open>good\<close>, when every element is smaller).
\<close>

lemma bs_lower_bound_correct:
  assumes inv: "queue_inv q" and srt: "ts_sorted R (contents q)"
  shows "if contents q = [] \<or> elem_less R e (hd (contents q)) then bs_lower_bound R e we q = Some (Inr end_iter)
         else \<exists>i. bs_lower_bound R e we q = Some (Inr i) \<and>
                  at_pos q i (lb_index R (get_timestamp R e) (contents q))"
proof (cases "contents q = []")
  case True
  then show ?thesis using isEmpty_spec [OF inv] by (simp add: bs_lower_bound_def isEmpty_def)
next
  case ne: False
  let ?b = "if writeIndex q = 0 then qsize q - 1 else writeIndex q - 1"
  have rw: "readIndex q \<noteq> writeIndex q" using ne isEmpty_spec [OF inv] by (auto simp: isEmpty_def)
  have pos: "0 < stored q" using ne by (simp flip: length_contents)
  have f: "at_pos q (readIndex q) 0" using front_q_spec (2) [OF inv ne] by simp
  have b: "at_pos q ?b (stored q - 1)"
    using back_q_spec (2) [OF inv ne] rw by (auto simp: back_q_def Let_def)
  have h: "iter_deref q (readIndex q) = Inr (hd (contents q))"
    using deref_at_pos [OF inv f pos] ne by (simp add: hd_conv_nth)
  show ?thesis
  proof (cases "elem_less R e (hd (contents q))")
    case True
    then show ?thesis using rw h by (simp add: bs_lower_bound_def Let_def)
  next
    case False
    have "\<exists>i. bs_loop R q e (readIndex q) ?b = Some (Inr i) \<and>
            at_pos q i (lb_index R (get_timestamp R e) (contents q))"
      by (rule bs_loop_correct [OF inv srt f b])
        (use pos not_less_ts [OF False] ne in \<open>auto simp: hd_conv_nth\<close>)
    then show ?thesis using rw h ne False by (simp add: bs_lower_bound_def Let_def)
  qed
qed

end

text \<open>
  The assumption of the fixed-rate model: every element spans the same number of ticks, and
  consecutive elements are exactly that far apart (no frame was lost), within 64 bits.
\<close>

definition element_span :: "'a readout_ops \<Rightarrow> 'a list \<Rightarrow> nat" where
  "element_span R xs = unat (expected_tick_difference R) * unat (get_num_frames R (hd xs))"

definition fixed_rate :: "'a readout_ops \<Rightarrow> 'a list \<Rightarrow> bool" where
  "fixed_rate R xs \<longleftrightarrow> xs \<noteq> [] \<and> 0 < element_span R xs \<and>
     unat (get_timestamp R (hd xs)) + length xs * element_span R xs < 2 ^ 64 \<and>
     (\<forall>k < length xs. unat (get_timestamp R (xs ! k)) =
        unat (get_timestamp R (hd xs)) + k * element_span R xs)"

lemma ceil_div_bounds:
  assumes "0 < (p::nat)" and "k = D div p + (if D mod p \<noteq> 0 then 1 else 0)"
  shows "D \<le> k * p" "j < k \<Longrightarrow> j * p < D"
proof -
  have eq: "D = (D div p) * p + D mod p" by simp
  show "D \<le> k * p"
  proof (cases "D mod p = 0")
    case False
    then have "k * p = (D div p) * p + p" using assms(2) by simp
    then show ?thesis using eq mod_less_divisor [OF assms(1), of D] by linarith
  qed (use assms(2) eq in simp)
  assume j: "j < k"
  show "j * p < D"
  proof (cases "D mod p = 0")
    case True
    then have "j * p < (D div p) * p" using j assms by simp
    then show ?thesis using eq True by linarith
  next
    case False
    then have "j * p \<le> (D div p) * p" using j assms by simp
    then show ?thesis using eq False by linarith
  qed
qed

lemma fixed_rate_ts_sorted:
  assumes "fixed_rate R xs"
  shows "ts_sorted R xs"
  using assms by (auto simp: ts_sorted_def sorted_wrt_iff_nth_less fixed_rate_def word_less_nat_alt)

lemma fixed_rate_lb_index:
  assumes fr: "fixed_rate R xs" and lo: "unat (get_timestamp R (hd xs)) \<le> unat T"
    and hi: "unat T \<le> unat (get_timestamp R (hd xs)) + length xs * element_span R xs"
    and D: "D = unat T - unat (get_timestamp R (hd xs))"
    and k: "k = D div element_span R xs + (if D mod element_span R xs \<noteq> 0 then 1 else 0)"
  shows "k \<le> length xs" "lb_index R T xs = k"
proof -
  let ?p = "element_span R xs"
  have p: "0 < ?p" using fr by (simp add: fixed_rate_def)
  note ceil = ceil_div_bounds [OF p k]
  show le: "k \<le> length xs"
  proof (rule ccontr)
    assume "\<not> k \<le> length xs"
    then have "length xs * ?p < D" using ceil(2) by simp
    then show False using hi D by simp
  qed
  show "lb_index R T xs = k"
  proof (rule lb_index_eqI [OF le])
    show "get_timestamp R (xs ! j) < T" if "j < k" for j
      using ceil(2) [OF that] that le fr lo D by (simp add: word_less_nat_alt fixed_rate_def)
    show "T \<le> get_timestamp R (xs ! k)" if "k < length xs"
      using ceil(1) that fr D by (simp add: word_le_nat_alt fixed_rate_def)
  qed
qed

lemma unat_mult_u64: "unat (a::u64) * unat b < 2 ^ 64 \<Longrightarrow> unat (a * b) = unat a * unat b"
  by (simp add: unat_word_ariths(2))

text \<open>The position that is computed depends on the oldest element and on the occupancy only.\<close>

lemma fr_lower_bound_offset:
  assumes inv: "queue_inv q" and ne: "contents q \<noteq> []" and p: "0 < element_span R (contents q)"
    and bound: "unat (get_timestamp R (hd (contents q))) + stored q * element_span R (contents q) < 2 ^ 64"
    and dist: "D = unat (get_timestamp R e) - unat (get_timestamp R (hd (contents q)))"
  shows "if unat (get_timestamp R e) < unat (get_timestamp R (hd (contents q))) \<or>
            unat (get_timestamp R (hd (contents q))) + stored q * element_span R (contents q) < unat (get_timestamp R e)
         then fr_lower_bound R e False q = Some (Inr end_iter)
         else \<exists>i. fr_lower_bound R e False q = Some (Inr i) \<and>
                  at_pos q i (D div element_span R (contents q) + (if D mod element_span R (contents q) \<noteq> 0 then 1 else 0))"
proof -
  let ?c = "contents q" and ?T = "get_timestamp R e"
  let ?h = "hd ?c"
  let ?t0 = "get_timestamp R ?h" and ?n = "get_num_frames R ?h" and ?tick = "expected_tick_difference R"
  let ?p = "element_span R ?c"
  have pos: "0 < stored q" using ne by (simp flip: length_contents)
  have f: "at_pos q (readIndex q) 0" using front_q_spec (2) [OF inv ne] by simp
  have h: "iter_deref q (readIndex q) = Inr ?h"
    using deref_at_pos [OF inv f pos] ne by (simp add: hd_conv_nth)
  note bnd = queue_bounds [OF inv]
  have p_le: "?p \<le> stored q * ?p" using pos by simp
  have "?p < 2 ^ 64" using p_le bound by linarith
  then have tn: "unat (?tick * ?n) = ?p"
    unfolding element_span_def by (rule unat_mult_u64)
  have occ: "unat (occupancy_q q) = stored q"
    using occupancy_q_spec [OF inv] bnd by (simp add: unat_of_nat_u64)
  have onn: "unat (occupancy_q q * ?tick * ?n) = stored q * ?p"
    using unat_mult_u64 [of "occupancy_q q" "?tick * ?n"] occ tn bound by (simp add: mult.assoc)
  have newest: "unat (?t0 + occupancy_q q * ?tick * ?n) = unat ?t0 + stored q * ?p"
    using onn bound by (simp add: unat_plus_if')
  have nz: "?tick \<noteq> 0" "?n \<noteq> 0" "?tick * ?n \<noteq> 0"
    using p tn by (auto simp: element_span_def)
  show ?thesis
  proof (cases "unat ?T < unat ?t0 \<or> unat ?t0 + stored q * ?p < unat ?T")
    case True
    then show ?thesis
      using newest by (simp add: fr_lower_bound_def h Let_def word_less_nat_alt)
  next
    case False
    let ?D = "unat ?T - unat ?t0"
    define k where "k = ?D div ?p + (if ?D mod ?p \<noteq> 0 then 1 else 0)"
    have k: "k \<le> stored q"
    proof (rule ccontr)
      assume "\<not> k \<le> stored q"
      then have "stored q * ?p < ?D" using ceil_div_bounds(2) [OF p k_def] by simp
      then show False using False by linarith
    qed
    define off :: u32 where "off = ucast ((?T - ?t0) div ?tick div ?n)"
    define d where "d = (if (?T - ?t0) mod (?tick * ?n) \<noteq> 0 then off + 1 else off)"
    have D: "unat (?T - ?t0) = ?D" using False by (simp add: unat_sub word_le_nat_alt)
    then have "unat ((?T - ?t0) div ?tick div ?n) = ?D div ?p"
      by (simp add: unat_div_distrib div_mult2_eq element_span_def)
    moreover have "?D div ?p < 2 ^ 31" using k bnd by (simp add: k_def split: if_splits)
    ultimately have off: "unat off = ?D div ?p" by (simp add: off_def unsigned_ucast_eq take_bit_nat_eq_self)
    have m: "(?T - ?t0) mod (?tick * ?n) \<noteq> 0 \<longleftrightarrow> ?D mod ?p \<noteq> 0"
      unfolding tn [symmetric] D [symmetric] unat_mod_distrib [symmetric] unat_eq_zero ..
    have d: "unat d = k"
      using off \<open>?D div ?p < 2 ^ 31\<close> by (auto simp: d_def k_def m unat_plus_one)
    have range: "\<not> (?T < ?t0 \<or> ?t0 + occupancy_q q * ?tick * ?n < ?T)"
      using False newest by (simp only: word_less_nat_alt simp_thms)
    have "fr_lower_bound R e False q =
        Some (Inr (if readIndex q + d \<ge> qsize q then readIndex q + d - qsize q else readIndex q + d))"
      unfolding fr_lower_bound_def Let_def h bindE_Inr d_def off_def if_False
      by (simp only: range nz if_False simp_thms if_distrib [of "(+) (readIndex q)"] add.assoc)
    then show ?thesis
      using False advance_at_pos [OF inv f, of d] d k by (auto simp: k_def dist)
  qed
qed

lemma fr_lower_bound_correct:
  assumes inv: "queue_inv q" and fr: "fixed_rate R (contents q)"
  shows "if unat (get_timestamp R e) < unat (get_timestamp R (hd (contents q))) \<or>
            unat (get_timestamp R (hd (contents q))) + stored q * element_span R (contents q) < unat (get_timestamp R e)
         then fr_lower_bound R e False q = Some (Inr end_iter)
         else \<exists>i. fr_lower_bound R e False q = Some (Inr i) \<and>
                  at_pos q i (lb_index R (get_timestamp R e) (contents q))"
proof -
  have "contents q \<noteq> []" "0 < element_span R (contents q)"
      "unat (get_timestamp R (hd (contents q))) + stored q * element_span R (contents q) < 2 ^ 64"
    using fr by (auto simp: fixed_rate_def)
  note off = fr_lower_bound_offset [OF inv this refl, of e]
    and idx = fixed_rate_lb_index(2) [OF fr _ _ refl refl, of "get_timestamp R e"]
  show ?thesis
  proof (cases "unat (get_timestamp R e) < unat (get_timestamp R (hd (contents q))) \<or>
      unat (get_timestamp R (hd (contents q))) + stored q * element_span R (contents q) < unat (get_timestamp R e)")
    case True
    then show ?thesis using off by (simp only: if_True)
  next
    case False
    with off obtain i where "fr_lower_bound R e False q = Some (Inr i)"
        "at_pos q i (lb_index R (get_timestamp R e) (contents q))"
      using idx by (auto simp only: if_False length_contents not_less de_Morgan_disj)
    then show ?thesis using False by auto
  qed
qed

end
