(* ===== verification/Latency_Buffer.thy ===== *)
theory Latency_Buffer
  imports Queue_Contract Searchable_Queues
begin

text \<open>
  The interface \<open>LatencyBufferConcept\<close> (concepts/LatencyBufferConcept.hpp) together with the
  iterator and search functions its clients call on the concrete buffer type. The C++ clients
  are templates over the buffer type; here they take a record of operations \<open>lb_ops\<close>. What they
  rely on is stated as locales: \<open>latency_buffer\<close> (observers and iterators), \<open>fifo_buffer\<close>
  (writing appends, popping removes the oldest) and \<open>searchable_buffer\<close> (the lower bound).
  Both searchable queue models are shown to provide them.
\<close>

section \<open>Operations\<close>

text \<open>
  \<open>front\<close> and \<open>back\<close> return pointers in the code; here the element behind the pointer, or \<open>None\<close>
  for a null pointer. A search that does not return is \<open>None\<close>.
\<close>

record ('b, 'a, 'i) lb_ops =
  lb_occupancy :: "'b \<Rightarrow> u64"
  lb_write :: "'a \<Rightarrow> 'b \<Rightarrow> fault + (bool \<times> 'b)"
  lb_read :: "'b \<Rightarrow> fault + ('a option \<times> 'b)"
  lb_front :: "'b \<Rightarrow> fault + 'a option"
  lb_back :: "'b \<Rightarrow> fault + 'a option"
  lb_pop :: "nat \<Rightarrow> 'b \<Rightarrow> fault + 'b"
  lb_flush :: "'b \<Rightarrow> fault + 'b"
  lb_lower_bound :: "'a \<Rightarrow> bool \<Rightarrow> 'b \<Rightarrow> (fault + 'i) option"
  lb_begin :: "'b \<Rightarrow> 'i"
  lb_end :: "'b \<Rightarrow> 'i"
  it_good :: "'b \<Rightarrow> 'i \<Rightarrow> bool"
  it_deref :: "'b \<Rightarrow> 'i \<Rightarrow> fault + 'a"
  it_next :: "'b \<Rightarrow> 'i \<Rightarrow> 'i"

text \<open>The operations of \<open>IterableQueueModel\<close>, with a search function.\<close>

definition queue_lb_ops ::
  "('a \<Rightarrow> bool \<Rightarrow> 'a iterable_queue \<Rightarrow> (fault + u32) option) \<Rightarrow> ('a iterable_queue, 'a, u32) lb_ops" where
  "queue_lb_ops search =
     \<lparr>lb_occupancy = occupancy_q, lb_write = write_q, lb_read = read_q,
      lb_front = (\<lambda>q. pointee q (front_q q)), lb_back = (\<lambda>q. pointee q (back_q q)),
      lb_pop = pop_q, lb_flush = flush_q, lb_lower_bound = search,
      lb_begin = begin_iter, lb_end = (\<lambda>_. end_iter),
      it_good = good, it_deref = iter_deref, it_next = iter_next\<rparr>"

definition BinarySearchQueueModel :: "'a readout_ops \<Rightarrow> ('a iterable_queue, 'a, u32) lb_ops" where
  "BinarySearchQueueModel R = queue_lb_ops (bs_lower_bound R)"

definition FixedRateQueueModel :: "'a readout_ops \<Rightarrow> ('a iterable_queue, 'a, u32) lb_ops" where
  "FixedRateQueueModel R = queue_lb_ops (fr_lower_bound R)"

section \<open>Contracts\<close>

text \<open>
  \<open>elements\<close> lists what is stored, oldest first, and \<open>lb_pos b i k\<close> says that iterator \<open>i\<close> stands
  at position \<open>k\<close>, where the position after the last element stands for every iterator that is
  not good.
\<close>

locale latency_buffer =
  fixes L :: "('b, 'a, 'i) lb_ops" and lb_inv :: "'b \<Rightarrow> bool" and elements :: "'b \<Rightarrow> 'a list"
    and lb_pos :: "'b \<Rightarrow> 'i \<Rightarrow> nat \<Rightarrow> bool"
  assumes occupancy_elements: "lb_inv b \<Longrightarrow> unat (lb_occupancy L b) = length (elements b)"
    and front_elements: "lb_inv b \<Longrightarrow>
      lb_front L b = Inr (if elements b = [] then None else Some (hd (elements b)))"
    and back_elements: "lb_inv b \<Longrightarrow>
      lb_back L b = Inr (if elements b = [] then None else Some (last (elements b)))"
    and pos_le: "lb_inv b \<Longrightarrow> lb_pos b i k \<Longrightarrow> k \<le> length (elements b)"
    and good_pos: "lb_inv b \<Longrightarrow> lb_pos b i k \<Longrightarrow> it_good L b i \<longleftrightarrow> k < length (elements b)"
    and deref_pos: "lb_inv b \<Longrightarrow> lb_pos b i k \<Longrightarrow> k < length (elements b) \<Longrightarrow>
      it_deref L b i = Inr (elements b ! k)"
    and next_pos: "lb_inv b \<Longrightarrow> lb_pos b i k \<Longrightarrow> k < length (elements b) \<Longrightarrow>
      lb_pos b (it_next L b i) (k + 1)"

locale fifo_buffer = latency_buffer L lb_inv elements lb_pos
  for L :: "('b, 'a, 'i) lb_ops" and lb_inv elements lb_pos +
  assumes pop_elements: "lb_inv b \<Longrightarrow> n \<le> length (elements b) \<Longrightarrow>
      \<exists>b'. lb_pop L n b = Inr b' \<and> lb_inv b' \<and> elements b' = drop n (elements b)"
    and pop_too_many: "lb_inv b \<Longrightarrow> length (elements b) < n \<Longrightarrow> lb_pop L n b = Inl AssertFailed"
    and write_elements: "lb_inv b \<Longrightarrow>
      \<exists>ok b'. lb_write L x b = Inr (ok, b') \<and> lb_inv b' \<and> elements b' = (if ok then elements b @ [x] else elements b)"
    and flush_elements: "lb_inv b \<Longrightarrow> \<exists>b'. lb_flush L b = Inr b' \<and> lb_inv b' \<and> elements b' = []"

text \<open>
  The search contract: on a buffer that is ready for a search with the given flag, a key that is
  not below the oldest element is found at its lower bound.
\<close>

locale searchable_buffer = latency_buffer L lb_inv elements lb_pos + readout_order R
  for L :: "('b, 'a, 'i) lb_ops" and lb_inv elements lb_pos and R :: "'a readout_ops" +
  fixes search_ready :: "bool \<Rightarrow> 'a list \<Rightarrow> bool"
  assumes ready_sorted: "search_ready we xs \<Longrightarrow> ts_sorted R xs"
    and lower_bound_pos: "lb_inv b \<Longrightarrow> search_ready we (elements b) \<Longrightarrow> elements b \<noteq> [] \<Longrightarrow>
      \<not> elem_less R e (hd (elements b)) \<Longrightarrow>
      \<exists>i. lb_lower_bound L e we b = Some (Inr i) \<and> lb_pos b i (lb_index R (get_timestamp R e) (elements b))"

text \<open>The queue models give up when the key is below the oldest element.\<close>

locale forward_searchable_buffer = searchable_buffer L lb_inv elements lb_pos R search_ready
  for L :: "('b, 'a, 'i) lb_ops" and lb_inv elements lb_pos and R :: "'a readout_ops" and search_ready +
  assumes lower_bound_below: "lb_inv b \<Longrightarrow> search_ready we (elements b) \<Longrightarrow> elements b \<noteq> [] \<Longrightarrow>
      get_timestamp R e < get_timestamp R (hd (elements b)) \<Longrightarrow>
      \<exists>i. lb_lower_bound L e we b = Some (Inr i) \<and> lb_pos b i (length (elements b))"

section \<open>The queue models provide the contracts\<close>

definition queue_pos :: "'a iterable_queue \<Rightarrow> u32 \<Rightarrow> nat \<Rightarrow> bool" where
  "queue_pos q i k \<longleftrightarrow> at_pos q i k \<or> (i = end_iter \<and> k = stored q)"

lemma queue_pos_at: "queue_pos q i k \<Longrightarrow> k < stored q \<Longrightarrow> at_pos q i k"
  by (auto simp: queue_pos_def)

lemma good_end [simp]: "\<not> good q end_iter"
  by (simp add: good_def)

lemma queue_represents: "queue_inv q \<Longrightarrow> represents q (unat (qsize q) - 1) (contents q)"
  using queue_bounds (3) [of q] by (simp add: represents_def)

lemma queue_next_pos:
  "queue_inv q \<Longrightarrow> queue_pos q i k \<Longrightarrow> k < stored q \<Longrightarrow> queue_pos q (iter_next q i) (k + 1)"
  using iter_next_at_pos [of q i k] queue_pos_at [of q i k] by (auto simp: queue_pos_def split: if_splits)

lemma queue_write_elements:
  assumes "queue_inv q"
  shows "\<exists>ok q'. write_q x q = Inr (ok, q') \<and> queue_inv q' \<and> contents q' = (if ok then contents q @ [x] else contents q)"
proof (cases "write_q x q")
  case (Inl f)
  then show ?thesis
    using write_corresponds [OF queue_represents [OF assms], of x] by (simp add: corresponds_def split: if_splits)
next
  case (Inr p)
  then obtain ok q' where "write_q x q = Inr (ok, q')" by (cases p) auto
  then show ?thesis
    using write_corresponds [OF queue_represents [OF assms], of x] by (auto simp: represents_def split: if_splits)
qed

interpretation queue: fifo_buffer "queue_lb_ops search" queue_inv contents queue_pos
proof (unfold_locales, goal_cases)
  case (1 b)
  then show ?case using occupancy_q_spec [of b] by (auto simp: queue_lb_ops_def)
next
  case (2 b)
  then show ?case using pointee_front [OF queue_represents, of b] by (simp add: queue_lb_ops_def)
next
  case (3 b)
  then show ?case using pointee_back [OF queue_represents, of b] by (simp add: queue_lb_ops_def)
next
  case (4 b i k)
  then show ?case by (auto simp: queue_pos_def at_pos_le)
next
  case (5 b i k)
  then show ?case by (auto simp: queue_lb_ops_def queue_pos_def good_at_pos)
next
  case (6 b i k)
  then show ?case using deref_at_pos queue_pos_at by (fastforce simp: queue_lb_ops_def)
next
  case (7 b i k)
  then show ?case using queue_next_pos [of b i k] by (simp add: queue_lb_ops_def)
next
  case (8 b n)
  then show ?case using pop_q_spec [of b n] by (auto simp: queue_lb_ops_def)
next
  case (9 b n)
  then show ?case using pop_q_too_many [of b n] by (simp add: queue_lb_ops_def)
next
  case (10 b x)
  then show ?case using queue_write_elements [of b x] by (simp add: queue_lb_ops_def)
next
  case (11 b)
  then show ?case using flush_q_spec [of b] by (auto simp: queue_lb_ops_def)
qed

text \<open>
  The fixed-rate model is ready for an exact search on fixed-rate contents; with the flag that
  frames are missing it is the binary search, which needs ordered contents only.
\<close>

definition fixed_rate_ready :: "'a readout_ops \<Rightarrow> bool \<Rightarrow> 'a list \<Rightarrow> bool" where
  "fixed_rate_ready R with_errors xs \<longleftrightarrow> (if with_errors then ts_sorted R xs else fixed_rate R xs)"

lemma fixed_rate_beyond:
  assumes fr: "fixed_rate R xs"
    and hi: "unat (get_timestamp R (hd xs)) + length xs * element_span R xs < unat T"
  shows "lb_index R T xs = length xs"
proof (rule lb_index_eqI)
  show "get_timestamp R (xs ! j) < T" if "j < length xs" for j
  proof -
    have "j * element_span R xs \<le> length xs * element_span R xs" using that by simp
    moreover have "unat (get_timestamp R (xs ! j)) = unat (get_timestamp R (hd xs)) + j * element_span R xs"
      using that fr by (simp add: fixed_rate_def)
    ultimately have "unat (get_timestamp R (xs ! j)) < unat T" using hi by linarith
    then show ?thesis by (simp add: word_less_nat_alt)
  qed
qed simp_all

context readout_order
begin

lemma binary_search_provides:
  "forward_searchable_buffer (BinarySearchQueueModel R) queue_inv contents queue_pos R (\<lambda>_. ts_sorted R)"
  unfolding BinarySearchQueueModel_def
proof (unfold_locales, goal_cases)
  case (1 we xs)
  then show ?case .
next
  case (2 b we e)
  then show ?case
    using bs_lower_bound_correct [of b e we]
    by (auto simp: queue_lb_ops_def queue_pos_def)
next
  case (3 b we e)
  then show ?case
    using bs_lower_bound_correct [of b e we] ts_imp_less
    by (auto simp: queue_lb_ops_def queue_pos_def)
qed

lemma fr_lower_bound_pos:
  assumes "queue_inv b" and "fixed_rate_ready R we (contents b)" and "contents b \<noteq> []"
  shows "get_timestamp R e < get_timestamp R (hd (contents b)) \<Longrightarrow>
           \<exists>i. fr_lower_bound R e we b = Some (Inr i) \<and> queue_pos b i (stored b)"
    and "\<not> elem_less R e (hd (contents b)) \<Longrightarrow>
           \<exists>i. fr_lower_bound R e we b = Some (Inr i) \<and> queue_pos b i (lb_index R (get_timestamp R e) (contents b))"
proof -
  have with_errors: "fr_lower_bound R e True b = bs_lower_bound R e True b" by (simp add: fr_lower_bound_def)
  let ?T = "get_timestamp R e" and ?t0 = "get_timestamp R (hd (contents b))"
  show "\<exists>i. fr_lower_bound R e we b = Some (Inr i) \<and> queue_pos b i (stored b)" if "?T < ?t0"
  proof (cases we)
    case True
    then show ?thesis
      using assms that ts_imp_less [OF that] bs_lower_bound_correct [of b e True] with_errors
      by (auto simp: fixed_rate_ready_def queue_pos_def)
  next
    case False
    then show ?thesis
      using assms that fr_lower_bound_correct [of b R e]
      by (auto simp: fixed_rate_ready_def queue_pos_def word_less_nat_alt)
  qed
  show "\<exists>i. fr_lower_bound R e we b = Some (Inr i) \<and> queue_pos b i (lb_index R ?T (contents b))"
    if "\<not> elem_less R e (hd (contents b))"
  proof (cases we)
    case True
    then show ?thesis
      using assms that bs_lower_bound_correct [of b e True] with_errors
      by (auto simp: fixed_rate_ready_def queue_pos_def)
  next
    case False
    then have fr: "fixed_rate R (contents b)" using assms(2) by (simp add: fixed_rate_ready_def)
    show ?thesis
      using fr_lower_bound_correct [OF assms(1) fr, of e] fixed_rate_beyond [OF fr, of ?T] not_less_ts [OF that] False
      by (auto simp: queue_pos_def word_le_nat_alt split: if_splits)
  qed
qed

lemma fixed_rate_provides:
  "forward_searchable_buffer (FixedRateQueueModel R) queue_inv contents queue_pos R (fixed_rate_ready R)"
  unfolding FixedRateQueueModel_def
proof (unfold_locales, goal_cases)
  case (1 we xs)
  then show ?case by (auto simp: fixed_rate_ready_def fixed_rate_ts_sorted split: if_splits)
next
  case (2 b we e)
  then have "get_timestamp R (hd (contents b)) \<le> get_timestamp R e" using not_less_ts by blast
  with 2 show ?case using fr_lower_bound_pos [of b we e] by (auto simp: queue_lb_ops_def not_less)
next
  case (3 b we e)
  then show ?case using fr_lower_bound_pos [of b we e] by (auto simp: queue_lb_ops_def)
qed

end

interpretation dummy_bs: forward_searchable_buffer "BinarySearchQueueModel (dummy_ops tick)" queue_inv contents
  queue_pos "dummy_ops tick" "\<lambda>_. ts_sorted (dummy_ops tick)"
  by (rule dummy.binary_search_provides)

interpretation dummy_fr: forward_searchable_buffer "FixedRateQueueModel (dummy_ops tick)" queue_inv contents
  queue_pos "dummy_ops tick" "fixed_rate_ready (dummy_ops tick)"
  by (rule dummy.fixed_rate_provides)

section \<open>Properties of the searches\<close>

text \<open>
  C16. \<open>BinarySearchQueueModel::lower_bound\<close> terminates and is a lower bound: on a well-formed queue
  whose timestamps increase, for a key that is not below the oldest element, the loop returns an
  iterator at the first element whose timestamp is not below the key's; when every element is
  below the key, the iterator is one past the newest element and is not good. On an empty queue
  and for a key below the oldest element it returns \<open>end()\<close>.
\<close>

theorem binary_search_lower_bound:
  fixes e :: 'a
  assumes "readout_order R" and "queue_inv q" and "ts_sorted R (contents q)"
  defines "k \<equiv> lb_index R (get_timestamp R e) (contents q)"
  shows "if contents q = [] \<or> elem_less R e (hd (contents q)) then bs_lower_bound R e we q = Some (Inr end_iter)
         else \<exists>i. bs_lower_bound R e we q = Some (Inr i) \<and> good q i = (k < length (contents q)) \<and>
                  (k < length (contents q) \<longrightarrow> iter_deref q i = Inr (contents q ! k))"
  using readout_order.bs_lower_bound_correct [OF assms(1,2,3), of e we] good_at_pos [OF assms(2)]
    deref_at_pos [OF assms(2)]
  unfolding k_def by (auto split: if_splits)

text \<open>A queue of eight slots with four dummy frames 16 ticks apart that wrap around.\<close>

definition frame_at :: "u64 \<Rightarrow> dummy_frame" where
  "frame_at t = \<lparr>timestamp = t, another_key = 0, frame_data = []\<rparr>"

definition frames_queue :: "dummy_frame iterable_queue" where
  "frames_queue = (default_queue plain_env)
     \<lparr>qsize := 8, records := Region StdMalloc
        [Some (frame_at 132), Some (frame_at 148), None, None, None, None, Some (frame_at 100), Some (frame_at 116)],
      readIndex := 6, writeIndex := 2\<rparr>"

lemma frames_queue_inv: "queue_inv frames_queue"
  by (simp add: queue_inv_def frames_queue_def default_queue_def stored_def ring_slot_def upt_rec)

lemma frames_queue_contents: "contents frames_queue = map frame_at [100, 116, 132, 148]"
  by (simp add: contents_def frames_queue_def default_queue_def stored_def ring_slot_def upt_rec)

lemma frame_at_timestamp [simp]: "timestamp (frame_at t) = t" "another_key (frame_at t) = 0"
  by (simp_all add: frame_at_def)

lemma frames_fixed_rate: "fixed_rate (dummy_ops 16) (contents frames_queue)"
  by (auto simp: frames_queue_contents fixed_rate_def element_span_def nth_Cons' less_Suc_eq)

lemma frames_ts_sorted: "ts_sorted (dummy_ops 16) (contents frames_queue)"
  by (rule fixed_rate_ts_sorted [OF frames_fixed_rate])

theorem binary_search_lower_bound_witness:
  "\<exists>i. bs_lower_bound (dummy_ops 16) (frame_at 120) False frames_queue = Some (Inr i) \<and>
       iter_deref frames_queue i = Inr (frame_at 132)"
  using binary_search_lower_bound [OF dummy.readout_order_axioms frames_queue_inv frames_ts_sorted,
      of "frame_at 120" False]
  by (simp add: frames_queue_contents lb_index_def dummy_less_def) blast

text \<open>
  C23. On fixed-rate contents (elements of equal span, consecutive, within 64 bits)
  \<open>FixedRateQueueModel::lower_bound\<close>, which computes the position from the distance to the oldest
  timestamp, agrees with the binary search of the same queue for every key but one kind: either both
  iterators are good and refer to the same element, or neither is good. The exception is a key with
  the timestamp of the oldest element that is ordered before it (by a further member, as
  \<open>another_key\<close> of the test's frame): the binary search compares whole elements and answers \<open>end()\<close>,
  the computed position looks at the timestamp only and refers to the oldest element.
\<close>

theorem fixed_rate_agrees_with_binary_search:
  assumes "readout_order R" and inv: "queue_inv q" and fr: "fixed_rate R (contents q)"
  shows "\<exists>i j. fr_lower_bound R e False q = Some (Inr i) \<and> bs_lower_bound R e False q = Some (Inr j) \<and>
           (if elem_less R e (hd (contents q)) \<and> get_timestamp R e = get_timestamp R (hd (contents q))
            then good q i \<and> iter_deref q i = Inr (hd (contents q)) \<and> j = end_iter
            else good q i = good q j \<and> (good q i \<longrightarrow> iter_deref q i = iter_deref q j))"
proof -
  let ?T = "get_timestamp R e" and ?t0 = "get_timestamp R (hd (contents q))"
  let ?k = "lb_index R ?T (contents q)"
  have ne: "contents q \<noteq> []" and ready: "fixed_rate_ready R False (contents q)"
    using fr by (simp_all add: fixed_rate_def fixed_rate_ready_def)
  note pos = readout_order.fr_lower_bound_pos [OF assms(1) inv ready ne]
    and bs = readout_order.bs_lower_bound_correct [OF assms(1) inv fixed_rate_ts_sorted [OF fr], of e False]
  consider (below) "?T < ?t0" | (tie) "elem_less R e (hd (contents q))" "?T = ?t0"
    | (found) "\<not> elem_less R e (hd (contents q))"
    using readout_order.less_iff_ts [OF assms(1)] by blast
  then show ?thesis
  proof cases
    case below
    then show ?thesis
      using pos(1) [OF below] bs readout_order.ts_imp_less [OF assms(1) below] good_at_pos [OF inv]
      by (auto simp: queue_pos_def)
  next
    case tie
    have "\<not> (unat ?T < unat ?t0 \<or> unat ?t0 + stored q * element_span R (contents q) < unat ?T)" using tie(2) by simp
    then obtain i where i: "fr_lower_bound R e False q = Some (Inr i)" "at_pos q i ?k"
      using fr_lower_bound_correct [OF inv fr, of e] by auto
    have k: "?k = 0" by (rule lb_index_eqI) (use tie(2) ne in \<open>simp_all add: hd_conv_nth\<close>)
    have "0 < stored q" using ne by (simp flip: length_contents)
    then have "good q i" "iter_deref q i = Inr (hd (contents q))"
      using i(2) good_at_pos [OF inv i(2)] deref_at_pos [OF inv i(2)] ne by (simp_all add: k hd_conv_nth)
    then show ?thesis using i(1) bs tie by simp
  next
    case found
    obtain i where i: "fr_lower_bound R e False q = Some (Inr i)" "queue_pos q i ?k" using pos(2) [OF found] by blast
    obtain j where j: "bs_lower_bound R e False q = Some (Inr j)" "at_pos q j ?k" using bs ne found by auto
    have g: "good q i \<longleftrightarrow> ?k < stored q" "good q j \<longleftrightarrow> ?k < stored q"
      using i(2) j(2) good_at_pos [OF inv] by (auto simp: queue_pos_def)
    then show ?thesis
      using i j found deref_at_pos [OF inv] queue_pos_at [OF i(2)] by auto
  qed
qed

text \<open>The same queue with a further key in its frames, to search for a key that precedes them.\<close>

definition keyed_queue :: "dummy_frame iterable_queue" where
  "keyed_queue = frames_queue\<lparr>records := Region StdMalloc
     [None, None, None, None, None, None, Some ((frame_at 100)\<lparr>another_key := 1\<rparr>), Some ((frame_at 116)\<lparr>another_key := 1\<rparr>)],
     writeIndex := 0\<rparr>"

lemma keyed_queue_inv: "queue_inv keyed_queue"
  by (simp add: queue_inv_def keyed_queue_def frames_queue_def default_queue_def stored_def ring_slot_def upt_rec)

lemma keyed_queue_contents:
  "contents keyed_queue = [(frame_at 100)\<lparr>another_key := 1\<rparr>, (frame_at 116)\<lparr>another_key := 1\<rparr>]"
  by (simp add: contents_def keyed_queue_def frames_queue_def default_queue_def stored_def ring_slot_def upt_rec)

lemma keyed_fixed_rate: "fixed_rate (dummy_ops 16) (contents keyed_queue)"
  by (auto simp: keyed_queue_contents fixed_rate_def element_span_def nth_Cons' less_Suc_eq)

theorem fixed_rate_agrees_with_binary_search_witness:
  "(\<exists>i j. fr_lower_bound (dummy_ops 16) (frame_at 120) False frames_queue = Some (Inr i) \<and>
          bs_lower_bound (dummy_ops 16) (frame_at 120) False frames_queue = Some (Inr j) \<and>
          good frames_queue i = good frames_queue j) \<and>
   (\<exists>i. fr_lower_bound (dummy_ops 16) (frame_at 100) False keyed_queue = Some (Inr i) \<and> good keyed_queue i \<and>
        bs_lower_bound (dummy_ops 16) (frame_at 100) False keyed_queue = Some (Inr end_iter))"
  using fixed_rate_agrees_with_binary_search [OF dummy.readout_order_axioms frames_queue_inv frames_fixed_rate,
      of "frame_at 120"]
    fixed_rate_agrees_with_binary_search [OF dummy.readout_order_axioms keyed_queue_inv keyed_fixed_rate,
      of "frame_at 100"]
  by (auto simp: frames_queue_contents keyed_queue_contents dummy_less_def)

end
