(* ===== verification/Frame_Error_Registry.thy ===== *)
theory Frame_Error_Registry
  imports Prelude "HOL-Library.Char_ord" "HOL-Library.List_Lexorder"
begin

text \<open>
  The registry of data errors (FrameErrorRegistry.hpp): a map from error names to the interval of
  timestamps in which the error was last seen. The request handler asks it before it searches
  and removes intervals that ended before the oldest element when it cleans up. A \<open>std::map\<close> is
  the list of its entries in the order of the keys.
\<close>

section \<open>State and operations\<close>

record ErrorInterval =
  start_ts :: u64
  end_ts :: u64

definition interval_less :: "ErrorInterval \<Rightarrow> ErrorInterval \<Rightarrow> bool" where
  "interval_less x other \<longleftrightarrow> end_ts x < end_ts other"

definition interval_greater :: "ErrorInterval \<Rightarrow> ErrorInterval \<Rightarrow> bool" where
  "interval_greater x other \<longleftrightarrow> end_ts x > end_ts other"

type_synonym error_map = "(string \<times> ErrorInterval) list"

text \<open>\<open>std::map\<close>: erasing a key, and inserting a pair, which does nothing if the key is present.\<close>

definition map_erase :: "string \<Rightarrow> error_map \<Rightarrow> error_map" where
  "map_erase k m = filter (\<lambda>p. fst p \<noteq> k) m"

definition map_insert :: "string \<times> ErrorInterval \<Rightarrow> error_map \<Rightarrow> error_map" where
  "map_insert p m = (if map_of m (fst p) = None then insort_key fst p m else m)"

definition empty_registry :: error_map where
  "empty_registry = []"

definition add_error :: "string \<Rightarrow> ErrorInterval \<Rightarrow> error_map \<Rightarrow> error_map" where
  "add_error error_name error m = map_insert (error_name, error) (map_erase error_name m)"

fun remove_errors_until :: "u64 \<Rightarrow> error_map \<Rightarrow> error_map" where
  "remove_errors_until ts [] = []"
| "remove_errors_until ts (it # rest) =
     (if ts > end_ts (snd it) then remove_errors_until ts rest else it # remove_errors_until ts rest)"

definition has_error :: "string \<Rightarrow> error_map \<Rightarrow> bool" where
  "has_error error_name m \<longleftrightarrow> map_of m error_name \<noteq> None"

definition has_any_error :: "error_map \<Rightarrow> bool" where
  "has_any_error m \<longleftrightarrow> m \<noteq> []"

section \<open>Representation invariant\<close>

definition registry_inv :: "error_map \<Rightarrow> bool" where
  "registry_inv m \<longleftrightarrow> sorted (map fst m) \<and> distinct (map fst m)"

lemma remove_errors_until_filter: "remove_errors_until ts m = filter (\<lambda>p. ts \<le> end_ts (snd p)) m"
  by (induction m) auto

lemma map_erase_keys: "k \<notin> fst ` set (map_erase k m)"
  by (auto simp: map_erase_def)

lemma registry_inv_filter: "registry_inv m \<Longrightarrow> registry_inv (filter P m)"
  by (simp add: registry_inv_def sorted_filter distinct_map_filter)

lemma map_of_filter_keys:
  "distinct (map fst m) \<Longrightarrow>
   map_of (filter P m) k = (case map_of m k of None \<Rightarrow> None | Some v \<Rightarrow> if P (k, v) then Some v else None)"
proof (induction m)
  case (Cons p m)
  have "map_of (filter P m) (fst p) = None"
    using Cons.prems by (auto simp: map_of_eq_None_iff image_iff)
  then show ?case using Cons by (cases p) (auto split: option.splits)
qed simp

lemma map_of_insort_key:
  "map_of m (fst p) = None \<Longrightarrow> map_of (insort_key fst p m) k = (if k = fst p then Some (snd p) else map_of m k)"
  by (induction m) (auto split: if_splits)

lemma distinct_insort_keys: "fst p \<notin> fst ` set m \<Longrightarrow> distinct (map fst m) \<Longrightarrow> distinct (map fst (insort_key fst p m))"
  by (induction m) (auto simp: set_insort_key)

lemma add_error_inv: "registry_inv m \<Longrightarrow> registry_inv (add_error n e m)"
  using registry_inv_filter [of m "\<lambda>p. fst p \<noteq> n"] map_erase_keys [of n m]
  by (auto simp: add_error_def map_insert_def registry_inv_def map_erase_def sorted_insort_key
      intro!: distinct_insort_keys split: if_splits)

lemma remove_errors_until_inv: "registry_inv m \<Longrightarrow> registry_inv (remove_errors_until ts m)"
  by (simp add: remove_errors_until_filter registry_inv_filter)

section \<open>Refinement to a map\<close>

lemma lookup_add_error: "registry_inv m \<Longrightarrow> map_of (add_error n e m) = (map_of m)(n \<mapsto> e)"
proof (rule ext)
  fix k
  assume "registry_inv m"
  then have "map_of (map_erase n m) k = (if k = n then None else map_of m k)" for k
    by (simp add: map_erase_def registry_inv_def map_of_filter_keys split: option.splits)
  then show "map_of (add_error n e m) k = ((map_of m)(n \<mapsto> e)) k"
    by (simp add: add_error_def map_insert_def map_of_insort_key)
qed

lemma lookup_remove_errors_until:
  "registry_inv m \<Longrightarrow>
   map_of (remove_errors_until ts m) n =
     (case map_of m n of None \<Rightarrow> None | Some e \<Rightarrow> if ts \<le> end_ts e then Some e else None)"
  by (simp add: remove_errors_until_filter registry_inv_def map_of_filter_keys split: option.splits)

text \<open>A sequence of updates, the way the processing and the cleanup issue them.\<close>

datatype registry_op = AddError string ErrorInterval | RemoveUntil u64

fun registry_step :: "registry_op \<Rightarrow> error_map \<Rightarrow> error_map" where
  "registry_step (AddError n e) m = add_error n e m"
| "registry_step (RemoveUntil ts) m = remove_errors_until ts m"

fun map_step :: "registry_op \<Rightarrow> (string \<Rightarrow> ErrorInterval option) \<Rightarrow> (string \<Rightarrow> ErrorInterval option)" where
  "map_step (AddError n e) f = f(n \<mapsto> e)"
| "map_step (RemoveUntil ts) f = (\<lambda>n. case f n of None \<Rightarrow> None | Some e \<Rightarrow> if end_ts e < ts then None else Some e)"

lemma registry_step_refines:
  "registry_inv m \<Longrightarrow> registry_inv (registry_step op m) \<and> map_of (registry_step op m) = map_step op (map_of m)"
  by (cases op) (auto simp: add_error_inv lookup_add_error remove_errors_until_inv lookup_remove_errors_until
      not_less split: option.splits intro!: ext)

text \<open>
  C27. From the empty registry, after any sequence of \<open>add_error\<close> and \<open>remove_errors_until\<close>, the
  registry holds for each name exactly the interval last added that no later removal passed:
  \<open>has_error(name)\<close> and \<open>has_error()\<close> answer as the abstract map from names to intervals does,
  and the entries stay ordered with one entry per name.
\<close>

theorem registry_refines_map:
  "let m = fold registry_step ops empty_registry; f = fold map_step ops Map.empty
   in registry_inv m \<and> map_of m = f \<and> has_error n m = (f n \<noteq> None) \<and> has_any_error m = (f \<noteq> Map.empty)"
proof -
  have "registry_inv m \<Longrightarrow> registry_inv (fold registry_step ops m) \<and>
      map_of (fold registry_step ops m) = fold map_step ops (map_of m)" for m
    by (induction ops arbitrary: m) (auto simp: registry_step_refines)
  from this [of empty_registry] have
    "registry_inv (fold registry_step ops empty_registry)"
    "map_of (fold registry_step ops empty_registry) = fold map_step ops Map.empty"
    by (simp_all add: empty_registry_def registry_inv_def)
  then show ?thesis
    by (auto simp: has_error_def has_any_error_def Let_def)
qed

end
