(* ===== verification/Float32.thy ===== *)
theory Float32
  imports Prelude
begin

text \<open>
  The single-precision arithmetic of the request handler: it scales buffer sizes by configured
  percentages in \<open>float\<close> and truncates the result to an unsigned integer. A finite value is a
  numerator over a power of two; every operation rounds to 24 significant bits, ties to even.
  The values that occur (products and differences of a percentage and a 64-bit count) neither
  overflow nor fall below the smallest exponent, so exponents are unbounded here.
\<close>

section \<open>Rounding\<close>

fun bit_len :: "nat \<Rightarrow> nat" where
  "bit_len n = (if n = 0 then 0 else Suc (bit_len (n div 2)))"

declare bit_len.simps [simp del]

text \<open>Rounding to a multiple of \<open>2 ^ k\<close>, ties to the even multiple.\<close>

definition round_even :: "nat \<Rightarrow> nat \<Rightarrow> nat" where
  "round_even k n =
     (let q = n div 2 ^ k; r = n mod 2 ^ k
      in (if 2 * r < 2 ^ k \<or> (2 * r = 2 ^ k \<and> even q) then q else q + 1) * 2 ^ k)"

definition round24 :: "nat \<Rightarrow> nat" where
  "round24 n = round_even (bit_len n - 24) n"

record float32 =
  numerator :: int
  scale :: nat

definition float_of_nat :: "nat \<Rightarrow> float32" where
  "float_of_nat n = \<lparr>numerator = int (round24 n), scale = 0\<rparr>"

definition float_round :: "int \<Rightarrow> nat \<Rightarrow> float32" where
  "float_round m s = \<lparr>numerator = sgn m * int (round24 (nat \<bar>m\<bar>)), scale = s\<rparr>"

definition float_mult :: "float32 \<Rightarrow> float32 \<Rightarrow> float32" where
  "float_mult x y = float_round (numerator x * numerator y) (scale x + scale y)"

definition float_minus :: "float32 \<Rightarrow> float32 \<Rightarrow> float32" where
  "float_minus x y = float_round (numerator x * 2 ^ scale y - numerator y * 2 ^ scale x) (scale x + scale y)"

definition float_negative :: "float32 \<Rightarrow> bool" where
  "float_negative x \<longleftrightarrow> numerator x < 0"

definition float_above_one :: "float32 \<Rightarrow> bool" where
  "float_above_one x \<longleftrightarrow> numerator x > 2 ^ scale x"

text \<open>
  Conversion to an unsigned integer drops the fraction. A value the target type cannot hold has no
  meaning in C++; the callers' words keep its low bits.
\<close>

definition float_trunc :: "float32 \<Rightarrow> nat" where
  "float_trunc x = nat (numerator x div 2 ^ scale x)"

section \<open>Properties of rounding\<close>

lemma bit_len_le_iff: "bit_len n \<le> k \<longleftrightarrow> n < 2 ^ k"
proof (induction n arbitrary: k rule: bit_len.induct)
  case (1 n)
  show ?case
  proof (cases "n = 0")
    case False
    show ?thesis
    proof (cases k)
      case (Suc j)
      have "n < 2 ^ k \<longleftrightarrow> n div 2 < 2 ^ j" using Suc by auto
      then show ?thesis using 1 [OF False, of j] False Suc by (simp add: bit_len.simps [of n])
    qed (use False in \<open>simp add: bit_len.simps [of n]\<close>)
  qed (simp add: bit_len.simps)
qed

lemma bit_len_lower: "24 < bit_len n \<Longrightarrow> 2 ^ (bit_len n - 24 + 23) \<le> n"
  using bit_len_le_iff [of n "bit_len n - 24 + 23"] by (simp add: not_less [symmetric])

lemma round24_small: "n < 2 ^ 24 \<Longrightarrow> round24 n = n"
  using bit_len_le_iff [of n 24] by (simp add: round24_def round_even_def)

text \<open>Rounding never passes a value of at most 24 significant bits.\<close>

lemma scale_divides:
  assumes "(c::nat) < 2 ^ 24" and "2 ^ (k + 23) \<le> c * 2 ^ s"
  shows "(2::nat) ^ k dvd c * 2 ^ s"
proof (rule ccontr)
  assume "\<not> 2 ^ k dvd c * 2 ^ s"
  then have "s < k" by (meson dvd_mult le_imp_power_dvd not_less)
  then have "(2::nat) ^ s \<le> 2 ^ (k - 1)" by (intro power_increasing) auto
  then have "c * 2 ^ s < 2 ^ 24 * 2 ^ (k - 1)"
    using assms(1) by (intro mult_less_le_imp_less) auto
  also have "\<dots> = 2 ^ (k + 23)" using \<open>s < k\<close> by (subst power_add [symmetric]) (rule arg_cong [of _ _ "power 2"], simp)
  finally show False using assms(2) by simp
qed

lemma round_even_le_multiple:
  assumes "n \<le> N" and "2 ^ k dvd N"
  shows "round_even k n \<le> N"
proof -
  obtain d where d: "N = d * 2 ^ k" using assms(2) by (auto simp: dvd_def mult.commute)
  let ?q = "n div 2 ^ k" and ?r = "n mod 2 ^ k"
  have n: "n = ?q * 2 ^ k + ?r" by (rule div_mult_mod_eq [symmetric])
  have "?q \<le> d" using div_le_mono [OF assms(1), of "2 ^ k"] d by simp
  moreover have "?r \<noteq> 0 \<Longrightarrow> ?q < d"
    using n assms(1) d \<open>?q \<le> d\<close> by (metis add_le_same_cancel1 le_antisym le_neq_implies_less not_less_zero not_gr_zero)
  ultimately have "(if 2 * ?r < 2 ^ k \<or> 2 * ?r = 2 ^ k \<and> even ?q then ?q else ?q + 1) \<le> d"
    by (cases "?r = 0") auto
  then show ?thesis unfolding round_even_def Let_def d by (rule mult_le_mono1)
qed

lemma round24_le:
  assumes "n \<le> c * 2 ^ s" and "c < 2 ^ 24"
  shows "round24 n \<le> c * 2 ^ s"
proof (cases "bit_len n \<le> 24")
  case True
  then show ?thesis using assms(1) round24_small bit_len_le_iff [of n 24] by simp
next
  case False
  then have "2 ^ (bit_len n - 24 + 23) \<le> c * 2 ^ s"
    using bit_len_lower [of n] assms(1) by simp
  then show ?thesis
    unfolding round24_def by (intro round_even_le_multiple assms(1) scale_divides assms(2))
qed

text \<open>
  A fraction below one of a count of at most 24 bits, computed in \<open>float\<close>, stays below the
  count: rounding up to the count would need the fraction to be closer to one than any
  \<open>float\<close> below one is.
\<close>

lemma round_even_reaches:
  assumes "round_even k n = N" and "n < N" and "0 < k"
  shows "2 * (N - n) \<le> 2 ^ k"
proof -
  let ?q = "n div 2 ^ k" and ?r = "n mod 2 ^ k"
  have n: "n = ?q * 2 ^ k + ?r" by (rule div_mult_mod_eq [symmetric])
  have "\<not> (2 * ?r < 2 ^ k \<or> 2 * ?r = 2 ^ k \<and> even ?q)"
  proof
    assume "2 * ?r < 2 ^ k \<or> 2 * ?r = 2 ^ k \<and> even ?q"
    then have "N = ?q * 2 ^ k" using assms(1) by (auto simp: round_even_def Let_def)
    then show False using n assms(2) by linarith
  qed
  then have "N = ?q * 2 ^ k + 2 ^ k" "2 ^ k \<le> 2 * ?r"
    using assms(1) by (auto simp: round_even_def Let_def)
  then show ?thesis using n by linarith
qed

lemma round24_fraction_less:
  assumes "p < 2 ^ s" and "p < 2 ^ 24" and "c < 2 ^ 24" and "0 < c"
  shows "round24 (p * c) < c * 2 ^ s"
proof -
  let ?n = "p * c"
  have lt: "?n < c * 2 ^ s" using assms(1,4) by simp
  have "round24 ?n \<noteq> c * 2 ^ s"
  proof (cases "bit_len ?n \<le> 24")
    case True
    then show ?thesis using lt round24_small bit_len_le_iff [of ?n 24] by simp
  next
    case False
    let ?k = "bit_len ?n - 24"
    show ?thesis
    proof
      assume "round24 ?n = c * 2 ^ s"
      then have gap: "2 * (c * 2 ^ s - ?n) \<le> 2 ^ ?k"
        using round_even_reaches [of ?k ?n] lt False by (simp add: round24_def)
      have "p + 1 \<le> 2 ^ s" using assms(1) by simp
      then have "(p + 1) * c \<le> 2 ^ s * c" by (rule mult_le_mono1)
      then have "c \<le> c * 2 ^ s - ?n" by (simp add: algebra_simps)
      then have "2 * c \<le> 2 ^ ?k" using gap by linarith
      then have "p * (2 * c) < 2 ^ 24 * 2 ^ ?k" using assms(2,4) by (intro mult_less_le_imp_less) auto
      moreover have "2 ^ (?k + 23) \<le> ?n" using bit_len_lower [of ?n] False by simp
      then have "2 * 2 ^ (?k + 23) \<le> p * (2 * c)" by simp
      moreover have "(2::nat) * 2 ^ (?k + 23) = 2 ^ 24 * 2 ^ ?k" by (simp add: power_add)
      ultimately show False by linarith
    qed
  qed
  moreover have "round24 ?n \<le> c * 2 ^ s" using round24_le lt assms(3) by simp
  ultimately show ?thesis by simp
qed

section \<open>Fractions of a count\<close>

text \<open>A percentage the handler accepts, as a \<open>float\<close> between 0 and 1.\<close>

definition is_fraction :: "float32 \<Rightarrow> bool" where
  "is_fraction x \<longleftrightarrow> 0 \<le> numerator x \<and> numerator x < 2 ^ 24 \<and> numerator x \<le> 2 ^ scale x"

lemma fraction_range: "is_fraction x \<Longrightarrow> \<not> float_negative x \<and> \<not> float_above_one x"
  by (simp add: is_fraction_def float_negative_def float_above_one_def)

definition scaled_count :: "float32 \<Rightarrow> nat \<Rightarrow> nat" where
  "scaled_count x n = float_trunc (float_mult x (float_of_nat n))"

lemma scaled_count_eq:
  assumes "0 \<le> numerator x"
  shows "scaled_count x n = round24 (nat (numerator x) * round24 n) div 2 ^ scale x"
proof -
  have "numerator x * int (round24 n) = int (nat (numerator x) * round24 n)" using assms by simp
  then show ?thesis
    by (simp add: scaled_count_def float_mult_def float_of_nat_def float_round_def float_trunc_def
        nat_div_distrib nat_power_eq sgn_if round24_small del: of_nat_mult)
qed

lemma scaled_count_le:
  assumes "is_fraction x" and "n < 2 ^ 24"
  shows "scaled_count x n \<le> n"
proof -
  let ?p = "nat (numerator x)"
  have p: "0 \<le> numerator x" "?p \<le> 2 ^ scale x" using assms(1) by (auto simp: is_fraction_def nat_le_iff)
  have "?p * n \<le> n * 2 ^ scale x" using p(2) by simp
  from round24_le [OF this assms(2)] show ?thesis
    using div_le_mono [of _ "n * 2 ^ scale x" "2 ^ scale x"] by (simp add: scaled_count_eq [OF p(1)] round24_small [OF assms(2)])
qed

lemma scaled_count_less:
  assumes "is_fraction x" and "numerator x \<noteq> 2 ^ scale x" and "n < 2 ^ 24" and "0 < n"
  shows "scaled_count x n < n"
proof -
  let ?p = "nat (numerator x)"
  have p: "0 \<le> numerator x" "?p < 2 ^ scale x" "?p < 2 ^ 24"
    using assms(1,2) by (auto simp: is_fraction_def nat_less_iff)
  have "round24 (?p * n) < n * 2 ^ scale x" by (rule round24_fraction_less [OF p(2,3) assms(3,4)])
  then show ?thesis
    by (simp add: scaled_count_eq [OF p(1)] round24_small [OF assms(3)] div_less_iff_less_mult)
qed

text \<open>Rounding is monotone, so a percentage of more is not less.\<close>

lemma round_even_mono: "n \<le> m \<Longrightarrow> round_even k n \<le> round_even k m"
proof -
  assume le: "n \<le> m"
  let ?q = "n div 2 ^ k" and ?q' = "m div 2 ^ k"
  have "?q \<le> ?q'" using le by (rule div_le_mono)
  then consider "?q + 1 \<le> ?q'" | "?q = ?q'" by linarith
  then have "(if 2 * (n mod 2 ^ k) < 2 ^ k \<or> 2 * (n mod 2 ^ k) = 2 ^ k \<and> even ?q then ?q else ?q + 1) \<le>
      (if 2 * (m mod 2 ^ k) < 2 ^ k \<or> 2 * (m mod 2 ^ k) = 2 ^ k \<and> even ?q' then ?q' else ?q' + 1)"
  proof cases
    case 2
    have "n = ?q * 2 ^ k + n mod 2 ^ k" "m = ?q' * 2 ^ k + m mod 2 ^ k" by (rule div_mult_mod_eq [symmetric])+
    then have "n mod 2 ^ k \<le> m mod 2 ^ k" using le 2 by simp
    then show ?thesis using 2 by auto
  qed simp
  then show ?thesis unfolding round_even_def Let_def by (rule mult_le_mono1)
qed

lemma round_even_ge_multiple:
  assumes "N \<le> n" and "2 ^ k dvd N"
  shows "N \<le> round_even k n"
proof -
  obtain d where d: "N = d * 2 ^ k" using assms(2) by (auto simp: dvd_def mult.commute)
  have "d \<le> n div 2 ^ k" using div_le_mono [OF assms(1), of "2 ^ k"] d by simp
  then show ?thesis unfolding round_even_def Let_def d by (intro mult_le_mono1) simp
qed

lemma round24_mono:
  assumes "n \<le> m"
  shows "round24 n \<le> round24 m"
proof (cases "bit_len n = bit_len m")
  case True
  then show ?thesis using round_even_mono [OF assms] by (simp add: round24_def)
next
  case False
  have "bit_len n \<le> bit_len m" using bit_len_le_iff [of n "bit_len m"] bit_len_le_iff [of m "bit_len m"] assms by simp
  then have less: "bit_len n < bit_len m" using False by simp
  then have m: "2 ^ bit_len n \<le> m" using bit_len_le_iff [of m "bit_len n"] by (simp add: not_le [symmetric])
  have "n \<le> 1 * 2 ^ bit_len n" using bit_len_le_iff [of n "bit_len n"] by simp
  from round24_le [OF this] have "round24 n \<le> 2 ^ bit_len n" by simp
  also have "\<dots> \<le> round24 m"
  proof (cases "bit_len m - 24 \<le> bit_len n")
    case True
    then show ?thesis unfolding round24_def by (intro round_even_ge_multiple [OF m] le_imp_power_dvd)
  next
    case False
    have "(2::nat) ^ bit_len n \<le> 2 ^ (bit_len m - 24)" using False by (intro power_increasing) auto
    also have "\<dots> \<le> round24 m" unfolding round24_def
    proof (rule round_even_ge_multiple)
      have "(2::nat) ^ (bit_len m - 24) \<le> 2 ^ (bit_len m - 24 + 23)" by (intro power_increasing) auto
      also have "\<dots> \<le> m" using False by (intro bit_len_lower) simp
      finally show "2 ^ (bit_len m - 24) \<le> m" .
    qed simp
    finally show ?thesis .
  qed
  finally show ?thesis .
qed

lemma scaled_count_mono: "0 \<le> numerator x \<Longrightarrow> n \<le> m \<Longrightarrow> scaled_count x n \<le> scaled_count x m"
  by (simp add: scaled_count_eq div_le_mono round24_mono)

section \<open>Quotients\<close>

text \<open>
  Division keeps 24 bits and more of the quotient and, in the last place, whether a rest is left, and
  rounds that; the divisor is not zero. Floor and ceiling of a \<open>float\<close> are \<open>float\<close>s.
\<close>

definition float_div :: "float32 \<Rightarrow> float32 \<Rightarrow> float32" where
  "float_div x y =
     (let a = numerator x * 2 ^ scale y; b = numerator y * 2 ^ scale x;
          d = nat \<bar>b\<bar>; k = bit_len d + 25; n = nat \<bar>a\<bar> * 2 ^ k
      in float_round (sgn a * sgn b * int (2 * (n div d) + (if n mod d = 0 then 0 else 1))) (k + 1))"

definition float_floor :: "float32 \<Rightarrow> float32" where
  "float_floor x = \<lparr>numerator = numerator x div 2 ^ scale x, scale = 0\<rparr>"

definition float_ceil :: "float32 \<Rightarrow> float32" where
  "float_ceil x = \<lparr>numerator = - (- numerator x div 2 ^ scale x), scale = 0\<rparr>"

lemma round_even_error:
  "2 * round_even k n \<le> 2 * n + 2 ^ k" "2 * n \<le> 2 * round_even k n + 2 ^ k"
proof -
  let ?q = "n div 2 ^ k" and ?r = "n mod 2 ^ k"
  have n: "n = ?q * 2 ^ k + ?r" by (rule div_mult_mod_eq [symmetric])
  have r: "?r < 2 ^ k" by simp
  have "round_even k n = ?q * 2 ^ k \<and> 2 * ?r \<le> 2 ^ k \<or> round_even k n = ?q * 2 ^ k + 2 ^ k \<and> 2 ^ k \<le> 2 * ?r"
    by (cases "2 * ?r < 2 ^ k \<or> (2 * ?r = 2 ^ k \<and> even ?q)") (simp_all add: round_even_def Let_def, auto)
  then show "2 * round_even k n \<le> 2 * n + 2 ^ k" "2 * n \<le> 2 * round_even k n + 2 ^ k"
    using n r by linarith+
qed

lemma round24_exact:
  assumes "c < 2 ^ 24"
  shows "round24 (c * 2 ^ s) = c * 2 ^ s"
proof (cases "bit_len (c * 2 ^ s) \<le> 24")
  case False
  then have "2 ^ (bit_len (c * 2 ^ s) - 24) dvd c * 2 ^ s"
    using bit_len_lower [of "c * 2 ^ s"] by (intro scale_divides [OF assms]) simp
  then show ?thesis by (simp add: round24_def round_even_def)
qed (use round24_small bit_len_le_iff [of _ 24] in simp)

text \<open>
  A quotient of two numbers of at most 24 bits that is not an integer is not rounded to one: it is
  further from every integer than rounding moves it.
\<close>

lemma round24_quotient:
  assumes s: "s < 2 ^ 24" and t: "0 < t" "t < 2 ^ 24" and r: "s mod t \<noteq> 0" and k: "k = bit_len t + 25"
  defines "m \<equiv> 2 * (s * 2 ^ k div t) + (if s * 2 ^ k mod t = 0 then 0 else 1)" and "p \<equiv> 2 ^ (k + 1)"
  shows "(s div t) * p < round24 m" "round24 m < (s div t + 1) * p"
proof -
  let ?q = "s div t" and ?r = "s mod t" and ?n = "s * 2 ^ k"
  have st: "?q * t + ?r = s" by (rule div_mult_mod_eq)
  have p: "2 * ?n = s * p" by (simp add: p_def)
  have nt: "(?n div t) * t + ?n mod t = ?n" by (rule div_mult_mod_eq)
  have e: "?n mod t < t" using t(1) by simp
  have "m * t = 2 * (?n div t * t) + (if ?n mod t = 0 then 0 else t)" by (simp add: m_def algebra_simps)
  then have mt: "m * t < s * p + t" "s * p < m * t + t"
  proof -
    define x y where "x = ?n div t * t" and "y = ?n mod t"
    have "m * t = 2 * x + (if y = 0 then 0 else t)" "2 * x + 2 * y = s * p" "y < t"
      using \<open>m * t = _\<close> nt p e by (simp_all only: x_def y_def add_mult_distrib2 [symmetric])
    then show "m * t < s * p + t" "s * p < m * t + t" using t(1) by (simp_all split: if_splits)
  qed
  have "t < 2 ^ bit_len t" using bit_len_le_iff [of t "bit_len t"] by simp
  then have big: "2 ^ 26 * t \<le> p" by (simp add: p_def k power_add)
  have sp: "s * p = ?q * p * t + ?r * p" using st by (metis add_mult_distrib mult.assoc mult.commute)
  have rp: "p \<le> ?r * p" "?r * p + p \<le> t * p"
    using r t(1) mult_le_mono1 [of "?r + 1" t p] by (simp_all add: Suc_le_eq)
  have far: "p < (m - ?q * p) * t + t" "p < ((?q + 1) * p - m) * t + t" "?q * p < m" "m < (?q + 1) * p"
  proof -
    have lo: "?q * p * t + p < m * t + t" using mt(2) sp rp(1) by linarith
    have hi: "m * t + p < (?q + 1) * p * t + t" using mt(1) sp rp(2) by (simp add: algebra_simps)
    have pt: "t < p" using big t(1) by simp
    show "?q * p < m" using lo pt by (metis add_less_mono add.commute linorder_not_less mult_le_mono1 add_le_mono less_imp_le_nat)
    show "m < (?q + 1) * p" using hi pt by (metis add_less_mono add.commute linorder_not_less mult_le_mono1 add_le_mono less_imp_le_nat)
    then show "p < ((?q + 1) * p - m) * t + t" using hi by (simp add: diff_mult_distrib)
    show "p < (m - ?q * p) * t + t" using lo \<open>?q * p < m\<close> by (simp add: diff_mult_distrib)
  qed
  show "?q * p < round24 m" "round24 m < (?q + 1) * p"
  proof -
    have "?q * p < round24 m \<and> round24 m < (?q + 1) * p"
    proof (cases "bit_len m \<le> 24")
      case True
      then show ?thesis using round24_small [of m] bit_len_le_iff [of m 24] far(3,4) by simp
    next
      case False
      define j where "j = bit_len m - 24"
      have m: "2 ^ (j + 23) \<le> m" "round24 m = round_even j m" using bit_len_lower [of m] False by (simp_all add: j_def round24_def)
      have c: "(2::nat) ^ 24 = 16777216" by simp
      have "\<not> 2 * d \<le> 2 ^ j" if d: "p < d * t + t" for d
      proof
        assume "2 * d \<le> 2 ^ j"
        then have "2 ^ 24 * (d * t) \<le> 2 ^ (j + 23) * t" by (simp add: power_add)
        also have "\<dots> \<le> m * t" using m(1) by (rule mult_le_mono1)
        finally have "2 ^ 24 * p < s * p + (2 ^ 24 + 1) * t" using d mt(1) unfolding c add_mult_distrib by linarith
        moreover have "s * p + p \<le> 2 ^ 24 * p" using mult_le_mono1 [of "s + 1" "2 ^ 24" p] s by simp
        moreover have "67108864 * t \<le> p" using big by simp
        ultimately show False using t(1) unfolding c add_mult_distrib by linarith
      qed
      from this [OF far(1)] this [OF far(2)] show ?thesis
        using round_even_error(1) [of j m] round_even_error(2) [of m j] m(2) far(3,4) by linarith
    qed
    then show "?q * p < round24 m" "round24 m < (?q + 1) * p" by simp_all
  qed
qed

lemma float_quotient:
  assumes "s < 2 ^ 24" and "0 < t" and "t < 2 ^ 24"
  shows "float_trunc (float_floor (float_div (float_of_nat s) (float_of_nat t))) = s div t"
    "float_trunc (float_ceil (float_div (float_of_nat s) (float_of_nat t))) = (s + t - 1) div t"
proof -
  define k where "k = bit_len t + 25"
  define m where "m = 2 * (s * 2 ^ k div t) + (if s * 2 ^ k mod t = 0 then 0 else 1)"
  have sg: "sgn (int s) * sgn (int t) * int m = int m"
    using assms(2) by (cases "s = 0") (simp_all add: m_def)
  have "float_div (float_of_nat s) (float_of_nat t) = float_round (sgn (int s) * sgn (int t) * int m) (k + 1)"
    using assms by (simp add: float_div_def float_of_nat_def round24_small Let_def k_def m_def)
  also have "\<dots> = \<lparr>numerator = int (round24 m), scale = k + 1\<rparr>"
    unfolding sg by (cases "m = 0") (simp_all add: float_round_def round24_small)
  finally have div: "float_div (float_of_nat s) (float_of_nat t) = \<lparr>numerator = int (round24 m), scale = k + 1\<rparr>" .
  let ?p = "2 ^ (k + 1) :: nat"
  have fl: "float_trunc (float_floor (float_div (float_of_nat s) (float_of_nat t))) = nat (int (round24 m) div int ?p)"
    and cl: "float_trunc (float_ceil (float_div (float_of_nat s) (float_of_nat t))) = nat (- (- int (round24 m) div int ?p))"
    unfolding div by (simp_all add: float_trunc_def float_floor_def float_ceil_def)
  have fl: "float_trunc (float_floor (float_div (float_of_nat s) (float_of_nat t))) = round24 m div ?p"
    unfolding fl by (simp only: zdiv_int [symmetric] nat_int)
  have "round24 m div ?p = s div t \<and> nat (- (- int (round24 m) div int ?p)) = (s + t - 1) div t"
  proof (cases "s mod t = 0")
    case True
    then have st: "s = s div t * t" using div_mult_mod_eq [of s t] by simp
    let ?q = "s div t"
    have "s * 2 ^ k div t = ?q * 2 ^ k" "s * 2 ^ k mod t = 0"
      using assms(2) by (subst st; simp add: mult.commute mult.left_commute)+
    then have "m = ?q * ?p" by (simp add: m_def)
    moreover have "?q < 2 ^ 24" using assms(1) div_le_dividend [of s t] by linarith
    ultimately have r: "round24 m = ?q * ?p" by (simp only: round24_exact)
    have up: "(s + t - 1) div t = ?q"
    proof -
      have a: "s + t - 1 = ?q * t + (t - 1)" using st assms(2) by linarith
      have b: "(?q * t + (t - 1)) div t = ?q + (t - 1) div t" using assms(2) by (intro div_mult_self3) simp
      have c: "(t - 1) div t = 0" using assms(2) by simp
      show ?thesis unfolding a b c by simp
    qed
    have "- int (?q * ?p) div int ?p = - int ?q" by (rule int_div_pos_eq [where r = 0]) simp_all
    moreover have "?q * ?p div ?p = ?q" by simp
    ultimately show ?thesis unfolding r up by (simp only: minus_minus nat_int simp_thms)
  next
    case False
    let ?q = "s div t"
    have b: "?q * ?p < round24 m" "round24 m < (?q + 1) * ?p"
      using round24_quotient [OF assms False k_def] by (simp_all add: m_def)
    have "(s + t - 1) div t = ?q + 1"
    proof -
      have "s + t - 1 = (?q + 1) * t + (s mod t - 1)" using div_mult_mod_eq [of s t] False by simp
      moreover have "s mod t - 1 < t" using assms(2) mod_less_divisor [of t s] by linarith
      ultimately show ?thesis by (simp add: div_nat_eqI)
    qed
    moreover have "round24 m div ?p = ?q" using b by (intro div_nat_eqI) (simp_all add: mult.commute)
    moreover have "- int (round24 m) div int ?p = - int (?q + 1)"
    proof (rule int_div_pos_eq)
      let ?r = "(?q + 1) * ?p - round24 m"
      show "- int (round24 m) = int ?p * - int (?q + 1) + int ?r" using b(2) by (simp add: of_nat_diff algebra_simps)
      show "0 \<le> int ?r" by simp
      have "?r < ?p" using b unfolding add_mult_distrib mult_1 by linarith
      then show "int ?r < int ?p" by (simp only: of_nat_less_iff)
    qed
    ultimately show ?thesis by simp
  qed
  then show "float_trunc (float_floor (float_div (float_of_nat s) (float_of_nat t))) = s div t"
    "float_trunc (float_ceil (float_div (float_of_nat s) (float_of_nat t))) = (s + t - 1) div t"
    using fl cl by simp_all
qed

end
