(* ===== verification/Buffered_Files.thy ===== *)
theory Buffered_Files
  imports Prelude "HOL-Library.Sublist"
begin

text \<open>
  Buffered, optionally compressed file output and input (utils/BufferedFileWriter.hpp,
  utils/BufferedFileReader.hpp) and the in-memory copy of a source file
  (utils/FileSourceBuffer.hpp). The operating system and the boost stream filters are the
  record \<open>file_env\<close>; a file is its list of bytes. The bytes given to an output stream are in the
  file once the stream is flushed or closed, and what the file holds between two of these moments is
  left open (only full buffers have been handed on). A reader looks at the file when it reads.
\<close>

section \<open>Writer state\<close>

type_synonym files = "string \<Rightarrow> u8 list option"

text \<open>
  \<open>w_stream\<close> is what was given to the output stream since \<open>open\<close>, \<open>w_synced\<close> how much of it a
  flush has forced out, \<open>w_bad\<close> the bad bit of the stream and \<open>w_fd_direct\<close> whether the descriptor has
  \<open>O_DIRECT\<close> set.
\<close>

record file_writer =
  w_filename :: string
  w_buffer_size :: u64
  w_algorithm :: string
  w_stream :: "u8 list"
  w_synced :: nat
  w_bad :: bool
  w_is_open :: bool
  w_use_o_direct :: bool
  w_fd_direct :: bool

definition closed_writer :: file_writer where
  "closed_writer = \<lparr>w_filename = '''', w_buffer_size = 0, w_algorithm = '''', w_stream = [], w_synced = 0,
                    w_bad = False, w_is_open = False, w_use_o_direct = True, w_fd_direct = False\<rparr>"

section \<open>Environment\<close>

text \<open>
  \<open>can_open\<close> is whether \<open>::open\<close> returns a descriptor; \<open>encode\<close> and \<open>decode\<close> are the compression
  filters; \<open>emitted\<close> is what a compressor has handed to the sink when it is flushed.
  \<open>device_takes\<close> is whether the descriptor accepts what the stream of a writer hands to it: the
  writes of a device fail when it is full and, with \<open>O_DIRECT\<close>, when the buffer size does
  not fulfil the size requirements of the system. \<open>salvaged\<close> is what the file then holds of the stream.
\<close>

record file_env =
  can_open :: "string \<Rightarrow> bool"
  encode :: "string \<Rightarrow> u8 list \<Rightarrow> u8 list"
  decode :: "string \<Rightarrow> u8 list \<Rightarrow> u8 list"
  emitted :: "string \<Rightarrow> u8 list \<Rightarrow> u8 list"
  device_takes :: "file_writer \<Rightarrow> bool"
  salvaged :: "file_writer \<Rightarrow> u8 list"

definition is_compressor :: "string \<Rightarrow> bool" where
  "is_compressor alg \<longleftrightarrow> alg = ''zstd'' \<or> alg = ''lzma'' \<or> alg = ''zlib''"

definition filter_out :: "file_env \<Rightarrow> string \<Rightarrow> u8 list \<Rightarrow> u8 list" where
  "filter_out env alg bs = (if is_compressor alg then encode env alg bs else bs)"

definition filter_in :: "file_env \<Rightarrow> string \<Rightarrow> u8 list \<Rightarrow> u8 list" where
  "filter_in env alg bs = (if is_compressor alg then decode env alg bs else bs)"

text \<open>
  The file is opened without truncation and written from its beginning. A file that was removed
  while it was open takes what is written to it along.
\<close>

definition overlay :: "u8 list \<Rightarrow> u8 list \<Rightarrow> u8 list" where
  "overlay new old = new @ drop (length new) old"

definition old_bytes :: "string \<Rightarrow> files \<Rightarrow> u8 list" where
  "old_bytes name fs = (case fs name of None \<Rightarrow> [] | Some old \<Rightarrow> old)"

definition create_file :: "string \<Rightarrow> files \<Rightarrow> files" where
  "create_file name fs = fs(name \<mapsto> old_bytes name fs)"

definition put_file :: "string \<Rightarrow> u8 list \<Rightarrow> files \<Rightarrow> files" where
  "put_file name bs fs = (case fs name of None \<Rightarrow> fs | Some old \<Rightarrow> fs(name \<mapsto> overlay bs old))"

section \<open>Writer\<close>

text \<open>
  \<open>close\<close> and \<open>flush\<close> take \<open>O_DIRECT\<close> off the descriptor before the rest of the buffer is handed on. A
  write that the device refuses sets the bad bit; as long as it is set the stream takes nothing more.
\<close>

definition close_w :: "file_env \<Rightarrow> file_writer \<times> files \<Rightarrow> file_writer \<times> files" where
  "close_w env = (\<lambda>(w, fs).
     let w = w\<lparr>w_fd_direct := False\<rparr>
     in (w\<lparr>w_stream := [], w_synced := 0, w_bad := False, w_is_open := False\<rparr>,
         if w_is_open w
         then put_file (w_filename w)
                (if \<not> w_bad w \<and> device_takes env w then filter_out env (w_algorithm w) (w_stream w)
                 else salvaged env w) fs
         else fs))"

definition open_w ::
  "file_env \<Rightarrow> string \<Rightarrow> u64 \<Rightarrow> string \<Rightarrow> bool \<Rightarrow> file_writer \<times> files \<Rightarrow> fault + (file_writer \<times> files)" where
  "open_w env filename buffer_size compression_algorithm use_o_direct wfs =
     (let (w, fs) = (case wfs of (w, fs) \<Rightarrow> (w\<lparr>w_use_o_direct := use_o_direct\<rparr>, fs));
          (w, fs) = (if w_is_open w then close_w env (w, fs) else (w, fs));
          w = w\<lparr>w_filename := filename, w_buffer_size := buffer_size, w_algorithm := compression_algorithm\<rparr>
      in if \<not> can_open env filename then Inl CannotOpenFile
         else let fs = create_file filename fs
              in if is_compressor compression_algorithm \<or> compression_algorithm = ''None''
                 then Inr (w\<lparr>w_stream := [], w_synced := 0, w_bad := False, w_is_open := True,
                             w_fd_direct := use_o_direct\<rparr>, fs)
                 else Inl ConfigurationError)"

definition write_w :: "file_env \<Rightarrow> u8 list \<Rightarrow> file_writer \<Rightarrow> bool \<times> file_writer" where
  "write_w env memory w =
     (if \<not> w_is_open w \<or> w_bad w then (False, w)
      else let w = w\<lparr>w_stream := w_stream w @ memory\<rparr>
           in if device_takes env w then (True, w) else (False, w\<lparr>w_bad := True\<rparr>))"

definition flush_w :: "file_env \<Rightarrow> file_writer \<times> files \<Rightarrow> file_writer \<times> files" where
  "flush_w env = (\<lambda>(w, fs).
     let w = w\<lparr>w_fd_direct := False\<rparr>;
         (w, fs) =
           (if \<not> w_is_open w \<or> w_bad w then (w, fs)
            else if device_takes env w
            then (w\<lparr>w_synced := length (w_stream w)\<rparr>,
                  put_file (w_filename w)
                    (if is_compressor (w_algorithm w) then emitted env (w_algorithm w) (w_stream w)
                     else w_stream w) fs)
            else (w\<lparr>w_bad := True\<rparr>, put_file (w_filename w) (salvaged env w) fs))
     in (w\<lparr>w_fd_direct := w_use_o_direct w\<rparr>, fs))"

section \<open>Reader\<close>

text \<open>
  Opening pushes the filters and the source on the input stream; on a reader that is still open
  the chain of the stream is complete and the push is refused. Nothing is read from the file by
  \<open>open\<close>: \<open>r_fetched\<close> is what the reads so far took from the file, a buffer at a time, \<open>r_pos\<close> how many
  bytes of it, decompressed, were delivered, and \<open>r_good\<close> is the good state of the stream.
\<close>

record file_reader =
  r_filename :: string
  r_buffer_size :: u64
  r_algorithm :: string
  r_fetched :: "u8 list"
  r_pos :: nat
  r_good :: bool
  r_is_open :: bool

definition closed_reader :: file_reader where
  "closed_reader = \<lparr>r_filename = '''', r_buffer_size = 0, r_algorithm = '''', r_fetched = [], r_pos = 0,
                    r_good = False, r_is_open = False\<rparr>"

definition open_r :: "file_env \<Rightarrow> string \<Rightarrow> u64 \<Rightarrow> string \<Rightarrow> files \<Rightarrow> file_reader \<Rightarrow> fault + file_reader" where
  "open_r env filename buffer_size compression_algorithm fs r =
     (let r = r\<lparr>r_filename := filename, r_buffer_size := buffer_size, r_algorithm := compression_algorithm\<rparr>
      in if fs filename = None \<or> \<not> can_open env filename then Inl CannotOpenFile
         else if \<not> (is_compressor compression_algorithm \<or> compression_algorithm = ''None'') then Inl ConfigurationError
         else if r_is_open r then Inl AssertFailed
         else Inr (r\<lparr>r_fetched := [], r_pos := 0, r_good := True, r_is_open := True\<rparr>))"

text \<open>
  Buffers of \<open>n\<close> bytes are fetched until \<open>wanted\<close> decompressed bytes are there or the file ends.
\<close>

function fetch_r :: "file_env \<Rightarrow> string \<Rightarrow> nat \<Rightarrow> u8 list \<Rightarrow> nat \<Rightarrow> u8 list \<Rightarrow> u8 list" where
  "fetch_r env alg n bytes wanted fetched =
     (if wanted \<le> length (filter_in env alg fetched) \<or> length bytes \<le> length fetched then fetched
      else fetch_r env alg n bytes wanted (fetched @ take (max 1 n) (drop (length fetched) bytes)))"
  by pat_completeness auto
termination by (relation "measure (\<lambda>(_, _, _, bytes, _, fetched). length bytes - length fetched)") auto

declare fetch_r.simps [simp del]

text \<open>Reading one element of \<open>sz\<close> bytes; after a short read the stream is no longer good.\<close>

definition read_r :: "file_env \<Rightarrow> nat \<Rightarrow> files \<Rightarrow> file_reader \<Rightarrow> u8 list option \<times> file_reader" where
  "read_r env sz fs r =
     (if \<not> r_is_open r \<or> \<not> r_good r then (None, r)
      else let fetched = fetch_r env (r_algorithm r) (unat (r_buffer_size r)) (old_bytes (r_filename r) fs)
                           (r_pos r + sz) (r_fetched r);
               bs = take sz (drop (r_pos r) (filter_in env (r_algorithm r) fetched));
               r = r\<lparr>r_fetched := fetched, r_pos := r_pos r + length bs, r_good := (length bs = sz)\<rparr>
           in (if length bs = sz then Some bs else None, r))"

definition close_r :: "file_reader \<Rightarrow> file_reader" where
  "close_r r = r\<lparr>r_fetched := [], r_pos := 0, r_good := False, r_is_open := False\<rparr>"

section \<open>File source buffer\<close>

text \<open>
  The whole source file in memory, with the number of complete chunks it holds. The input stream is
  never closed, so it cannot be opened again. Every exception is turned into a configuration
  error; the warnings are the size limit and the incomplete last chunk.
\<close>

datatype source_warning = FileSizeLimitExceeded | MoreDataThanExpected

record file_source =
  fs_input_limit :: int
  fs_chunk_size :: int
  fs_element_count :: u32
  fs_source_filename :: string
  fs_stream_open :: bool
  fs_input_buffer :: "u8 list"

definition make_file_source :: "int \<Rightarrow> int \<Rightarrow> file_source" where
  "make_file_source input_limit chunk_size =
     \<lparr>fs_input_limit = input_limit, fs_chunk_size = chunk_size, fs_element_count = 0,
      fs_source_filename = '''', fs_stream_open = False, fs_input_buffer = []\<rparr>"

definition read_source ::
  "file_env \<Rightarrow> files \<Rightarrow> string \<Rightarrow> file_source \<Rightarrow> fault + (source_warning list \<times> file_source)" where
  "read_source env fs sourcefile b =
     (let b = b\<lparr>fs_source_filename := sourcefile\<rparr>
      in case fs sourcefile of
           None \<Rightarrow> Inl GenericConfigurationError
         | Some bytes \<Rightarrow>
             if fs_stream_open b \<or> \<not> can_open env sourcefile then Inl GenericConfigurationError
             else let filesize = int (length bytes);
                      warn1 = (if filesize > fs_input_limit b then [FileSizeLimitExceeded] else []);
                      warn2 = (if fs_chunk_size b > 0 \<and> filesize mod fs_chunk_size b > 0
                               then [MoreDataThanExpected] else []);
                      count = (if fs_chunk_size b > 0 then word_of_int (filesize div fs_chunk_size b)
                               else fs_element_count b)
                  in Inr (warn1 @ warn2,
                          b\<lparr>fs_stream_open := True, fs_element_count := count,
                            fs_input_buffer := bytes @ fs_input_buffer b\<rparr>))"

section \<open>Reliable devices and streaming filters\<close>

text \<open>
  The device takes every write to the file \<open>name\<close> that is made with this buffer size and use of
  \<open>O_DIRECT\<close>. The decompressor inverts the compressor and delivers from the first part of its
  input the first part of its output.
\<close>

definition reliable :: "file_env \<Rightarrow> string \<Rightarrow> u64 \<Rightarrow> bool \<Rightarrow> bool" where
  "reliable env name bsize direct \<longleftrightarrow>
     (\<forall>w. w_filename w = name \<and> w_buffer_size w = bsize \<and> w_use_o_direct w = direct \<longrightarrow> device_takes env w)"

definition stream_filters :: "file_env \<Rightarrow> string \<Rightarrow> bool" where
  "stream_filters env alg \<longleftrightarrow>
     (\<forall>bs. filter_in env alg (filter_out env alg bs) = bs) \<and>
     (\<forall>bs cs. prefix (filter_in env alg bs) (filter_in env alg (bs @ cs)))"

lemma uncompressed_stream_filters [simp]: "stream_filters env ''None''"
  by (simp add: stream_filters_def filter_in_def filter_out_def is_compressor_def)

lemma reliableD [dest]: "reliable env (w_filename w) (w_buffer_size w) (w_use_o_direct w) \<Longrightarrow> device_takes env w"
  by (simp add: reliable_def)

lemma filter_in_prefix:
  assumes "stream_filters env alg" "prefix bs cs"
  shows "prefix (filter_in env alg bs) (filter_in env alg cs)"
  using assms by (auto simp: stream_filters_def prefix_def)

lemma filter_in_out: "stream_filters env alg \<Longrightarrow> filter_in env alg (filter_out env alg bs) = bs"
  by (simp add: stream_filters_def)

lemma refused_write_stays_bad:
  assumes "w_is_open w" "\<not> w_bad w" "\<not> device_takes env (w\<lparr>w_stream := w_stream w @ x\<rparr>)"
  shows "\<exists>w'. write_w env x w = (False, w') \<and> write_w env y w' = (False, w')"
  using assms by (simp add: write_w_def)

section \<open>Writing and reading back\<close>

fun write_each :: "file_env \<Rightarrow> u8 list list \<Rightarrow> file_writer \<Rightarrow> bool list \<times> file_writer" where
  "write_each env [] w = ([], w)"
| "write_each env (x # xs) w =
     (case write_w env x w of (ok, w) \<Rightarrow> case write_each env xs w of (oks, w) \<Rightarrow> (ok # oks, w))"

definition write_all :: "file_env \<Rightarrow> u8 list list \<Rightarrow> file_writer \<Rightarrow> file_writer" where
  "write_all env xs w = snd (write_each env xs w)"

fun read_n :: "file_env \<Rightarrow> nat \<Rightarrow> files \<Rightarrow> nat \<Rightarrow> file_reader \<Rightarrow> u8 list option list" where
  "read_n env sz fs 0 r = []"
| "read_n env sz fs (Suc k) r = (case read_r env sz fs r of (x, r') \<Rightarrow> x # read_n env sz fs k r')"

lemma write_w_reliable:
  "w_is_open w \<Longrightarrow> \<not> w_bad w \<Longrightarrow> reliable env (w_filename w) (w_buffer_size w) (w_use_o_direct w) \<Longrightarrow>
   write_w env x w = (True, w\<lparr>w_stream := w_stream w @ x\<rparr>)"
  by (simp add: write_w_def reliable_def)

lemma write_each_reliable:
  "w_is_open w \<Longrightarrow> \<not> w_bad w \<Longrightarrow> reliable env (w_filename w) (w_buffer_size w) (w_use_o_direct w) \<Longrightarrow>
   write_each env xs w = (replicate (length xs) True, w\<lparr>w_stream := w_stream w @ concat xs\<rparr>)"
  by (induction xs arbitrary: w) (simp_all add: write_w_reliable)

lemma fetch_r_prefix:
  assumes "prefix fetched bytes"
  shows "prefix (fetch_r env alg n bytes wanted fetched) bytes \<and>
         (wanted \<le> length (filter_in env alg (fetch_r env alg n bytes wanted fetched)) \<or>
          fetch_r env alg n bytes wanted fetched = bytes)"
  using assms
proof (induction env alg n bytes wanted fetched rule: fetch_r.induct)
  case (1 env alg n bytes wanted fetched)
  obtain rest where rest: "bytes = fetched @ rest" using "1.prems" by (auto simp: prefix_def)
  show ?case
  proof (cases "wanted \<le> length (filter_in env alg fetched) \<or> length bytes \<le> length fetched")
    case True
    then show ?thesis using rest "1.prems" by (subst (1 2 3) fetch_r.simps) auto
  next
    case False
    have "prefix (fetched @ take (max 1 n) (drop (length fetched) bytes)) bytes"
      using rest by (simp add: take_is_prefix)
    then show ?thesis using "1.IH" [OF False] False by (subst (1 2 3) fetch_r.simps) simp
  qed
qed

text \<open>A reader in the course of a file whose decompressed content is \<open>whole\<close>.\<close>

definition reading :: "file_env \<Rightarrow> files \<Rightarrow> u8 list \<Rightarrow> file_reader \<Rightarrow> bool" where
  "reading env fs whole r \<longleftrightarrow>
     r_is_open r \<and> r_good r \<and> prefix (r_fetched r) (old_bytes (r_filename r) fs) \<and>
     filter_in env (r_algorithm r) (old_bytes (r_filename r) fs) = whole"

lemma read_r_reading:
  assumes "reading env fs whole r" and "stream_filters env (r_algorithm r)"
  shows "\<exists>r'. read_r env sz fs r =
           (if length (take sz (drop (r_pos r) whole)) = sz then Some (take sz (drop (r_pos r) whole)) else None, r') \<and>
         (length (take sz (drop (r_pos r) whole)) = sz \<longrightarrow>
            reading env fs whole r' \<and> r_pos r' = r_pos r + sz \<and> r_algorithm r' = r_algorithm r)"
proof -
  let ?bytes = "old_bytes (r_filename r) fs"
  define got where "got = fetch_r env (r_algorithm r) (unat (r_buffer_size r)) ?bytes (r_pos r + sz) (r_fetched r)"
  have got: "prefix got ?bytes" "r_pos r + sz \<le> length (filter_in env (r_algorithm r) got) \<or> got = ?bytes"
    using assms(1) fetch_r_prefix [of "r_fetched r" ?bytes] by (auto simp: got_def reading_def)
  obtain rest where "whole = filter_in env (r_algorithm r) got @ rest"
    using filter_in_prefix [OF assms(2) got(1)] assms(1) by (auto simp: reading_def prefix_def)
  then have "take sz (drop (r_pos r) (filter_in env (r_algorithm r) got)) = take sz (drop (r_pos r) whole)"
    using got(2) assms(1) by (auto simp: reading_def)
  then show ?thesis using assms(1) got(1)
    by (simp add: read_r_def Let_def reading_def flip: got_def del: length_take length_drop)
qed

lemma read_n_concat:
  assumes "stream_filters env (r_algorithm r)"
  shows "reading env fs whole r \<Longrightarrow> drop (r_pos r) whole = concat xs @ rest \<Longrightarrow> \<forall>x \<in> set xs. length x = sz \<Longrightarrow>
   \<exists>r'. reading env fs whole r' \<and> drop (r_pos r') whole = rest \<and> r_algorithm r' = r_algorithm r \<and>
        read_n env sz fs (length xs + k) r = map Some xs @ read_n env sz fs k r'"
  using assms
proof (induction xs arbitrary: r)
  case (Cons x xs)
  obtain r1 where r1: "read_r env sz fs r = (Some x, r1)" "reading env fs whole r1" "r_pos r1 = r_pos r + sz"
      "r_algorithm r1 = r_algorithm r"
    using read_r_reading [OF Cons.prems(1,4), of sz] Cons.prems(2,3) by auto
  have "drop (r_pos r1) whole = drop sz (drop (r_pos r) whole)" using r1(3) by (simp add: add.commute)
  then have d: "drop (r_pos r1) whole = concat xs @ rest" using Cons.prems(2,3) by simp
  obtain r' where "reading env fs whole r'" "drop (r_pos r') whole = rest" "r_algorithm r' = r_algorithm r1"
      "read_n env sz fs (length xs + k) r1 = map Some xs @ read_n env sz fs k r'"
    using Cons.IH [OF r1(2) d] Cons.prems(3,4) r1(4) by auto
  then show ?case using r1 by auto
qed auto

lemma opened_reads:
  assumes "can_open env name" and "is_compressor alg \<or> alg = ''None''" and "stream_filters env alg"
    and there: "fs0 name \<noteq> None" and bytes: "filter_in env alg (old_bytes name fs) = concat xs @ rest"
    and sz: "\<forall>x \<in> set xs. length x = sz"
  shows "\<exists>r. open_r env name bsize alg fs0 closed_reader = Inr r \<and>
             read_n env sz fs (length xs + 1) r =
               map Some xs @ [if length (take sz rest) = sz then Some (take sz rest) else None]"
proof -
  let ?r = "closed_reader\<lparr>r_filename := name, r_buffer_size := bsize, r_algorithm := alg, r_good := True, r_is_open := True\<rparr>"
  have r: "open_r env name bsize alg fs0 closed_reader = Inr ?r"
    using assms(1,2) there by (auto simp: open_r_def closed_reader_def)
  have rd: "reading env fs (concat xs @ rest) ?r" using bytes by (simp add: reading_def closed_reader_def)
  obtain r' where r': "reading env fs (concat xs @ rest) r'" "drop (r_pos r') (concat xs @ rest) = rest" "r_algorithm r' = alg"
      "read_n env sz fs (length xs + 1) ?r = map Some xs @ read_n env sz fs 1 r'"
    using read_n_concat [of env ?r fs "concat xs @ rest" xs rest sz 1] assms(3) sz rd
    by (simp add: closed_reader_def del: read_n.simps One_nat_def) blast
  have "read_n env sz fs 1 r' = [if length (take sz rest) = sz then Some (take sz rest) else None]"
  proof -
    obtain r'' where "read_r env sz fs r' = (if length (take sz rest) = sz then Some (take sz rest) else None, r'')"
      using read_r_reading [OF r'(1), of sz] assms(3) unfolding r'(2,3) by blast
    then show ?thesis by (simp only: One_nat_def read_n.simps prod.case)
  qed
  then show ?thesis using r r'(4) by (intro exI [of _ ?r]) simp
qed

definition write_file ::
  "file_env \<Rightarrow> string \<Rightarrow> u64 \<Rightarrow> string \<Rightarrow> bool \<Rightarrow> u8 list list \<Rightarrow> files \<Rightarrow> fault + files" where
  "write_file env name bsize alg direct xs fs =
     bindE (open_w env name bsize alg direct (closed_writer, fs))
       (\<lambda>(w, fs'). Inr (snd (close_w env (write_all env xs w, fs'))))"

text \<open>What the writes of a reliable device return and leave in the file.\<close>

lemma written_file:
  assumes "can_open env name" and "is_compressor alg \<or> alg = ''None''" and "reliable env name bsize direct"
  shows "\<exists>w w'. open_w env name bsize alg direct (closed_writer, fs) = Inr (w, create_file name fs) \<and>
           write_each env xs w = (replicate (length xs) True, w') \<and>
           snd (close_w env (w', create_file name fs)) =
             fs(name \<mapsto> overlay (filter_out env alg (concat xs)) (old_bytes name fs))"
proof -
  let ?w = "closed_writer\<lparr>w_use_o_direct := direct, w_filename := name, w_buffer_size := bsize, w_algorithm := alg,
              w_is_open := True, w_fd_direct := direct\<rparr>"
  have "open_w env name bsize alg direct (closed_writer, fs) = Inr (?w, create_file name fs)"
    using assms(1,2) by (simp add: open_w_def closed_writer_def)
  moreover have "write_each env xs ?w = (replicate (length xs) True, ?w\<lparr>w_stream := concat xs\<rparr>)"
    using write_each_reliable [of ?w env xs] assms(3) by (simp add: closed_writer_def)
  moreover have "snd (close_w env (?w\<lparr>w_stream := concat xs\<rparr>, create_file name fs)) =
      fs(name \<mapsto> overlay (filter_out env alg (concat xs)) (old_bytes name fs))"
    using assms(3) by (simp add: close_w_def closed_writer_def reliable_def put_file_def create_file_def Let_def)
  ultimately show ?thesis by blast
qed

lemma write_file_contents:
  assumes "can_open env name" and "is_compressor alg \<or> alg = ''None''" and "reliable env name bsize direct"
  shows "write_file env name bsize alg direct xs fs =
         Inr (fs(name \<mapsto> overlay (filter_out env alg (concat xs)) (old_bytes name fs)))"
  using written_file [OF assms, of fs xs] by (auto simp: write_file_def write_all_def)

text \<open>
  C28. Elements written with \<open>BufferedFileWriter\<close> are read back by \<open>BufferedFileReader\<close> with the same
  compression: for every supported algorithm, on a file that can be opened and on a device that takes the
  writes made with this buffer size and use of \<open>O_DIRECT\<close> (\<open>reliable\<close>; a size that \<open>O_DIRECT\<close> does not allow
  is excluded by it), all writes return true, and after \<open>close\<close> the reads return the elements in order and
  then fail, whether the reader was opened before the elements were written or after the writer was
  closed. It is assumed that the decompressor inverts the compressor and works as a stream
  (\<open>stream_filters\<close>) and that a file that existed before is not longer than what is written.
\<close>

theorem write_read_roundtrip:
  assumes "can_open env name" and "is_compressor alg \<or> alg = ''None''"
    and "stream_filters env alg" and "reliable env name bsize direct"
    and "length (old_bytes name fs) \<le> length (filter_out env alg (concat xs))"
    and "0 < sz" and "\<forall>x \<in> set xs. length x = sz"
  shows "\<exists>w fs0 w' w'' fs'. open_w env name bsize alg direct (closed_writer, fs) = Inr (w, fs0) \<and>
           write_each env xs w = (replicate (length xs) True, w') \<and>
           close_w env (w', fs0) = (w'', fs') \<and>
           (\<forall>fs_open \<in> {fs0, fs'}. \<exists>r. open_r env name bsize' alg fs_open closed_reader = Inr r \<and>
              read_n env sz fs' (length xs + 1) r = map Some xs @ [None])"
proof -
  let ?out = "filter_out env alg (concat xs)" and ?fs0 = "create_file name fs"
  have ov: "overlay ?out (old_bytes name fs) = ?out" using assms(5) by (simp add: overlay_def)
  obtain w w' where w: "open_w env name bsize alg direct (closed_writer, fs) = Inr (w, ?fs0)"
      "write_each env xs w = (replicate (length xs) True, w')"
      "snd (close_w env (w', ?fs0)) = fs(name \<mapsto> ?out)"
    using written_file [OF assms(1,2,4), of fs xs] ov by auto
  obtain w'' where c: "close_w env (w', ?fs0) = (w'', fs(name \<mapsto> ?out))" using w(3) by (metis prod.collapse)
  have "filter_in env alg (old_bytes name (fs(name \<mapsto> ?out))) = concat xs @ []"
    using filter_in_out [OF assms(3)] by (simp add: old_bytes_def)
  note reads = opened_reads [OF assms(1-3) _ this assms(7), of _ bsize']
  have "\<exists>r. open_r env name bsize' alg fs_open closed_reader = Inr r \<and>
      read_n env sz (fs(name \<mapsto> ?out)) (length xs + 1) r = map Some xs @ [None]"
    if "fs_open \<in> {?fs0, fs(name \<mapsto> ?out)}" for fs_open
    using reads [of fs_open] that assms(6) by (auto simp: create_file_def)
  then show ?thesis using w(1,2) c by blast
qed

text \<open>
  A file system without stale files, filters that change nothing and a device that takes with
  \<open>O_DIRECT\<close> only buffers of whole blocks of 4096 bytes.
\<close>

definition sample_file_env :: file_env where
  "sample_file_env = \<lparr>can_open = (\<lambda>_. True), encode = (\<lambda>_ bs. bs), decode = (\<lambda>_ bs. bs), emitted = (\<lambda>_ _. []),
     device_takes = (\<lambda>w. w_use_o_direct w \<longrightarrow> w_buffer_size w mod 4096 = 0),
     salvaged = (\<lambda>w. take (unat (w_buffer_size w)) (w_stream w))\<rparr>"

lemma sample_stream_filters [simp]: "stream_filters sample_file_env alg"
  by (simp add: stream_filters_def filter_in_def filter_out_def sample_file_env_def)

lemma sample_reliable: "(direct \<longrightarrow> bsize mod 4096 = 0) \<Longrightarrow> reliable sample_file_env name bsize direct"
  by (simp add: reliable_def sample_file_env_def)

lemma sample_file_env_simps [simp]:
  "can_open sample_file_env name" "emitted sample_file_env alg bs = []"
  by (simp_all add: sample_file_env_def)

theorem write_read_roundtrip_witness:
  "\<exists>w fs0 w' w'' fs' r. open_w sample_file_env ''out'' 4096 ''zstd'' True (closed_writer, Map.empty) = Inr (w, fs0) \<and>
     write_each sample_file_env [[1, 2], [3, 4]] w = ([True, True], w') \<and>
     close_w sample_file_env (w', fs0) = (w'', fs') \<and>
     open_r sample_file_env ''out'' 4096 ''zstd'' fs0 closed_reader = Inr r \<and>
     read_n sample_file_env 2 fs' 3 r = [Some [1, 2], Some [3, 4], None]"
  using write_read_roundtrip [of sample_file_env "''out''" "''zstd''" 4096 True Map.empty "[[1, 2], [3, 4]]" 2 4096]
  by (simp add: sample_reliable is_compressor_def numeral_3_eq_3 old_bytes_def) blast

text \<open>With a buffer that \<open>O_DIRECT\<close> does not allow a write fails, and so does the next one.\<close>

lemma unaligned_direct_write_fails:
  "\<exists>w fs0 w'. open_w sample_file_env ''out'' 100 ''None'' True (closed_writer, Map.empty) = Inr (w, fs0) \<and>
     write_each sample_file_env [[1, 2], [3, 4]] w = ([False, False], w')"
  by (simp add: open_w_def closed_writer_def write_w_def sample_file_env_def)

text \<open>
  \<open>open\<close> does not truncate: when an uncompressed file of the same name held more bytes than
  are now written, the bytes after the new ones stay, and after the written elements the reader
  returns a stale element instead of failing.
\<close>

theorem reopened_file_keeps_stale_tail:
  assumes "can_open env name" and "reliable env name bsize direct" and "fs name = Some old"
    and "\<forall>x \<in> set xs. length x = sz" and "length (concat xs) + sz \<le> length old"
  shows "\<exists>fs' r. write_file env name bsize ''None'' direct xs fs = Inr fs' \<and>
           open_r env name bsize' ''None'' fs' closed_reader = Inr r \<and>
           read_n env sz fs' (length xs + 1) r = map Some xs @ [Some (take sz (drop (length (concat xs)) old))]"
proof -
  let ?c = "concat xs @ drop (length (concat xs)) old"
  have w: "write_file env name bsize ''None'' direct xs fs = Inr (fs(name \<mapsto> ?c))"
    using write_file_contents [OF assms(1) _ assms(2), of "''None''"] assms(3)
    by (simp add: filter_out_def is_compressor_def overlay_def old_bytes_def)
  have "filter_in env ''None'' (old_bytes name (fs(name \<mapsto> ?c))) = ?c"
    by (simp add: filter_in_def is_compressor_def old_bytes_def)
  then show ?thesis
    using w opened_reads [OF assms(1) _ _ _ _ assms(4), of "''None''" "fs(name \<mapsto> ?c)" _ _ bsize'] assms(5) by fastforce
qed

theorem reopened_file_keeps_stale_tail_witness:
  "\<exists>fs' r. write_file sample_file_env ''out'' 4096 ''None'' True [[1, 2]] [''out'' \<mapsto> [9, 9, 8, 8]] = Inr fs' \<and>
           open_r sample_file_env ''out'' 4096 ''None'' fs' closed_reader = Inr r \<and>
           read_n sample_file_env 2 fs' 2 r = [Some [1, 2], Some [8, 8]]"
  using reopened_file_keeps_stale_tail
    [of sample_file_env "''out''" 4096 True "[''out'' \<mapsto> [9, 9, 8, 8]]" "[9, 9, 8, 8]" "[[1, 2]]" 2 4096]
  by (simp add: sample_reliable numeral_2_eq_2)

end
