(* ===== verification/Request_Handler.thy ===== *)
theory Request_Handler
  imports Latency_Buffer Frame_Error_Registry Float32 Buffered_Files
begin

text \<open>
  The request handler (concepts/RequestHandlerConcept.hpp, models/DefaultRequestHandlerModel.hpp
  and models/detail/DefaultRequestHandlerModel.hxx): it answers data requests with fragments cut
  from the latency buffer, keeps requests for data that has not arrived yet, removes old data
  when the buffer fills up and records the stream to a file. This theory holds the state and
  every operation. The operations take the readout type and the buffer type as records of
  operations; fragments, headers' default values and senders belong to other packages and are
  the record \<open>daq_env\<close>.
\<close>

section \<open>Data\<close>

datatype ResultCode =
    kFound | kNotFound | kTooOld | kNotYet | kPartial | kPartiallyOld | kCleanup | kUnknown

text \<open>The enumerators in the order of their numbers, the order of the keys of a map.\<close>

fun code_number :: "ResultCode \<Rightarrow> nat" where
  "code_number kFound = 0"
| "code_number kNotFound = 1"
| "code_number kTooOld = 2"
| "code_number kNotYet = 3"
| "code_number kPartial = 4"
| "code_number kPartiallyOld = 5"
| "code_number kCleanup = 6"
| "code_number kUnknown = 7"

lemma code_number_inject: "code_number c = code_number d \<Longrightarrow> c = d"
  by (cases c; cases d) simp_all

instantiation ResultCode :: linorder
begin

definition less_eq_ResultCode :: "ResultCode \<Rightarrow> ResultCode \<Rightarrow> bool" where
  "less_eq_ResultCode c d \<longleftrightarrow> code_number c \<le> code_number d"

definition less_ResultCode :: "ResultCode \<Rightarrow> ResultCode \<Rightarrow> bool" where
  "less_ResultCode c d \<longleftrightarrow> code_number c < code_number d"

instance
  by standard (auto simp: less_eq_ResultCode_def less_ResultCode_def dest: code_number_inject)

end

definition ResultCodeStrings :: "(ResultCode \<times> string) list" where
  "ResultCodeStrings =
     [(kFound, ''FOUND''), (kNotFound, ''NOT_FOUND''), (kTooOld, ''TOO_OLD''), (kNotYet, ''NOT_YET_PRESENT''),
      (kPartiallyOld, ''PARTIALLY_PASSED''), (kCleanup, ''CLEANUP''), (kUnknown, ''UNKNOWN'')]"

text \<open>\<open>operator[]\<close> of a map puts an empty entry for a missing key into the map and returns it.\<close>

definition resultCodeAsString :: "ResultCode \<Rightarrow> (ResultCode \<times> string) list \<Rightarrow> string \<times> (ResultCode \<times> string) list" where
  "resultCodeAsString rc names =
     (case map_of names rc of
        None \<Rightarrow> ('''', insort_key fst (rc, '''') names)
      | Some s \<Rightarrow> (s, names))"

text \<open>Every code but \<open>kPartial\<close> has a name; asking for that one adds an empty name to the map.\<close>

lemma result_code_names:
  "fst (resultCodeAsString rc ResultCodeStrings) = '''' \<longleftrightarrow> rc = kPartial"
  "rc \<noteq> kPartial \<Longrightarrow> snd (resultCodeAsString rc ResultCodeStrings) = ResultCodeStrings"
  by (cases rc; simp add: resultCodeAsString_def ResultCodeStrings_def)+

lemma result_code_names_sorted:
  "sorted (map fst names) \<Longrightarrow> sorted (map fst (snd (resultCodeAsString rc names)))"
  by (simp add: resultCodeAsString_def sorted_insort_key split: option.split)

record DataRequest =
  trigger_number :: u64
  sequence_number :: u16
  run_number :: u32
  trigger_timestamp :: u64
  window_begin :: u64
  window_end :: u64
  data_destination :: string

record SourceID =
  subsystem :: u16
  source_id :: u32

record FragmentHeader =
  fh_size :: u64
  fh_trigger_number :: u64
  fh_trigger_timestamp :: u64
  fh_window_begin :: u64
  fh_window_end :: u64
  fh_run_number :: u32
  fh_error_bits :: u32
  fh_fragment_type :: u32
  fh_sequence_number :: u16
  fh_detector_id :: u16
  fh_element_id :: SourceID

text \<open>
  A piece of a fragment points at a whole element in the buffer or at one of its frames, and has
  a size in bytes.
\<close>

datatype 'a frame_ptr = ElementBegin 'a | FrameAt 'a nat

type_synonym 'a piece = "'a frame_ptr \<times> u64"

record ('a, 'f) daq_env =
  default_header :: FragmentHeader
  sizeof_header :: u64
  rdt_fragment_type :: u32
  rdt_subsystem :: u16
  kDataNotFound :: nat
  kIncomplete :: nat
  make_fragment :: "'a piece list \<Rightarrow> 'f"
  set_header_fields :: "FragmentHeader \<Rightarrow> 'f \<Rightarrow> 'f"
  send_ok :: "string \<Rightarrow> 'f \<Rightarrow> bool"
  payload_bytes :: "'a \<Rightarrow> u8 list"

record 'f RequestResult =
  result_code :: ResultCode
  data_request_of :: DataRequest
  fragment :: 'f

record RequestElement =
  request :: DataRequest
  start_time :: int

text \<open>What leaves the handler: fragments, warnings and errors.\<close>

datatype 'f rh_event =
    FragmentSent string 'f
  | CannotWriteToQueue string
  | RequestOnEmptyBuffer
  | VerboseRequestTimedOut DataRequest
  | AutoPopOutOfRange
  | RecordingStillRunning
  | NotConfiguredForRecording
  | CannotWriteToFile string

section \<open>State\<close>

record 'f request_handler =
  buffered_writer :: file_writer
  disk :: files
  max_requested_elements :: u64
  cleanup_requested :: bool
  requests_running :: atomic_int
  waiting_requests :: "RequestElement list"
  posted :: "(DataRequest \<times> bool) list"
  num_request_handling_threads :: u64
  error_registry :: error_map
  t0 :: int
  run_marker :: bool
  recording :: bool
  next_timestamp_to_record :: u64
  pop_limit_pct :: float32
  pop_size_pct :: float32
  pop_limit_size :: u32
  buffer_capacity :: u64
  sourceid :: SourceID
  detid :: u16
  output_file :: string
  stream_buffer_size :: u64
  recording_configured :: bool
  warn_on_timeout :: bool
  warn_about_empty_buffer :: bool
  periodic_data_transmission_ms :: u32
  frag_out_conn_ids :: "string list"
  num_buffer_cleanups :: atomic_int
  pop_reqs :: atomic_int
  pops_count :: atomic_int
  rh_occupancy :: atomic_int
  num_requests_found :: atomic_int
  num_requests_bad :: atomic_int
  num_requests_old_window :: atomic_int
  num_requests_delayed :: atomic_int
  num_requests_uncategorized :: atomic_int
  num_requests_timed_out :: atomic_int
  handled_requests :: atomic_int
  response_time_acc :: atomic_int
  response_time_min :: atomic_int
  response_time_max :: atomic_int
  payloads_written :: atomic_int
  bytes_written :: atomic_int
  num_periodic_sent :: u64
  num_periodic_send_failed :: u64
  fragment_send_timeout_ms :: atomic_int
  request_timeout_ms :: atomic_int
  events :: "'f rh_event list"

definition INT_MAX :: atomic_int where
  "INT_MAX = 0x7FFFFFFF"

definition UINT64_MAX :: u64 where
  "UINT64_MAX = - 1"

text \<open>
  The state after construction. Members without an initialiser (the timeouts, the number of
  requested elements) are 0 here; \<open>conf\<close> sets them before they are read.
\<close>

definition new_request_handler :: "files \<Rightarrow> error_map \<Rightarrow> 'f request_handler" where
  "new_request_handler fs reg =
     \<lparr>buffered_writer = closed_writer, disk = fs, max_requested_elements = 0,
      cleanup_requested = False, requests_running = 0, waiting_requests = [], posted = [],
      num_request_handling_threads = 0, error_registry = reg, t0 = 0, run_marker = False,
      recording = False, next_timestamp_to_record = UINT64_MAX,
      pop_limit_pct = \<lparr>numerator = 0, scale = 0\<rparr>, pop_size_pct = \<lparr>numerator = 0, scale = 0\<rparr>,
      pop_limit_size = 0, buffer_capacity = 0, sourceid = \<lparr>subsystem = 0, source_id = 0\<rparr>, detid = 0,
      output_file = '''', stream_buffer_size = 0, recording_configured = False, warn_on_timeout = True,
      warn_about_empty_buffer = True, periodic_data_transmission_ms = 0, frag_out_conn_ids = [],
      num_buffer_cleanups = 0, pop_reqs = 0, pops_count = 0, rh_occupancy = 0, num_requests_found = 0,
      num_requests_bad = 0, num_requests_old_window = 0, num_requests_delayed = 0,
      num_requests_uncategorized = 0, num_requests_timed_out = 0, handled_requests = 0,
      response_time_acc = 0, response_time_min = INT_MAX, response_time_max = 0, payloads_written = 0,
      bytes_written = 0, num_periodic_sent = 0, num_periodic_send_failed = 0,
      fragment_send_timeout_ms = 0, request_timeout_ms = 0, events = []\<rparr>"

section \<open>Configuration and run control\<close>

record output_conf =
  out_data_type :: string
  out_send_timeout_ms :: atomic_int
  out_uid :: string

record data_recorder_conf =
  dr_output_file :: string
  dr_streaming_buffer_size :: u64
  dr_compression_algorithm :: string
  dr_use_o_direct :: bool

record request_handler_conf =
  hc_source_id :: u32
  hc_detector_id :: u16
  hc_pop_limit_pct :: float32
  hc_pop_size_pct :: float32
  hc_buffer_size :: u64
  hc_handler_threads :: u64
  hc_request_timeout :: atomic_int
  hc_outputs :: "output_conf list"
  hc_data_recorder :: "data_recorder_conf option"
  hc_warn_on_timeout :: bool
  hc_warn_on_empty_buffer :: bool
  hc_periodic_data_transmission_ms :: u32

definition conf_output :: "output_conf \<Rightarrow> 'f request_handler \<Rightarrow> 'f request_handler" where
  "conf_output output h =
     (if out_data_type output = ''Fragment''
      then h\<lparr>fragment_send_timeout_ms := out_send_timeout_ms output,
             frag_out_conn_ids := frag_out_conn_ids h @ [out_uid output]\<rparr>
      else h)"

definition conf_recorder :: "file_env \<Rightarrow> data_recorder_conf option \<Rightarrow> 'f request_handler \<Rightarrow> fault + 'f request_handler"
where
  "conf_recorder fenv recorder h =
     (if recording_configured h then Inr h
      else case recorder of
             None \<Rightarrow> Inr h
           | Some dr \<Rightarrow>
               let h = h\<lparr>output_file := dr_output_file dr\<rparr>;
                   h = h\<lparr>disk := (disk h)(output_file h := None), stream_buffer_size := dr_streaming_buffer_size dr\<rparr>
               in bindE (open_w fenv (output_file h) (stream_buffer_size h) (dr_compression_algorithm dr)
                           (dr_use_o_direct dr) (buffered_writer h, disk h))
                    (\<lambda>(w, fs). Inr (h\<lparr>buffered_writer := w, disk := fs, recording_configured := True\<rparr>)))"

definition conf_auto_pop :: "'f request_handler \<Rightarrow> 'f request_handler" where
  "conf_auto_pop h =
     (if float_negative (pop_limit_pct h) \<or> float_above_one (pop_limit_pct h) \<or>
         float_negative (pop_size_pct h) \<or> float_above_one (pop_size_pct h)
      then h\<lparr>events := events h @ [AutoPopOutOfRange]\<rparr>
      else let h = h\<lparr>pop_limit_size := of_nat (scaled_count (pop_limit_pct h) (unat (buffer_capacity h)))\<rparr>;
               limit = float_of_nat (unat (pop_limit_size h))
           in h\<lparr>max_requested_elements :=
                  of_nat (float_trunc (float_minus limit (float_mult limit (pop_size_pct h))))\<rparr>)"

definition conf_rh ::
  "('a, 'f) daq_env \<Rightarrow> file_env \<Rightarrow> request_handler_conf \<Rightarrow> 'f request_handler \<Rightarrow> fault + 'f request_handler" where
  "conf_rh D fenv c h =
     (let h = h\<lparr>sourceid := \<lparr>subsystem = rdt_subsystem D, source_id = hc_source_id c\<rparr>, detid := hc_detector_id c,
                pop_limit_pct := hc_pop_limit_pct c, pop_size_pct := hc_pop_size_pct c,
                buffer_capacity := hc_buffer_size c, num_request_handling_threads := hc_handler_threads c,
                request_timeout_ms := hc_request_timeout c\<rparr>;
          h = fold conf_output (hc_outputs c) h
      in bindE (conf_recorder fenv (hc_data_recorder c) h)
           (\<lambda>h. Inr (conf_auto_pop
              (h\<lparr>warn_on_timeout := hc_warn_on_timeout c, warn_about_empty_buffer := hc_warn_on_empty_buffer c,
                 periodic_data_transmission_ms := hc_periodic_data_transmission_ms c\<rparr>))))"

definition scrap_rh :: "file_env \<Rightarrow> 'f request_handler \<Rightarrow> 'f request_handler" where
  "scrap_rh fenv h =
     (if w_is_open (buffered_writer h)
      then case close_w fenv (buffered_writer h, disk h) of (w, fs) \<Rightarrow> h\<lparr>buffered_writer := w, disk := fs\<rparr>
      else h)"

text \<open>
  \<open>start\<close> resets the counters it lists, starts the thread pool and sets the run marker. The
  readiness of the senders is only logged.
\<close>

definition start_rh :: "int \<Rightarrow> 'f request_handler \<Rightarrow> 'f request_handler" where
  "start_rh now h =
     h\<lparr>num_requests_found := 0, num_requests_bad := 0, num_requests_old_window := 0,
       num_requests_delayed := 0, num_requests_uncategorized := 0, num_buffer_cleanups := 0,
       num_requests_timed_out := 0, handled_requests := 0, response_time_acc := 0, pop_reqs := 0,
       pops_count := 0, payloads_written := 0, bytes_written := 0, t0 := now, posted := [],
       run_marker := True\<rparr>"

text \<open>
  \<open>stop\<close> clears the run marker and then waits: for a recording that is running, for the loops of the
  other threads, which end when they see the marker, and for the tasks of the pool, which all
  run before the pool is joined. What the tasks, the recording and the loops do meanwhile are steps of
  their own, before the one in which \<open>stop\<close> returns; none of them sets the marker or depends on it
  except the passes over waiting requests, which do nothing once it is cleared. \<open>stop\<close>
  returns in a state in which \<open>rh_threads_done\<close> holds.
\<close>

definition rh_threads_done :: "'f request_handler \<Rightarrow> bool" where
  "rh_threads_done h \<longleftrightarrow> posted h = [] \<and> \<not> recording h"

definition stop_rh :: "'f request_handler \<Rightarrow> 'f request_handler" where
  "stop_rh h = h\<lparr>run_marker := False\<rparr>"

section \<open>Fragments\<close>

definition create_fragment_header :: "('a, 'f) daq_env \<Rightarrow> 'f request_handler \<Rightarrow> DataRequest \<Rightarrow> FragmentHeader" where
  "create_fragment_header D h dr =
     (default_header D)\<lparr>fh_size := sizeof_header D, fh_trigger_number := trigger_number dr,
        fh_trigger_timestamp := trigger_timestamp dr, fh_window_begin := window_begin dr,
        fh_window_end := window_end dr, fh_run_number := run_number dr,
        fh_fragment_type := rdt_fragment_type D, fh_sequence_number := sequence_number dr,
        fh_detector_id := detid h, fh_element_id := sourceid h\<rparr>"

definition set_error_bit :: "nat \<Rightarrow> FragmentHeader \<Rightarrow> FragmentHeader" where
  "set_error_bit n fh = fh\<lparr>fh_error_bits := set_bit n (fh_error_bits fh)\<rparr>"

definition create_empty_fragment :: "('a, 'f) daq_env \<Rightarrow> 'f request_handler \<Rightarrow> DataRequest \<Rightarrow> 'f" where
  "create_empty_fragment D h dr =
     set_header_fields D (set_error_bit (kDataNotFound D) (create_fragment_header D h dr)) (make_fragment D [])"

text \<open>
  What one element contributes to the window from \<open>s\<close> to \<open>e\<close>: nothing when it ends before the
  window, single frames when it is only partly inside, the whole element otherwise.
\<close>

definition element_end :: "'a readout_ops \<Rightarrow> 'a \<Rightarrow> u64" where
  "element_end R x = get_timestamp R x + get_num_frames R x * expected_tick_difference R"

definition element_pieces :: "'a readout_ops \<Rightarrow> u64 \<Rightarrow> u64 \<Rightarrow> 'a \<Rightarrow> 'a piece list" where
  "element_pieces R s e x =
     (if element_end R x \<le> s then []
      else if get_num_frames R x > 1 \<and>
              ((get_timestamp R x < s \<and> element_end R x > s) \<or> element_end R x > e)
      then [(FrameAt x n, get_frame_size R x).
              (n, ts) \<leftarrow> enumerate 0 (frame_timestamps R x),
              ts > s - expected_tick_difference R \<and> ts < e]
      else [(ElementBegin x, get_payload_size R x)])"

text \<open>
  The walk over the elements. The code forms the address \<open>&(*start_iter)\<close> of the record under the iterator
  before it tests the iterator, so also for the end position; nothing is read through that address,
  because the loop tests \<open>good()\<close> first, and the walk here accesses an element only where the loop
  does. (A pass of the deferred post-processing, in contrast, hands such an address on as an element.)
\<close>

partial_function (option) gather_pieces ::
  "'a readout_ops \<Rightarrow> ('b, 'a, 'i) lb_ops \<Rightarrow> 'b \<Rightarrow> u64 \<Rightarrow> u64 \<Rightarrow> 'i \<Rightarrow> 'a piece list \<Rightarrow>
   (fault + 'a piece list) option" where
  "gather_pieces R L b s e start_iter frag_pieces =
     (if \<not> it_good L b start_iter then Some (Inr frag_pieces)
      else case it_deref L b start_iter of
             Inl f \<Rightarrow> Some (Inl f)
           | Inr element \<Rightarrow>
               if get_timestamp R element < e
               then gather_pieces R L b s e (it_next L b start_iter) (frag_pieces @ element_pieces R s e element)
               else Some (Inr frag_pieces))"

definition front_timestamp :: "'a readout_ops \<Rightarrow> ('b, 'a, 'i) lb_ops \<Rightarrow> 'b \<Rightarrow> fault + u64" where
  "front_timestamp R L b =
     bindE (lb_front L b) (\<lambda>p. case p of None \<Rightarrow> Inl NullDeref | Some x \<Rightarrow> Inr (get_timestamp R x))"

definition back_timestamp :: "'a readout_ops \<Rightarrow> ('b, 'a, 'i) lb_ops \<Rightarrow> 'b \<Rightarrow> fault + u64" where
  "back_timestamp R L b =
     bindE (lb_back L b) (\<lambda>p. case p of None \<Rightarrow> Inl NullDeref | Some x \<Rightarrow> Inr (get_timestamp R x))"

definition request_element :: "'a readout_ops \<Rightarrow> u64 \<Rightarrow> 'a" where
  "request_element R start_win_ts =
     (let x = default_element R
      in set_timestamp R (start_win_ts - get_num_frames R x * expected_tick_difference R) x)"

definition get_fragment_pieces ::
  "'a readout_ops \<Rightarrow> ('b, 'a, 'i) lb_ops \<Rightarrow> error_map \<Rightarrow> 'b \<Rightarrow> u64 \<Rightarrow> u64 \<Rightarrow> ResultCode \<Rightarrow>
   (fault + (ResultCode \<times> 'a piece list)) option" where
  "get_fragment_pieces R L reg b start_win_ts end_win_ts rc =
     (case bindE (front_timestamp R L b) (\<lambda>f. bindE (back_timestamp R L b) (\<lambda>n. Inr (f, n))) of
        Inl f \<Rightarrow> Some (Inl f)
      | Inr (last_ts, newest_ts) \<Rightarrow>
          if start_win_ts > newest_ts then Some (Inr (kNotYet, []))
          else if end_win_ts < last_ts then Some (Inr (kTooOld, []))
          else
            case lb_lower_bound L (request_element R start_win_ts) (has_error ''MISSING_FRAMES'' reg) b of
              None \<Rightarrow> None
            | Some (Inl f) \<Rightarrow> Some (Inl f)
            | Some (Inr start_iter) \<Rightarrow>
                if \<not> it_good L b start_iter then Some (Inr (kNotFound, []))
                else
                  let code = (if end_win_ts > newest_ts then kPartial
                              else if start_win_ts < last_ts then kPartiallyOld
                              else kFound)
                  in case gather_pieces R L b start_win_ts end_win_ts start_iter [] of
                       None \<Rightarrow> None
                     | Some (Inl f) \<Rightarrow> Some (Inl f)
                     | Some (Inr pieces) \<Rightarrow> Some (Inr (code, pieces)))"

section \<open>Answering a request\<close>

text \<open>How the outcome of the search is counted and marked in the header.\<close>

fun mark_result :: "('a, 'f) daq_env \<Rightarrow> ResultCode \<Rightarrow> FragmentHeader \<Rightarrow> FragmentHeader" where
  "mark_result D kTooOld fh = set_error_bit (kDataNotFound D) fh"
| "mark_result D kPartiallyOld fh = set_error_bit (kDataNotFound D) (set_error_bit (kIncomplete D) fh)"
| "mark_result D kFound fh = fh"
| "mark_result D kPartial fh = set_error_bit (kIncomplete D) fh"
| "mark_result D kNotYet fh = set_error_bit (kDataNotFound D) fh"
| "mark_result D _ fh = set_error_bit (kDataNotFound D) fh"

fun count_result :: "ResultCode \<Rightarrow> 'f request_handler \<Rightarrow> 'f request_handler" where
  "count_result kTooOld h =
     h\<lparr>num_requests_old_window := num_requests_old_window h + 1, num_requests_bad := num_requests_bad h + 1\<rparr>"
| "count_result kPartiallyOld h =
     h\<lparr>num_requests_old_window := num_requests_old_window h + 1, num_requests_found := num_requests_found h + 1\<rparr>"
| "count_result kFound h = h\<lparr>num_requests_found := num_requests_found h + 1\<rparr>"
| "count_result kPartial h = h\<lparr>num_requests_delayed := num_requests_delayed h + 1\<rparr>"
| "count_result kNotYet h = h\<lparr>num_requests_delayed := num_requests_delayed h + 1\<rparr>"
| "count_result _ h = h\<lparr>num_requests_bad := num_requests_bad h + 1\<rparr>"

definition emit :: "'f rh_event \<Rightarrow> 'f request_handler \<Rightarrow> 'f request_handler" where
  "emit ev h = h\<lparr>events := events h @ [ev]\<rparr>"

definition finish_fragment ::
  "('a, 'f) daq_env \<Rightarrow> DataRequest \<Rightarrow> ResultCode \<Rightarrow> FragmentHeader \<Rightarrow> 'a piece list \<Rightarrow> 'f RequestResult" where
  "finish_fragment D dr rc fh pieces =
     \<lparr>result_code = rc, data_request_of = dr, fragment = set_header_fields D fh (make_fragment D pieces)\<rparr>"

definition data_request ::
  "'a readout_ops \<Rightarrow> ('b, 'a, 'i) lb_ops \<Rightarrow> ('a, 'f) daq_env \<Rightarrow> DataRequest \<Rightarrow> 'b \<Rightarrow> 'f request_handler \<Rightarrow>
   (fault + ('f RequestResult \<times> 'f request_handler)) option" where
  "data_request R L D dr b h =
     (let frag_header = create_fragment_header D h dr
      in if lb_occupancy L b = 0
         then let h = (if warn_about_empty_buffer h then emit RequestOnEmptyBuffer h else h)
              in Some (Inr (finish_fragment D dr kNotFound (set_error_bit (kDataNotFound D) frag_header) [],
                            h\<lparr>num_requests_bad := num_requests_bad h + 1\<rparr>))
         else case get_fragment_pieces R L (error_registry h) b (window_begin dr) (window_end dr) kUnknown of
                None \<Rightarrow> None
              | Some (Inl f) \<Rightarrow> Some (Inl f)
              | Some (Inr (rc, frag_pieces)) \<Rightarrow>
                  Some (Inr (finish_fragment D dr rc (mark_result D rc frag_header) frag_pieces, count_result rc h)))"

text \<open>
  \<open>issue_request\<close> posts a task to the thread pool. The task waits until no cleanup is requested,
  counts itself as running while it reads the buffer, and then either keeps the request for
  later or sends the fragment. Times are in microseconds: \<open>now\<close> is when the request is kept,
  \<open>took\<close> the duration of the task.
\<close>

definition issue_request :: "DataRequest \<Rightarrow> bool \<Rightarrow> 'f request_handler \<Rightarrow> 'f request_handler" where
  "issue_request datarequest is_retry h = h\<lparr>posted := posted h @ [(datarequest, is_retry)]\<rparr>"

definition respond ::
  "('a, 'f) daq_env \<Rightarrow> int \<Rightarrow> DataRequest \<Rightarrow> bool \<Rightarrow> 'f RequestResult \<Rightarrow> 'f request_handler \<Rightarrow> 'f request_handler" where
  "respond D now datarequest is_retry result h =
     (if (result_code result = kNotYet \<or> result_code result = kPartial) \<and> sint (request_timeout_ms h) > 0 \<and>
         \<not> is_retry
      then h\<lparr>waiting_requests := waiting_requests h @ [\<lparr>request = datarequest, start_time = now\<rparr>]\<rparr>
      else if send_ok D (data_destination datarequest) (fragment result)
      then emit (FragmentSent (data_destination datarequest) (fragment result)) h
      else emit (CannotWriteToQueue (data_destination datarequest)) h)"

definition account_response :: "int \<Rightarrow> 'f request_handler \<Rightarrow> 'f request_handler" where
  "account_response took h =
     h\<lparr>response_time_acc := response_time_acc h + word_of_int took,
       response_time_max := (if took > sint (response_time_max h) then word_of_int took else response_time_max h),
       response_time_min := (if took < sint (response_time_min h) then word_of_int took else response_time_min h),
       handled_requests := handled_requests h + 1\<rparr>"

definition request_task ::
  "'a readout_ops \<Rightarrow> ('b, 'a, 'i) lb_ops \<Rightarrow> ('a, 'f) daq_env \<Rightarrow> int \<Rightarrow> int \<Rightarrow> DataRequest \<Rightarrow> bool \<Rightarrow> 'b \<Rightarrow>
   'f request_handler \<Rightarrow> (fault + 'f request_handler) option" where
  "request_task R L D now took datarequest is_retry b h =
     (let h = h\<lparr>requests_running := requests_running h + 1\<rparr>
      in case data_request R L D datarequest b h of
           None \<Rightarrow> None
         | Some (Inl f) \<Rightarrow> Some (Inl f)
         | Some (Inr (result, h)) \<Rightarrow>
             let h = h\<lparr>requests_running := requests_running h - 1\<rparr>
             in Some (Inr (account_response took (respond D now datarequest is_retry result h))))"

text \<open>
  One pass over the waiting requests: those whose window is now covered are issued again, and so
  are those that waited too long.
\<close>

fun check_waiting_loop :: "int \<Rightarrow> u64 \<Rightarrow> RequestElement list \<Rightarrow> 'f request_handler \<Rightarrow> RequestElement list \<times> 'f request_handler"
where
  "check_waiting_loop now newest_ts [] h = ([], h)"
| "check_waiting_loop now newest_ts (w # ws) h =
     (if window_end (request w) < newest_ts
      then check_waiting_loop now newest_ts ws (issue_request (request w) True h)
      else if (now - start_time w) div 1000 \<ge> sint (request_timeout_ms h)
      then let h = issue_request (request w) True h;
               h = (if warn_on_timeout h then emit (VerboseRequestTimedOut (request w)) h else h)
           in check_waiting_loop now newest_ts ws
                (h\<lparr>num_requests_bad := num_requests_bad h + 1, num_requests_timed_out := num_requests_timed_out h + 1\<rparr>)
      else case check_waiting_loop now newest_ts ws h of (rest, h) \<Rightarrow> (w # rest, h))"

definition check_waiting_requests ::
  "'a readout_ops \<Rightarrow> ('b, 'a, 'i) lb_ops \<Rightarrow> int \<Rightarrow> 'b \<Rightarrow> 'f request_handler \<Rightarrow> fault + 'f request_handler" where
  "check_waiting_requests R L now b h =
     (if \<not> run_marker h then Inr h
      else if waiting_requests h = [] then Inr h
      else bindE (lb_back L b) (\<lambda>last_frame.
             let newest_ts = (case last_frame of None \<Rightarrow> 0 | Some x \<Rightarrow> get_timestamp R x)
             in case check_waiting_loop now newest_ts (waiting_requests h) h of
                  (ws, h) \<Rightarrow> Inr (h\<lparr>waiting_requests := ws\<rparr>)))"

section \<open>Cleanup\<close>

fun pop_loop ::
  "'a readout_ops \<Rightarrow> ('b, 'a, 'i) lb_ops \<Rightarrow> u64 \<Rightarrow> nat \<Rightarrow> u32 \<Rightarrow> 'b \<Rightarrow> fault + (u32 \<times> 'b)" where
  "pop_loop R L limit_ts 0 popped b = Inr (popped, b)"
| "pop_loop R L limit_ts (Suc n) popped b =
     bindE (front_timestamp R L b) (\<lambda>ts.
       if ts < limit_ts then bindE (lb_pop L 1 b) (pop_loop R L limit_ts n (popped + 1))
       else Inr (popped, b))"

definition cleanup_rh ::
  "'a readout_ops \<Rightarrow> ('b, 'a, 'i) lb_ops \<Rightarrow> 'b \<times> 'f request_handler \<Rightarrow> fault + ('b \<times> 'f request_handler)" where
  "cleanup_rh R L = (\<lambda>(b, h).
     bindE
       (if lb_occupancy L b > ucast (pop_limit_size h)
        then let h = h\<lparr>pop_reqs := pop_reqs h + 1\<rparr>;
                 to_pop = of_nat (scaled_count (pop_size_pct h) (unat (lb_occupancy L b))) :: u32
             in bindE (pop_loop R L (next_timestamp_to_record h) (unat to_pop) 0 b) (\<lambda>(popped, b).
                let h = h\<lparr>rh_occupancy := ucast (lb_occupancy L b), pops_count := pops_count h + popped\<rparr>
                in bindE (front_timestamp R L b) (\<lambda>ts.
                   Inr (b, h\<lparr>error_registry := remove_errors_until ts (error_registry h)\<rparr>)))
        else Inr (b, h))
       (\<lambda>(b, h). Inr (b, h\<lparr>num_buffer_cleanups := num_buffer_cleanups h + 1\<rparr>)))"

text \<open>
  The check the periodic thread makes; it runs the cleanup when no request is running (the wait
  on the condition variable is the subject of \<open>Cleanup_Protocol\<close>).
\<close>

definition cleanup_check ::
  "'a readout_ops \<Rightarrow> ('b, 'a, 'i) lb_ops \<Rightarrow> 'b \<times> 'f request_handler \<Rightarrow> fault + ('b \<times> 'f request_handler)" where
  "cleanup_check R L = (\<lambda>(b, h).
     if lb_occupancy L b > ucast (pop_limit_size h) \<and> \<not> cleanup_requested h
     then bindE (cleanup_rh R L (b, h\<lparr>cleanup_requested := True\<rparr>))
            (\<lambda>(b, h). Inr (b, h\<lparr>cleanup_requested := False\<rparr>))
     else Inr (b, h))"

definition periodic_data_transmission :: "'f request_handler \<Rightarrow> 'f request_handler" where
  "periodic_data_transmission h = h"

text \<open>
  The two periodic threads: a round, then a sleep, as long as the run marker is set. The list holds
  what the other threads do to the buffer and the handler during each sleep.
\<close>

fun periodic_cleanups ::
  "'a readout_ops \<Rightarrow> ('b, 'a, 'i) lb_ops \<Rightarrow> ('b \<times> 'f request_handler \<Rightarrow> 'b \<times> 'f request_handler) list \<Rightarrow>
   'b \<times> 'f request_handler \<Rightarrow> fault + ('b \<times> 'f request_handler)" where
  "periodic_cleanups R L [] s = Inr s"
| "periodic_cleanups R L (sleep # sleeps) s =
     (if \<not> run_marker (snd s) then Inr s
      else bindE (cleanup_check R L s) (\<lambda>s. periodic_cleanups R L sleeps (sleep s)))"

fun periodic_data_transmissions ::
  "('f request_handler \<Rightarrow> 'f request_handler) list \<Rightarrow> 'f request_handler \<Rightarrow> 'f request_handler" where
  "periodic_data_transmissions [] h = h"
| "periodic_data_transmissions (sleep # sleeps) h =
     (if \<not> run_marker h then h else periodic_data_transmissions sleeps (sleep (periodic_data_transmission h)))"

section \<open>Recording\<close>

text \<open>
  The recording task, by its parts: what it does before its loop, one round of the loop (which
  looks up the next timestamp and writes up to 1000 elements), and what it does after the
  duration is over. \<open>record\<close> itself refuses when a recording runs or no file is open.
\<close>

definition record_chunk ::
  "'a readout_ops \<Rightarrow> ('a, 'f) daq_env \<Rightarrow> file_env \<Rightarrow> 'a \<Rightarrow> 'f request_handler \<Rightarrow> 'f request_handler" where
  "record_chunk R D fenv x h =
     (case write_w fenv (take (unat (get_payload_size R x)) (payload_bytes D x)) (buffered_writer h) of
        (ok, w) \<Rightarrow>
          let h = h\<lparr>buffered_writer := w\<rparr>;
              h = (if ok then h else emit (CannotWriteToFile (output_file h)) h)
          in h\<lparr>payloads_written := payloads_written h + 1,
               bytes_written := bytes_written h + ucast (get_payload_size R x),
               next_timestamp_to_record := element_end R x\<rparr>)"

partial_function (option) record_loop ::
  "'a readout_ops \<Rightarrow> ('b, 'a, 'i) lb_ops \<Rightarrow> ('a, 'f) daq_env \<Rightarrow> file_env \<Rightarrow> 'b \<Rightarrow> 'i \<Rightarrow> nat \<Rightarrow> 'f request_handler \<Rightarrow>
   (fault + 'f request_handler) option" where
  "record_loop R L D fenv b chunk_iter processed h =
     (if chunk_iter = lb_end L b \<or> \<not> it_good L b chunk_iter \<or> processed \<ge> 1000 then Some (Inr h)
      else case it_deref L b chunk_iter of
             Inl f \<Rightarrow> Some (Inl f)
           | Inr x \<Rightarrow>
               if get_timestamp R x \<ge> next_timestamp_to_record h
               then record_loop R L D fenv b (it_next L b chunk_iter) (processed + 1) (record_chunk R D fenv x h)
               else record_loop R L D fenv b (it_next L b chunk_iter) processed h)"

definition record_begin :: "'f request_handler \<Rightarrow> 'f request_handler" where
  "record_begin h = h\<lparr>recording := True, next_timestamp_to_record := 0\<rparr>"

definition record_round ::
  "'a readout_ops \<Rightarrow> ('b, 'a, 'i) lb_ops \<Rightarrow> ('a, 'f) daq_env \<Rightarrow> file_env \<Rightarrow> 'b \<Rightarrow> 'f request_handler \<Rightarrow>
   (fault + 'f request_handler) option" where
  "record_round R L D fenv b h =
     (if \<not> cleanup_requested h \<or> next_timestamp_to_record h = 0
      then case (if next_timestamp_to_record h = 0
                 then bindE (lb_front L b) (\<lambda>p. Inr (case p of None \<Rightarrow> 0 | Some x \<Rightarrow> get_timestamp R x))
                 else Inr (next_timestamp_to_record h)) of
             Inl f \<Rightarrow> Some (Inl f)
           | Inr next_ts \<Rightarrow>
               let h = h\<lparr>next_timestamp_to_record := next_ts\<rparr>
               in case lb_lower_bound L (set_timestamp R next_ts (uninit_element R)) True b of
                    None \<Rightarrow> None
                  | Some (Inl f) \<Rightarrow> Some (Inl f)
                  | Some (Inr chunk_iter) \<Rightarrow> record_loop R L D fenv b chunk_iter 0 h
      else Some (Inr h))"

definition record_end :: "file_env \<Rightarrow> 'f request_handler \<Rightarrow> 'f request_handler" where
  "record_end fenv h =
     (let h = h\<lparr>next_timestamp_to_record := UINT64_MAX, recording := False\<rparr>
      in case flush_w fenv (buffered_writer h, disk h) of (w, fs) \<Rightarrow> h\<lparr>buffered_writer := w, disk := fs\<rparr>)"

definition record_accepted :: "'f request_handler \<Rightarrow> bool \<times> 'f request_handler" where
  "record_accepted h =
     (if recording h then (False, emit RecordingStillRunning h)
      else if \<not> w_is_open (buffered_writer h) then (False, emit NotConfiguredForRecording h)
      else (True, h))"

text \<open>The command: when it is accepted, the recording thread gets its work and begins.\<close>

definition record_command :: "'f request_handler \<Rightarrow> 'f request_handler" where
  "record_command h = (case record_accepted h of (True, h) \<Rightarrow> record_begin h | (False, h) \<Rightarrow> h)"

section \<open>Monitoring\<close>

record request_handler_info =
  info_num_requests_handled :: int
  info_num_requests_found :: int
  info_num_requests_bad :: int
  info_num_requests_old_window :: int
  info_num_requests_delayed :: int
  info_num_requests_uncategorized :: int
  info_num_requests_timed_out :: int
  info_num_requests_waiting :: nat
  info_tot_request_response_time :: int
  info_max_request_response_time :: int
  info_min_request_response_time :: int
  info_avg_request_response_time :: int
  info_num_buffer_cleanups :: int
  info_num_periodic_sent :: nat
  info_num_periodic_send_failed :: nat
  info_recording_status :: string
  info_packets_recorded :: int
  info_bytes_recorded :: int

text \<open>
  Each counter is read and reset in one step. The average is the quotient of two of the values
  just read, rounded towards 0, and 0 when no request was handled.
\<close>

definition generate_opmon_data :: "int \<Rightarrow> 'f request_handler \<Rightarrow> request_handler_info \<times> 'f request_handler" where
  "generate_opmon_data now h =
     (\<lparr>info_num_requests_handled = sint (handled_requests h), info_num_requests_found = sint (num_requests_found h),
       info_num_requests_bad = sint (num_requests_bad h),
       info_num_requests_old_window = sint (num_requests_old_window h),
       info_num_requests_delayed = sint (num_requests_delayed h),
       info_num_requests_uncategorized = sint (num_requests_uncategorized h),
       info_num_requests_timed_out = sint (num_requests_timed_out h),
       info_num_requests_waiting = length (waiting_requests h),
       info_tot_request_response_time = sint (response_time_acc h),
       info_max_request_response_time = sint (response_time_max h),
       info_min_request_response_time = sint (response_time_min h),
       info_avg_request_response_time =
         (if sint (handled_requests h) > 0
          then sgn (sint (response_time_acc h)) * (\<bar>sint (response_time_acc h)\<bar> div sint (handled_requests h)) else 0),
       info_num_buffer_cleanups = sint (num_buffer_cleanups h),
       info_num_periodic_sent = unat (num_periodic_sent h),
       info_num_periodic_send_failed = unat (num_periodic_send_failed h),
       info_recording_status = (if recording h then ''Y'' else ''N''),
       info_packets_recorded = sint (payloads_written h), info_bytes_recorded = sint (bytes_written h)\<rparr>,
      h\<lparr>handled_requests := 0, num_requests_found := 0, num_requests_bad := 0, num_requests_old_window := 0,
        num_requests_delayed := 0, num_requests_uncategorized := 0, num_requests_timed_out := 0,
        response_time_acc := 0, response_time_max := 0, response_time_min := INT_MAX, pop_reqs := 0,
        pops_count := 0, t0 := now, num_buffer_cleanups := 0, num_periodic_sent := 0,
        num_periodic_send_failed := 0, payloads_written := 0, bytes_written := 0\<rparr>)"

end
