(* ===== verification/Request_Contract.thy ===== *)
theory Request_Contract
  imports Request_Handler
begin

text \<open>
  What the request handler promises. Answering: the fragment of a request holds exactly the
  frames of the buffered elements that overlap the window, and the result code tells how much of
  the window the buffer covers. Cleaning up: only old, already recorded elements are removed,
  oldest first, and the buffer is never emptied.
\<close>

section \<open>The reference answer\<close>

text \<open>
  The pieces for a window, cut from a whole list of elements: every element that begins before
  the end of the window and ends after its beginning contributes.
\<close>

definition window_pieces :: "'a readout_ops \<Rightarrow> u64 \<Rightarrow> u64 \<Rightarrow> 'a list \<Rightarrow> 'a piece list" where
  "window_pieces R s e xs =
     concat (map (element_pieces R s e) (filter (\<lambda>x. get_timestamp R x < e \<and> s < element_end R x) xs))"

text \<open>
  Elements of equal span: each holds as many frames as a default element, and ends within 64 bits.
\<close>

definition default_span :: "'a readout_ops \<Rightarrow> u64" where
  "default_span R = get_num_frames R (default_element R) * expected_tick_difference R"

definition uniform_span :: "'a readout_ops \<Rightarrow> 'a list \<Rightarrow> bool" where
  "uniform_span R xs \<longleftrightarrow>
     (\<forall>x \<in> set xs. get_num_frames R x = get_num_frames R (default_element R) \<and>
                   unat (get_timestamp R x) + unat (default_span R) < 2 ^ 64)"

lemma element_pieces_before: "element_end R x \<le> s \<Longrightarrow> element_pieces R s e x = []"
  by (simp add: element_pieces_def)

lemma window_pieces_filter_begin:
  "window_pieces R s e xs = concat (map (element_pieces R s e) (filter (\<lambda>x. get_timestamp R x < e) xs))"
  unfolding window_pieces_def
  by (induction xs) (auto simp: element_pieces_before not_less)

lemma window_pieces_append: "window_pieces R s e (xs @ ys) = window_pieces R s e xs @ window_pieces R s e ys"
  by (simp add: window_pieces_def)

lemma window_pieces_before: "\<forall>x \<in> set xs. element_end R x \<le> s \<Longrightarrow> window_pieces R s e xs = []"
  by (induction xs) (auto simp: window_pieces_def not_less)

lemma takeWhile_sorted_filter:
  "ts_sorted R xs \<Longrightarrow> takeWhile (\<lambda>x. get_timestamp R x < e) xs = filter (\<lambda>x. get_timestamp R x < e) xs"
proof (induction xs)
  case (Cons x xs)
  then have "ts_sorted R xs" and later: "\<forall>y \<in> set xs. get_timestamp R x < get_timestamp R y"
    by (auto simp: ts_sorted_def)
  moreover have "filter (\<lambda>x. get_timestamp R x < e) xs = []" if "\<not> get_timestamp R x < e"
    using later that by (fastforce simp: filter_empty_conv)
  ultimately show ?case using Cons.IH by auto
qed simp

lemma unat_element_end:
  "uniform_span R xs \<Longrightarrow> x \<in> set xs \<Longrightarrow>
   unat (element_end R x) = unat (get_timestamp R x) + unat (default_span R)"
  by (auto simp: uniform_span_def element_end_def default_span_def unat_plus_if')

lemma ts_sorted_drop: "ts_sorted R xs \<Longrightarrow> ts_sorted R (drop k xs)"
  by (auto simp: ts_sorted_def sorted_wrt_drop)

lemma ts_sorted_hd_le: "ts_sorted R xs \<Longrightarrow> x \<in> set xs \<Longrightarrow> get_timestamp R (hd xs) \<le> get_timestamp R x"
  by (cases xs) (auto simp: ts_sorted_def)

lemma ts_sorted_le_last: "ts_sorted R xs \<Longrightarrow> x \<in> set xs \<Longrightarrow> get_timestamp R x \<le> get_timestamp R (last xs)"
proof -
  assume srt: "ts_sorted R xs" and "x \<in> set xs"
  then obtain i where "i < length xs" "x = xs ! i" by (auto simp: in_set_conv_nth)
  then show ?thesis using ts_sorted_le [OF srt, of i "length xs - 1"] by (cases xs) (auto simp: last_conv_nth)
qed

text \<open>Elements before the lower bound of \<open>s - span\<close> end before \<open>s\<close>.\<close>

lemma before_lower_bound:
  assumes "uniform_span R xs" and "default_span R \<le> s" and "x \<in> set (take (lb_index R (s - default_span R) xs) xs)"
  shows "element_end R x \<le> s"
proof -
  have x: "x \<in> set xs" using assms(3) by (rule in_set_takeD)
  obtain j where j: "j < lb_index R (s - default_span R) xs" "x = xs ! j"
    using assms(3) by (auto simp: in_set_conv_nth)
  have "unat (get_timestamp R x) < unat (s - default_span R)"
    using lb_index_below [OF j(1)] j(2) by (simp add: word_less_nat_alt)
  then show ?thesis
    using unat_element_end [OF assms(1) x] assms(2) by (simp add: word_le_nat_alt unat_sub)
qed

section \<open>Gathering the pieces\<close>

context latency_buffer
begin

lemma gather_pieces_takeWhile:
  "lb_inv b \<Longrightarrow> lb_pos b i k \<Longrightarrow>
   gather_pieces R L b s e i acc =
     Some (Inr (acc @ concat (map (element_pieces R s e) (takeWhile (\<lambda>x. get_timestamp R x < e) (drop k (elements b))))))"
proof (induction "length (elements b) - k" arbitrary: i k acc)
  case 0
  then have "length (elements b) \<le> k" by simp
  then show ?case
    using good_pos [OF 0(2,3)] by (subst gather_pieces.simps) simp
next
  case (Suc n)
  then have k: "k < length (elements b)" by simp
  have good: "it_good L b i" using good_pos [OF Suc.prems] k by simp
  have x: "it_deref L b i = Inr (elements b ! k)" by (rule deref_pos [OF Suc.prems k])
  have d: "drop k (elements b) = elements b ! k # drop (k + 1) (elements b)"
    using Cons_nth_drop_Suc [OF k] by simp
  show ?case
  proof (cases "get_timestamp R (elements b ! k) < e")
    case True
    have "n = length (elements b) - (k + 1)" using Suc(2) by simp
    from Suc.hyps(1) [OF this Suc.prems(1) next_pos [OF Suc.prems k]] show ?thesis
      using good x d True by (subst gather_pieces.simps) simp
  next
    case False
    then show ?thesis using good x d by (subst gather_pieces.simps) simp
  qed
qed

lemma timestamps_of_ends:
  "lb_inv b \<Longrightarrow> elements b \<noteq> [] \<Longrightarrow>
   front_timestamp R L b = Inr (get_timestamp R (hd (elements b))) \<and>
   back_timestamp R L b = Inr (get_timestamp R (last (elements b)))"
  by (simp add: front_timestamp_def back_timestamp_def front_elements back_elements)

end

section \<open>Answering a request\<close>

text \<open>
  A window the search can serve: it begins at least one element span after the oldest element
  begins.
\<close>

definition window_reachable :: "'a readout_ops \<Rightarrow> u64 \<Rightarrow> 'a list \<Rightarrow> bool" where
  "window_reachable R s xs \<longleftrightarrow> default_span R \<le> s \<and> \<not> elem_less R (request_element R s) (hd xs)"

definition coverage_code :: "'a readout_ops \<Rightarrow> u64 \<Rightarrow> u64 \<Rightarrow> 'a list \<Rightarrow> ResultCode" where
  "coverage_code R s e xs =
     (if get_timestamp R (last xs) < s then kNotYet
      else if e < get_timestamp R (hd xs) then kTooOld
      else if get_timestamp R (last xs) < e then kPartial
      else kFound)"

context latency_buffer
begin

text \<open>The answer when the search is at a position before which every element ends before the window.\<close>

lemma get_fragment_pieces_at:
  assumes inv: "lb_inv b" and srt: "ts_sorted R (elements b)" and ne: "elements b \<noteq> []"
    and i: "lb_lower_bound L (request_element R s) (has_error ''MISSING_FRAMES'' reg) b = Some (Inr i)" "lb_pos b i k"
    and inside: "s \<le> get_timestamp R (last (elements b)) \<Longrightarrow> k < length (elements b)"
    and before: "\<And>x. x \<in> set (take k (elements b)) \<Longrightarrow> element_end R x \<le> s"
    and start: "get_timestamp R (hd (elements b)) \<le> s"
  shows "get_fragment_pieces R L reg b s e rc =
         Some (Inr (coverage_code R s e (elements b),
                    if coverage_code R s e (elements b) \<in> {kFound, kPartial}
                    then window_pieces R s e (elements b) else []))"
proof -
  let ?xs = "elements b"
  have "window_pieces R s e (take k ?xs) = []" using before by (intro window_pieces_before) auto
  then have "window_pieces R s e (drop k ?xs) = window_pieces R s e ?xs"
    using window_pieces_append [of R s e "take k ?xs" "drop k ?xs"] by simp
  then have g: "gather_pieces R L b s e i [] = Some (Inr (window_pieces R s e ?xs))"
    using gather_pieces_takeWhile [OF inv i(2), of R s e "[]"]
    by (simp add: takeWhile_sorted_filter [OF ts_sorted_drop [OF srt]] window_pieces_filter_begin)
  have good: "it_good L b i" if "s \<le> get_timestamp R (last ?xs)" using good_pos [OF inv i(2)] inside [OF that] by simp
  have "\<not> s < get_timestamp R (hd ?xs)" using start by simp
  then show ?thesis
    using timestamps_of_ends [OF inv ne, of R] i(1) g good
    by (auto simp: get_fragment_pieces_def coverage_code_def Let_def not_less)
qed

end

context searchable_buffer
begin

lemma request_element_ts: "get_timestamp R (request_element R s) = s - default_span R"
  by (simp add: request_element_def default_span_def get_set_timestamp Let_def)

lemma reachable_begin:
  assumes "uniform_span R xs" and "xs \<noteq> []" and "window_reachable R s xs"
  shows "get_timestamp R (hd xs) \<le> s"
proof -
  have "get_timestamp R (hd xs) \<le> s - default_span R"
    using assms(3) not_less_ts request_element_ts by (metis window_reachable_def)
  moreover have "s - default_span R \<le> s"
    using assms(3) by (simp add: window_reachable_def word_sub_le)
  ultimately show ?thesis by simp
qed

lemma get_fragment_pieces_reachable:
  assumes inv: "lb_inv b" and ready: "search_ready (has_error ''MISSING_FRAMES'' reg) (elements b)"
    and ne: "elements b \<noteq> []" and uni: "uniform_span R (elements b)" and w: "window_reachable R s (elements b)"
  shows "get_fragment_pieces R L reg b s e rc =
         Some (Inr (coverage_code R s e (elements b),
                    if coverage_code R s e (elements b) \<in> {kFound, kPartial}
                    then window_pieces R s e (elements b) else []))"
proof -
  let ?xs = "elements b" and ?t = "s - default_span R"
  let ?k = "lb_index R ?t ?xs"
  have srt: "ts_sorted R ?xs" by (rule ready_sorted [OF ready])
  obtain i where i: "lb_lower_bound L (request_element R s) (has_error ''MISSING_FRAMES'' reg) b = Some (Inr i)"
      "lb_pos b i ?k"
    using lower_bound_pos [OF inv ready ne, of "request_element R s"] w
    by (auto simp: window_reachable_def request_element_ts)
  have le: "?t \<le> s" using w by (simp add: window_reachable_def word_sub_le)
  have "?k < length ?xs" if "s \<le> get_timestamp R (last ?xs)"
  proof -
    have "?k \<noteq> length ?xs"
      using lb_index_below [of "length ?xs - 1" R ?t ?xs] ne le that by (auto simp: last_conv_nth)
    then show ?thesis by (simp add: order_less_le lb_index_le)
  qed
  moreover have "element_end R x \<le> s" if "x \<in> set (take ?k ?xs)" for x
    using before_lower_bound [OF uni] w that by (auto simp: window_reachable_def)
  ultimately show ?thesis
    by (intro get_fragment_pieces_at [OF inv srt ne i]) (use reachable_begin [OF uni ne w] in auto)
qed

lemma data_request_reachable:
  fixes dr :: DataRequest
  assumes inv: "lb_inv b" and ready: "search_ready (has_error ''MISSING_FRAMES'' (error_registry h)) (elements b)"
    and ne: "elements b \<noteq> []" and uni: "uniform_span R (elements b)"
    and w: "window_reachable R (window_begin dr) (elements b)"
  defines "rc \<equiv> coverage_code R (window_begin dr) (window_end dr) (elements b)"
  shows "data_request R L D dr b h =
           Some (Inr (finish_fragment D dr rc (mark_result D rc (create_fragment_header D h dr))
                        (if rc \<in> {kFound, kPartial}
                         then window_pieces R (window_begin dr) (window_end dr) (elements b) else []),
                      count_result rc h))"
proof -
  have "unat (lb_occupancy L b) \<noteq> 0" using occupancy_elements [OF inv] ne by simp
  then have occ: "lb_occupancy L b \<noteq> 0" by auto
  then show ?thesis
    using get_fragment_pieces_reachable [OF inv ready ne uni w, of "window_end dr" kUnknown]
    unfolding rc_def by (simp add: data_request_def Let_def)
qed

end

section \<open>Which frames a fragment holds\<close>

text \<open>
  Elements made of frames one tick difference apart; the frames of an element a piece points at.
\<close>

definition regular_frames :: "'a readout_ops \<Rightarrow> 'a \<Rightarrow> bool" where
  "regular_frames R x \<longleftrightarrow>
     0 < get_num_frames R x \<and> length (frame_timestamps R x) = unat (get_num_frames R x) \<and>
     (\<forall>j < length (frame_timestamps R x).
        unat (frame_timestamps R x ! j) = unat (get_timestamp R x) + j * unat (expected_tick_difference R)) \<and>
     unat (get_timestamp R x) + unat (get_num_frames R x) * unat (expected_tick_difference R) < 2 ^ 64"

fun piece_frames :: "'a readout_ops \<Rightarrow> 'a piece \<Rightarrow> ('a \<times> nat) set" where
  "piece_frames R (ElementBegin x, sz) = {x} \<times> {..<length (frame_timestamps R x)}"
| "piece_frames R (FrameAt x n, sz) = {(x, n)}"

definition frame_overlaps :: "'a readout_ops \<Rightarrow> u64 \<Rightarrow> u64 \<Rightarrow> 'a \<Rightarrow> nat \<Rightarrow> bool" where
  "frame_overlaps R s e x j \<longleftrightarrow>
     unat (frame_timestamps R x ! j) < unat e \<and>
     unat s < unat (frame_timestamps R x ! j) + unat (expected_tick_difference R)"

definition frames_in_window :: "'a readout_ops \<Rightarrow> u64 \<Rightarrow> u64 \<Rightarrow> 'a list \<Rightarrow> ('a \<times> nat) set" where
  "frames_in_window R s e xs =
     {(x, j). x \<in> set xs \<and> j < length (frame_timestamps R x) \<and> frame_overlaps R s e x j}"

lemma unat_regular_end:
  assumes "regular_frames R x"
  shows "unat (element_end R x) =
         unat (get_timestamp R x) + unat (get_num_frames R x) * unat (expected_tick_difference R)"
proof -
  have "unat (get_num_frames R x * expected_tick_difference R) =
      unat (get_num_frames R x) * unat (expected_tick_difference R)"
    using assms by (intro unat_mult_u64) (simp add: regular_frames_def)
  then show ?thesis
    using assms by (simp add: regular_frames_def element_end_def unat_plus_if')
qed

lemma frame_within_element:
  assumes "regular_frames R x" and "j < length (frame_timestamps R x)"
  shows "unat (get_timestamp R x) \<le> unat (frame_timestamps R x ! j)"
    and "unat (frame_timestamps R x ! j) + unat (expected_tick_difference R) \<le> unat (element_end R x)"
proof -
  let ?t = "unat (expected_tick_difference R)"
  have f: "unat (frame_timestamps R x ! j) = unat (get_timestamp R x) + j * ?t"
    using assms by (simp add: regular_frames_def)
  then show "unat (get_timestamp R x) \<le> unat (frame_timestamps R x ! j)" by simp
  have "(j + 1) * ?t \<le> unat (get_num_frames R x) * ?t"
    using assms by (intro mult_le_mono1) (simp add: regular_frames_def)
  then show "unat (frame_timestamps R x ! j) + ?t \<le> unat (element_end R x)"
    using f unat_regular_end [OF assms(1)] by simp
qed

lemma frame_selected:
  assumes "regular_frames R x" and "expected_tick_difference R \<le> s"
  shows "ts > s - expected_tick_difference R \<and> ts < e \<longleftrightarrow>
         unat ts < unat e \<and> unat s < unat ts + unat (expected_tick_difference R)"
  using assms by (auto simp: word_less_nat_alt word_le_nat_alt unat_sub)

lemma set_enumerate_pieces:
  "(\<Union>p \<in> set [(FrameAt x n, sz). (n, ts) \<leftarrow> enumerate 0 fs, P ts]. piece_frames R p) =
   {(x, j) |j. j < length fs \<and> P (fs ! j)}" (is "\<Union> (_ ` set ?ps) = _")
proof -
  have "set ?ps = (\<lambda>n. (FrameAt x n, sz)) ` {n. n < length fs \<and> P (fs ! n)}"
  proof (induction fs rule: rev_induct)
    case (snoc y ys)
    have "{n. n < length (ys @ [y]) \<and> P ((ys @ [y]) ! n)} =
        {n. n < length ys \<and> P (ys ! n)} \<union> (if P y then {length ys} else {})"
      by (auto simp: nth_append less_Suc_eq split: if_splits)
    then show ?case using snoc by (auto simp: enumerate_append_eq)
  qed simp
  then show ?thesis by auto
qed

lemma element_pieces_frames:
  assumes reg: "regular_frames R x" and tick: "expected_tick_difference R \<le> s"
    and ov: "get_timestamp R x < e" "s < element_end R x"
  shows "(\<Union>p \<in> set (element_pieces R s e x). piece_frames R p) =
         {(x, j) |j. j < length (frame_timestamps R x) \<and> frame_overlaps R s e x j}"
proof (cases "get_num_frames R x > 1 \<and> ((get_timestamp R x < s \<and> element_end R x > s) \<or> element_end R x > e)")
  case True
  then have "element_pieces R s e x =
      [(FrameAt x n, get_frame_size R x). (n, ts) \<leftarrow> enumerate 0 (frame_timestamps R x),
         ts > s - expected_tick_difference R \<and> ts < e]"
    using ov(2) by (simp only: element_pieces_def not_le [symmetric] if_True if_False simp_thms)
  then show ?thesis
    using set_enumerate_pieces [where R = R and x = x and fs = "frame_timestamps R x" and sz = "get_frame_size R x"]
    by (simp only: frame_selected [OF reg tick] frame_overlaps_def)
next
  case False
  then have p: "element_pieces R s e x = [(ElementBegin x, get_payload_size R x)]"
    using ov(2) by (auto simp: element_pieces_def)
  have "frame_overlaps R s e x j" if j: "j < length (frame_timestamps R x)" for j
  proof (cases "get_num_frames R x > 1")
    case True
    then have "s \<le> get_timestamp R x" "element_end R x \<le> e" using False ov by auto
    then show ?thesis
      using frame_within_element [OF reg j] unat_regular_end [OF reg] reg j ov
      by (cases "unat (expected_tick_difference R) = 0")
        (auto simp: frame_overlaps_def word_le_nat_alt word_less_nat_alt regular_frames_def)
  next
    case False
    then have "unat (get_num_frames R x) \<le> 1" by (simp add: not_less word_le_nat_alt)
    then have one: "unat (get_num_frames R x) = 1" "j = 0" using reg j by (auto simp: regular_frames_def)
    then have "unat (frame_timestamps R x ! j) = unat (get_timestamp R x)"
      using reg j by (simp add: regular_frames_def)
    then show ?thesis
      using ov unat_regular_end [OF reg] one by (simp add: frame_overlaps_def word_less_nat_alt)
  qed
  then show ?thesis using p by auto
qed

lemma window_pieces_frames:
  assumes reg: "\<forall>x \<in> set xs. regular_frames R x" and tick: "expected_tick_difference R \<le> s"
  shows "(\<Union>p \<in> set (window_pieces R s e xs). piece_frames R p) = frames_in_window R s e xs"
proof -
  let ?ov = "\<lambda>x. get_timestamp R x < e \<and> s < element_end R x"
  have cut: "?ov x" if "x \<in> set xs" "j < length (frame_timestamps R x)" "frame_overlaps R s e x j" for x j
    using frame_within_element [of R x j] reg that
    by (auto simp: frame_overlaps_def word_less_nat_alt)
  have "(\<Union>p \<in> set (window_pieces R s e xs). piece_frames R p) =
      (\<Union>x \<in> {x \<in> set xs. ?ov x}. \<Union>p \<in> set (element_pieces R s e x). piece_frames R p)"
    by (auto simp: window_pieces_def)
  also have "\<dots> = (\<Union>x \<in> {x \<in> set xs. ?ov x}. {(x, j) |j. j < length (frame_timestamps R x) \<and> frame_overlaps R s e x j})"
    using element_pieces_frames [OF _ tick] reg by (intro SUP_cong) auto
  also have "\<dots> = frames_in_window R s e xs"
    using cut by (auto simp: frames_in_window_def)
  finally show ?thesis .
qed

section \<open>Properties of answers\<close>

lemma tick_le_begin:
  assumes "regular_frames R x" and "uniform_span R xs" and "x \<in> set xs" and "default_span R \<le> s"
  shows "expected_tick_difference R \<le> s"
proof -
  have nf: "get_num_frames R x = get_num_frames R (default_element R)" using assms(2,3) by (simp add: uniform_span_def)
  have reg: "0 < unat (get_num_frames R x)"
      "unat (get_num_frames R x) * unat (expected_tick_difference R) < 2 ^ 64"
    using assms(1) by (auto simp: regular_frames_def unat_gt_0 word_gt_0)
  have "unat (default_span R) = unat (get_num_frames R x) * unat (expected_tick_difference R)"
    unfolding default_span_def nf [symmetric] by (rule unat_mult_u64 [OF reg(2)])
  then have "unat (expected_tick_difference R) \<le> unat (default_span R)" using reg(1) by simp
  then show ?thesis using assms(4) by (simp add: word_le_nat_alt)
qed

text \<open>
  C2. What a data request returns, on a non-empty latency buffer that is in the state its search needs
  (increasing timestamps; fixed-rate contents for the computed search), whose elements span equally
  many ticks, end within 64 bits and hold their frames one after the other. The window has to begin
  late enough for the search to find its first element: the key of the search, which lies one
  element span before the window, must not wrap below 0 and must not be ordered before the oldest
  stored element (\<open>window_reachable\<close>; C36 is about the windows before that). Then the request
  returns. Its result code is \<open>kNotYet\<close> when the window begins after the newest element
  begins, else \<open>kTooOld\<close> when it ends before the oldest element begins (which only an inverted window does here),
  else \<open>kPartial\<close> when it ends after the newest element begins, and else \<open>kFound\<close>. For \<open>kFound\<close> and
  \<open>kPartial\<close> the pieces of the fragment are those of the elements in order and cover exactly the stored frames that
  overlap the window; for \<open>kNotYet\<close> and \<open>kTooOld\<close> the fragment is empty, also when
  later frames of the newest element do overlap a window that begins inside it. The header is the request's header
  with the error bits of the code, and the counters of that code are incremented.
\<close>

theorem data_request_returns_window:
  fixes dr :: DataRequest
  assumes sb: "searchable_buffer L lb_inv elements lb_pos R ready" and inv: "lb_inv b"
    and ready: "ready (has_error ''MISSING_FRAMES'' (error_registry h)) (elements b)"
    and ne: "elements b \<noteq> []" and uni: "uniform_span R (elements b)"
    and reg: "\<forall>x \<in> set (elements b). regular_frames R x"
    and w: "window_reachable R (window_begin dr) (elements b)"
  defines "rc \<equiv> coverage_code R (window_begin dr) (window_end dr) (elements b)"
  shows "\<exists>pieces. data_request R L D dr b h =
           Some (Inr (finish_fragment D dr rc (mark_result D rc (create_fragment_header D h dr)) pieces,
                      count_result rc h)) \<and>
         pieces = (if rc \<in> {kFound, kPartial}
                   then window_pieces R (window_begin dr) (window_end dr) (elements b) else []) \<and>
         (\<Union>p \<in> set pieces. piece_frames R p) =
           (if rc \<in> {kFound, kPartial}
            then frames_in_window R (window_begin dr) (window_end dr) (elements b) else {})"
proof -
  have "expected_tick_difference R \<le> window_begin dr"
    using tick_le_begin [OF _ uni, of "hd (elements b)"] reg w ne by (simp add: window_reachable_def)
  then show ?thesis
    using searchable_buffer.data_request_reachable [OF sb inv ready ne uni w]
      window_pieces_frames [OF reg, of "window_begin dr" "window_end dr"]
    unfolding rc_def by simp
qed

text \<open>Concrete fragments: the header and the pieces.\<close>

type_synonym plain_fragment = "FragmentHeader option \<times> dummy_frame piece list"

definition plain_header :: FragmentHeader where
  "plain_header = \<lparr>fh_size = 72, fh_trigger_number = 0, fh_trigger_timestamp = 0, fh_window_begin = 0,
     fh_window_end = 0, fh_run_number = 0, fh_error_bits = 0, fh_fragment_type = 0, fh_sequence_number = 0,
     fh_detector_id = 0, fh_element_id = \<lparr>subsystem = 0, source_id = 0\<rparr>\<rparr>"

definition plain_daq :: "(dummy_frame, plain_fragment) daq_env" where
  "plain_daq = \<lparr>default_header = plain_header, sizeof_header = 72, rdt_fragment_type = 0, rdt_subsystem = 1,
     kDataNotFound = 0, kIncomplete = 1, make_fragment = (\<lambda>ps. (None, ps)),
     set_header_fields = (\<lambda>fh f. (Some fh, snd f)), send_ok = (\<lambda>_ _. True), payload_bytes = frame_data\<rparr>"

definition sample_request :: "u64 \<Rightarrow> u64 \<Rightarrow> DataRequest" where
  "sample_request s e = \<lparr>trigger_number = 1, sequence_number = 0, run_number = 1, trigger_timestamp = s,
     window_begin = s, window_end = e, data_destination = ''dest''\<rparr>"

definition sample_handler :: "plain_fragment request_handler" where
  "sample_handler = new_request_handler Map.empty empty_registry"

lemma sample_request_sel [simp]:
  "window_begin (sample_request s e) = s" "window_end (sample_request s e) = e"
  "data_destination (sample_request s e) = ''dest''"
  by (simp_all add: sample_request_def)

lemma sample_handler_sel [simp]: "error_registry sample_handler = []"
  by (simp add: sample_handler_def new_request_handler_def empty_registry_def)

lemma dummy_uninit: "uninit_element (dummy_ops tick) = \<lparr>timestamp = 0, another_key = 0, frame_data = replicate DUMMY_FRAME_SIZE 0\<rparr>"
  by (simp add: dummy_ops_def)

lemma dummy_default: "default_element (dummy_ops tick) = \<lparr>timestamp = 0, another_key = 0, frame_data = replicate DUMMY_FRAME_SIZE 0\<rparr>"
  by (simp add: dummy_ops_def)

lemma dummy_default_span [simp]: "default_span (dummy_ops tick) = tick"
  by (simp add: default_span_def)

lemma frames_uniform: "uniform_span (dummy_ops 16) (contents frames_queue)"
  by (simp add: frames_queue_contents uniform_span_def)

lemma frames_regular: "\<forall>x \<in> set (contents frames_queue). regular_frames (dummy_ops 16) x"
  by (simp add: frames_queue_contents regular_frames_def)

theorem data_request_returns_window_witness:
  "\<exists>r h. data_request (dummy_ops 16) (FixedRateQueueModel (dummy_ops 16)) plain_daq (sample_request 120 140)
           frames_queue sample_handler = Some (Inr (r, h)) \<and>
         result_code r = kFound \<and>
         map fst (snd (fragment r)) = [ElementBegin (frame_at 116), ElementBegin (frame_at 132)]"
proof -
  have w: "window_reachable (dummy_ops 16) (window_begin (sample_request 120 140)) (contents frames_queue)"
    by (simp add: window_reachable_def request_element_def frames_queue_contents dummy_less_def dummy_default)
  have rc: "coverage_code (dummy_ops 16) 120 140 (contents frames_queue) = kFound"
    by (simp add: coverage_code_def frames_queue_contents)
  have p: "map fst (window_pieces (dummy_ops 16) 120 140 (contents frames_queue)) =
      [ElementBegin (frame_at 116), ElementBegin (frame_at 132)]"
    by (simp add: window_pieces_def frames_queue_contents element_end_def element_pieces_def)
  have ready: "fixed_rate_ready (dummy_ops 16) (has_error ''MISSING_FRAMES'' (error_registry sample_handler))
      (contents frames_queue)"
    using frames_fixed_rate by (simp add: fixed_rate_ready_def has_error_def)
  have ne: "contents frames_queue \<noteq> []" by (simp add: frames_queue_contents)
  show ?thesis
    using data_request_returns_window [OF dummy_fr.searchable_buffer_axioms frames_queue_inv ready ne
        frames_uniform frames_regular w, of plain_daq] rc p
    by (simp add: finish_fragment_def plain_daq_def)
qed

text \<open>Windows that begin less than one element span after the oldest element begins.\<close>

context forward_searchable_buffer
begin

lemma get_fragment_pieces_early:
  assumes inv: "lb_inv b" and ready: "search_ready (has_error ''MISSING_FRAMES'' reg) (elements b)"
    and ne: "elements b \<noteq> []" and uni: "uniform_span R (elements b)"
    and early: "unat s < unat (get_timestamp R (hd (elements b))) + unat (default_span R)"
    and w: "s \<le> get_timestamp R (last (elements b))" "get_timestamp R (hd (elements b)) \<le> e"
  shows "get_fragment_pieces R L reg b s e rc = Some (Inr (kNotFound, []))"
proof -
  let ?xs = "elements b" and ?el = "request_element R s" and ?we = "has_error ''MISSING_FRAMES'' reg"
  have "\<exists>i. lb_lower_bound L ?el ?we b = Some (Inr i) \<and> lb_pos b i (length ?xs)"
  proof (cases "default_span R \<le> s")
    case True
    then have "get_timestamp R ?el < get_timestamp R (hd ?xs)"
      using early by (auto simp: request_element_ts word_less_nat_alt word_le_nat_alt unat_sub)
    then show ?thesis using lower_bound_below [OF inv ready ne] by blast
  next
    case False
    then have wrap: "unat (get_timestamp R ?el) = 2 ^ 64 + unat s - unat (default_span R)"
      by (auto simp: request_element_ts unat_sub_if_size word_size word_le_nat_alt)
    have above: "unat (get_timestamp R x) < unat (get_timestamp R ?el)" if "x \<in> set ?xs" for x
      using uni that wrap by (auto simp: uniform_span_def)
    have "lb_index R (get_timestamp R ?el) ?xs = length ?xs"
      by (rule lb_index_eqI) (use above in \<open>auto simp: word_less_nat_alt\<close>)
    moreover have "\<not> elem_less R ?el (hd ?xs)"
      using above [of "hd ?xs"] ne less_imp_ts [of ?el "hd ?xs"] by (auto simp: word_le_nat_alt)
    ultimately show ?thesis using lower_bound_pos [OF inv ready ne, of ?el] by auto
  qed
  then obtain i where "lb_lower_bound L ?el ?we b = Some (Inr i)" "\<not> it_good L b i"
    using good_pos [OF inv] by auto
  then show ?thesis
    using timestamps_of_ends [OF inv ne, of R] w by (simp add: get_fragment_pieces_def not_less [symmetric])
qed

end

text \<open>
  C36. The queue models' search gives up on a key below the oldest element, and the handler
  searches one element span before the window. So a window that begins less than one span after
  the oldest element begins, but not after the newest element begins (else it is \<open>kNotYet\<close>), and that ends
  not before the oldest element begins (else it is \<open>kTooOld\<close>) is answered \<open>kNotFound\<close> with an empty fragment,
  counted as bad and marked \<open>kDataNotFound\<close>, even when the buffer holds frames of that window; in particular
  \<open>kPartiallyOld\<close> is not returned for a window that begins before the oldest element. As in C2 the
  buffer is not empty and in the state its search needs, and its elements span equally many ticks.
\<close>

theorem early_window_is_not_found:
  assumes fsb: "forward_searchable_buffer L lb_inv elements lb_pos R ready" and inv: "lb_inv b"
    and ready: "ready (has_error ''MISSING_FRAMES'' (error_registry h)) (elements b)"
    and ne: "elements b \<noteq> []" and uni: "uniform_span R (elements b)"
    and early: "unat (window_begin dr) < unat (get_timestamp R (hd (elements b))) + unat (default_span R)"
    and w: "window_begin dr \<le> get_timestamp R (last (elements b))"
      "get_timestamp R (hd (elements b)) \<le> window_end dr"
  shows "data_request R L D dr b h =
         Some (Inr (finish_fragment D dr kNotFound
                      (set_error_bit (kDataNotFound D) (create_fragment_header D h dr)) [],
                    h\<lparr>num_requests_bad := num_requests_bad h + 1\<rparr>))"
proof -
  have sb: "searchable_buffer L lb_inv elements lb_pos R ready"
    using fsb by (rule forward_searchable_buffer.axioms(1))
  have "unat (lb_occupancy L b) \<noteq> 0"
    using latency_buffer.occupancy_elements [OF searchable_buffer.axioms(1) [OF sb] inv] ne by simp
  then have "lb_occupancy L b \<noteq> 0" by auto
  then show ?thesis
    using forward_searchable_buffer.get_fragment_pieces_early [OF fsb inv ready ne uni early w, of kUnknown]
    by (simp add: data_request_def)
qed

theorem early_window_is_not_found_witness:
  "\<exists>r h. data_request (dummy_ops 16) (BinarySearchQueueModel (dummy_ops 16)) plain_daq (sample_request 105 130)
           frames_queue sample_handler = Some (Inr (r, h)) \<and>
         result_code r = kNotFound \<and> snd (fragment r) = [] \<and>
         (frame_at 116, 0) \<in> frames_in_window (dummy_ops 16) 105 130 (contents frames_queue)"
proof -
  have "(frame_at 116, 0) \<in> frames_in_window (dummy_ops 16) 105 130 (contents frames_queue)"
    by (simp add: frames_in_window_def frame_overlaps_def frames_queue_contents)
  then show ?thesis
    using early_window_is_not_found [OF dummy_bs.forward_searchable_buffer_axioms frames_queue_inv _ _ frames_uniform,
        where h = sample_handler and dr = "sample_request 105 130" and D = plain_daq] frames_ts_sorted
    by (simp add: frames_queue_contents finish_fragment_def plain_daq_def)
qed

section \<open>Cleanup\<close>

text \<open>How many of the first \<open>n\<close> elements are older than a timestamp.\<close>

definition removable :: "'a readout_ops \<Rightarrow> u64 \<Rightarrow> nat \<Rightarrow> 'a list \<Rightarrow> nat" where
  "removable R limit_ts n xs = length (takeWhile (\<lambda>x. get_timestamp R x < limit_ts) (take n xs))"

lemma removable_le: "removable R t n xs \<le> n" "removable R t n xs \<le> length xs"
  using length_takeWhile_le [of "\<lambda>x. get_timestamp R x < t" "take n xs"] by (auto simp: removable_def)

lemma removable_older: "x \<in> set (take (removable R t n xs) xs) \<Longrightarrow> get_timestamp R x < t"
proof -
  let ?P = "\<lambda>x. get_timestamp R x < t"
  have "take (removable R t n xs) xs = takeWhile ?P (take n xs)"
    using takeWhile_eq_take [of ?P "take n xs"] removable_le(1) [of R t n xs]
    by (simp add: removable_def min.absorb1)
  then show "x \<in> set (take (removable R t n xs) xs) \<Longrightarrow> ?P x" by (auto dest: set_takeWhileD)
qed

text \<open>What the cleanup leaves in the handler when it removes \<open>k\<close> of \<open>m\<close> elements.\<close>

definition cleaned :: "nat \<Rightarrow> nat \<Rightarrow> u64 \<Rightarrow> 'f request_handler \<Rightarrow> 'f request_handler" where
  "cleaned m k oldest_ts h =
     h\<lparr>pop_reqs := pop_reqs h + 1, rh_occupancy := of_nat (m - k), pops_count := pops_count h + of_nat k,
       error_registry := remove_errors_until oldest_ts (error_registry h),
       num_buffer_cleanups := num_buffer_cleanups h + 1\<rparr>"

context fifo_buffer
begin

lemma pop_loop_spec:
  "lb_inv b \<Longrightarrow> n \<le> length (elements b) \<Longrightarrow>
   \<exists>b'. pop_loop R L t n popped b = Inr (popped + of_nat (removable R t n (elements b)), b') \<and> lb_inv b' \<and>
        elements b' = drop (removable R t n (elements b)) (elements b)"
proof (induction n arbitrary: b popped)
  case (Suc n)
  obtain x xs where xs: "elements b = x # xs" using Suc.prems(2) by (cases "elements b") auto
  have ft: "front_timestamp R L b = Inr (get_timestamp R x)"
    using front_elements [OF Suc.prems(1)] xs by (simp add: front_timestamp_def)
  show ?case
  proof (cases "get_timestamp R x < t")
    case True
    obtain b1 where b1: "lb_pop L 1 b = Inr b1" "lb_inv b1" "elements b1 = xs"
      using pop_elements [OF Suc.prems(1), of 1] xs by auto
    have "n \<le> length (elements b1)" using Suc.prems(2) xs b1(3) by simp
    from Suc.IH [OF b1(2) this, of "popped + 1"] show ?thesis
      using ft True b1 xs by (auto simp: removable_def)
  qed (use Suc.prems ft xs in \<open>auto simp: removable_def\<close>)
qed (auto simp: removable_def)

lemma cleanup_removes:
  assumes inv: "lb_inv b" and size: "length (elements b) < 2 ^ 24"
    and over: "unat (pop_limit_size h) < length (elements b)"
    and pct: "is_fraction (pop_size_pct h)" "numerator (pop_size_pct h) \<noteq> 2 ^ scale (pop_size_pct h)"
    and idle: "\<not> cleanup_requested h"
    and n: "n = scaled_count (pop_size_pct h) (length (elements b))"
    and k: "k = removable R (next_timestamp_to_record h) n (elements b)"
  shows "k < length (elements b)"
    and "\<exists>b'. cleanup_check R L (b, h) =
              Inr (b', cleaned (length (elements b)) k (get_timestamp R (elements b ! k)) h) \<and>
            lb_inv b' \<and> elements b' = drop k (elements b)"
proof -
  let ?xs = "elements b"
  have occ: "unat (lb_occupancy L b) = length ?xs" by (rule occupancy_elements [OF inv])
  have less: "n < length ?xs" using scaled_count_less [OF pct size] over n by (cases ?xs) auto
  then have n32: "unat (of_nat n :: u32) = n" using size by (intro unat_of_nat_u32) simp
  have over': "lb_occupancy L b > ucast (pop_limit_size h)" using over occ by (simp add: word_less_nat_alt)
  show kl: "k < length ?xs" using removable_le(1) less k by (metis le_less_trans)
  obtain b' where b': "pop_loop R L (next_timestamp_to_record h) n 0 b = Inr (of_nat k, b')" "lb_inv b'"
      "elements b' = drop k ?xs"
    using pop_loop_spec [OF inv less_imp_le [OF less], of R "next_timestamp_to_record h" 0] k by auto
  have ft: "front_timestamp R L b' = Inr (get_timestamp R (?xs ! k))"
    using b'(2,3) kl by (simp add: front_timestamp_def front_elements hd_drop_conv_nth)
  have "unat (lb_occupancy L b') = length ?xs - k" using occupancy_elements [OF b'(2)] b'(3) by simp
  then have "lb_occupancy L b' = of_nat (length ?xs - k)"
    using size by (subst word_unat_eq_iff) (simp add: unat_of_nat_u64)
  moreover have "length ?xs - k < 2 ^ 32" using size by simp
  ultimately have "(ucast (lb_occupancy L b') :: u32) = of_nat (length ?xs - k)"
    by (subst word_unat_eq_iff) (simp add: unat_ucast_u32 unat_of_nat_u64 unat_of_nat_u32)
  then have "cleanup_check R L (b, h) = Inr (b', cleaned (length ?xs) k (get_timestamp R (?xs ! k)) h)"
    using over' idle b'(1) ft n32 n occ
    by (simp add: cleanup_check_def cleanup_rh_def cleaned_def Let_def)
  then show "\<exists>b'. cleanup_check R L (b, h) = Inr (b', cleaned (length ?xs) k (get_timestamp R (?xs ! k)) h) \<and>
      lb_inv b' \<and> elements b' = drop k ?xs"
    using b'(2,3) by blast
qed

end

text \<open>
  C7. When a queue of fewer than \<open>2 ^ 24\<close> elements is above the auto-pop limit and the pop
  percentage is a \<open>float\<close> in \<open>[0, 1)\<close>, \<open>cleanup_check\<close> returns without a fault and removes
  exactly the first \<open>k\<close> elements, where \<open>k\<close> is the percentage of the occupancy computed in
  single precision, cut off at the first element that still has to be recorded: every removed
  element is older than the next timestamp to record, at least one element stays, the queue stays
  well-formed, the errors that ended before the oldest remaining element are removed from the
  registry, and the counters record the cleanup.
\<close>

theorem cleanup_removes_recorded_prefix:
  fixes q :: "'a iterable_queue" and h :: "'f request_handler"
  assumes inv: "queue_inv q" "length (contents q) < 2 ^ 24"
    and over: "unat (pop_limit_size h) < length (contents q)" "\<not> cleanup_requested h"
    and pct: "is_fraction (pop_size_pct h)" "numerator (pop_size_pct h) \<noteq> 2 ^ scale (pop_size_pct h)"
  defines "n \<equiv> scaled_count (pop_size_pct h) (length (contents q))"
  shows "\<exists>q' k. cleanup_check R (queue_lb_ops search) (q, h) =
             Inr (q', cleaned (length (contents q)) k (get_timestamp R (hd (contents q'))) h) \<and>
           queue_inv q' \<and> contents q' = drop k (contents q) \<and> contents q' \<noteq> [] \<and> k \<le> n \<and>
           (\<forall>x \<in> set (take k (contents q)). get_timestamp R x < next_timestamp_to_record h) \<and>
           (k < n \<longrightarrow> next_timestamp_to_record h \<le> get_timestamp R (hd (contents q')))"
proof -
  let ?t = "next_timestamp_to_record h" and ?xs = "contents q"
  let ?k = "removable R ?t n ?xs"
  have lt: "?k < length ?xs"
    using queue.cleanup_removes (1) [OF inv over(1) pct over(2) refl refl, of R] unfolding n_def .
  obtain q' where "cleanup_check R (queue_lb_ops search) (q, h) =
        Inr (q', cleaned (length ?xs) ?k (get_timestamp R (?xs ! ?k)) h)" "queue_inv q'" "contents q' = drop ?k ?xs"
    using queue.cleanup_removes (2) [OF inv over(1) pct over(2) refl refl, of R search] unfolding n_def by blast
  moreover have "?t \<le> get_timestamp R (?xs ! ?k)" if "?k < n"
    using nth_length_takeWhile [of "\<lambda>x. get_timestamp R x < ?t" "take n ?xs"] that lt
    by (simp add: removable_def not_less)
  ultimately show ?thesis
    using lt removable_le(1) [of R ?t n ?xs] removable_older [of _ R ?t n ?xs] hd_drop_conv_nth [OF lt]
    by (intro exI [of _ q'] exI [of _ ?k]) simp
qed

text \<open>A handler with a limit of two elements and a pop percentage of one half.\<close>

definition cleaning_handler :: "float32 \<Rightarrow> plain_fragment request_handler" where
  "cleaning_handler pct = sample_handler\<lparr>pop_limit_size := 2, pop_size_pct := pct\<rparr>"

lemma cleaning_handler_sel [simp]:
  "pop_limit_size (cleaning_handler pct) = 2" "pop_size_pct (cleaning_handler pct) = pct"
  "\<not> cleanup_requested (cleaning_handler pct)" "next_timestamp_to_record (cleaning_handler pct) = UINT64_MAX"
  by (simp_all add: cleaning_handler_def sample_handler_def new_request_handler_def)

lemma frames_stored: "stored frames_queue = 4"
  using length_contents [of frames_queue] by (simp add: frames_queue_contents)

lemma half_of_four: "scaled_count \<lparr>numerator = 1, scale = Suc 0\<rparr> 4 = 2"
  by (simp add: scaled_count_eq round24_small)

theorem cleanup_removes_recorded_prefix_witness:
  "\<exists>q' h'. cleanup_check (dummy_ops 16) (BinarySearchQueueModel (dummy_ops 16))
             (frames_queue, cleaning_handler \<lparr>numerator = 1, scale = 1\<rparr>) = Inr (q', h') \<and>
           contents q' = [frame_at 132, frame_at 148] \<and> pops_count h' = 2"
proof -
  let ?h = "cleaning_handler \<lparr>numerator = 1, scale = 1\<rparr>"
  obtain q' k where q': "cleanup_check (dummy_ops 16) (BinarySearchQueueModel (dummy_ops 16)) (frames_queue, ?h) =
        Inr (q', cleaned 4 k (timestamp (hd (contents q'))) ?h)"
      "contents q' = drop k (contents frames_queue)" "k \<le> 2" "contents q' \<noteq> []"
      "k < 2 \<Longrightarrow> UINT64_MAX \<le> timestamp (hd (contents q'))"
    using cleanup_removes_recorded_prefix [OF frames_queue_inv, of ?h "dummy_ops 16" "bs_lower_bound (dummy_ops 16)"]
    by (auto simp: frames_stored is_fraction_def half_of_four BinarySearchQueueModel_def)
  have "k = 0 \<or> k = 1 \<or> k = 2" using q'(3) by linarith
  then have "k = 2" using q'(2,5) by (auto simp: UINT64_MAX_def frames_queue_contents word_le_nat_alt unsigned_minus_1_eq_mask mask_eq_exp_minus_1)
  then show ?thesis
    using q'(1,2) by (simp add: frames_queue_contents cleaned_def cleaning_handler_def sample_handler_def new_request_handler_def)
qed

text \<open>
  A pop percentage of exactly 1 is accepted by \<open>conf\<close>, but when nothing is being recorded
  \<open>cleanup\<close> then pops every element and takes the timestamp behind the null pointer that
  \<open>front\<close> returns for the empty buffer.
\<close>

theorem full_cleanup_dereferences_null:
  fixes q :: "'a iterable_queue" and h :: "'f request_handler"
  assumes inv: "queue_inv q" "length (contents q) < 2 ^ 24"
    and over: "unat (pop_limit_size h) < length (contents q)" "\<not> cleanup_requested h"
    and one: "pop_size_pct h = \<lparr>numerator = 1, scale = 0\<rparr>"
    and older: "\<forall>x \<in> set (contents q). get_timestamp R x < next_timestamp_to_record h"
  shows "\<not> float_negative (pop_size_pct h) \<and> \<not> float_above_one (pop_size_pct h) \<and>
         cleanup_check R (queue_lb_ops search) (q, h) = Inl NullDeref"
proof -
  let ?xs = "contents q" and ?L = "queue_lb_ops search"
  have occ: "unat (lb_occupancy ?L q) = length ?xs" by (rule queue.occupancy_elements [OF inv(1)])
  have n: "scaled_count (pop_size_pct h) (length ?xs) = length ?xs"
    using inv(2) by (simp add: one scaled_count_eq round24_small)
  have n32: "unat (of_nat (length ?xs) :: u32) = length ?xs" using inv(2) by (intro unat_of_nat_u32) simp
  have all: "removable R (next_timestamp_to_record h) (length ?xs) ?xs = length ?xs"
    using older by (simp add: removable_def takeWhile_eq_all_conv [THEN iffD2])
  obtain q' where q': "pop_loop R ?L (next_timestamp_to_record h) (length ?xs) 0 q = Inr (of_nat (length ?xs), q')"
      "queue_inv q'" "contents q' = []"
    using queue.pop_loop_spec [OF inv(1) order_refl, of R search "next_timestamp_to_record h" 0] all by auto
  have "front_timestamp R ?L q' = Inl NullDeref"
    using queue.front_elements [OF q'(2), of search] q'(3) by (simp add: front_timestamp_def)
  then show ?thesis
    using occ over n n32 q'(1) one
    by (simp add: cleanup_check_def cleanup_rh_def word_less_nat_alt float_negative_def float_above_one_def Let_def)
qed

theorem full_cleanup_dereferences_null_witness:
  "cleanup_check (dummy_ops 16) (BinarySearchQueueModel (dummy_ops 16))
     (frames_queue, cleaning_handler \<lparr>numerator = 1, scale = 0\<rparr>) = Inl NullDeref"
  using full_cleanup_dereferences_null [OF frames_queue_inv, of "cleaning_handler \<lparr>numerator = 1, scale = 0\<rparr>"
      "dummy_ops 16" "bs_lower_bound (dummy_ops 16)"]
  by (simp add: frames_queue_contents BinarySearchQueueModel_def UINT64_MAX_def)

section \<open>Every request gets a result\<close>

context readout_order
begin

lemma bs_lower_bound_returns:
  assumes "queue_inv q" and "ts_sorted R (contents q)"
  shows "\<exists>i k. bs_lower_bound R e we q = Some (Inr i) \<and> queue_pos q i k"
  using bs_lower_bound_correct [OF assms, of e we] by (auto simp: queue_pos_def split: if_splits)

lemma get_fragment_pieces_returns:
  assumes inv: "queue_inv q" and srt: "ts_sorted R (contents q)" and ne: "contents q \<noteq> []"
  shows "\<exists>rc' pieces. get_fragment_pieces R (BinarySearchQueueModel R) reg q s e rc = Some (Inr (rc', pieces))"
proof -
  let ?L = "BinarySearchQueueModel R"
  obtain i k where i: "lb_lower_bound ?L (request_element R s) (has_error ''MISSING_FRAMES'' reg) q = Some (Inr i)"
      "queue_pos q i k"
    using bs_lower_bound_returns [OF inv srt] by (force simp: BinarySearchQueueModel_def queue_lb_ops_def)
  obtain pieces where "gather_pieces R ?L q s e i [] = Some (Inr pieces)"
    using queue.gather_pieces_takeWhile [OF inv i(2), of R] unfolding BinarySearchQueueModel_def by blast
  then show ?thesis
    using i(1) queue.timestamps_of_ends [OF inv ne, of R "bs_lower_bound R"]
    by (auto simp: get_fragment_pieces_def Let_def simp flip: BinarySearchQueueModel_def)
qed

end

lemma data_request_total_result:
  assumes "readout_order R" and inv: "queue_inv q" and srt: "ts_sorted R (contents q)"
  shows "\<exists>r h'. data_request R (BinarySearchQueueModel R) D dr q h = Some (Inr (r, h'))"
proof (cases "lb_occupancy (BinarySearchQueueModel R) q = 0")
  case False
  have occ: "unat (lb_occupancy (BinarySearchQueueModel R) q) = length (contents q)"
    unfolding BinarySearchQueueModel_def by (rule queue.occupancy_elements [OF inv])
  have "unat (lb_occupancy (BinarySearchQueueModel R) q) \<noteq> 0" using False by (simp add: unat_eq_zero)
  then have "contents q \<noteq> []" unfolding occ by (rule contrapos_nn) (simp only: list.size)
  then obtain rc pieces where "get_fragment_pieces R (BinarySearchQueueModel R) (error_registry h) q
      (window_begin dr) (window_end dr) kUnknown = Some (Inr (rc, pieces))"
    using readout_order.get_fragment_pieces_returns [OF assms(1) inv srt] by blast
  then show ?thesis using False by (simp add: data_request_def Let_def)
qed (simp add: data_request_def Let_def)

text \<open>The fragment of a result carries the identity of its request.\<close>

lemma mark_result_keeps [simp]:
  "fh_trigger_number (mark_result D rc fh) = fh_trigger_number fh"
  "fh_window_begin (mark_result D rc fh) = fh_window_begin fh"
  "fh_window_end (mark_result D rc fh) = fh_window_end fh"
  "fh_sequence_number (mark_result D rc fh) = fh_sequence_number fh"
  "fh_run_number (mark_result D rc fh) = fh_run_number fh"
  by (cases rc; simp add: set_error_bit_def)+

lemma data_request_shape:
  assumes "data_request R L D dr b h = Some (Inr (r, h'))"
  shows "\<exists>rc fh pieces. r = finish_fragment D dr rc fh pieces \<and>
           fh_trigger_number fh = trigger_number dr \<and> fh_window_begin fh = window_begin dr \<and>
           fh_window_end fh = window_end dr \<and> fh_sequence_number fh = sequence_number dr \<and>
           fh_run_number fh = run_number dr"
proof -
  obtain rc fh pieces where "r = finish_fragment D dr rc fh pieces"
      "fh = set_error_bit (kDataNotFound D) (create_fragment_header D h dr) \<or>
       fh = mark_result D rc (create_fragment_header D h dr)"
    using assms by (auto simp: data_request_def Let_def split: if_splits option.splits sum.splits)
  then show ?thesis
    by (intro exI [of _ rc] exI [of _ fh] exI [of _ pieces])
      (auto simp: set_error_bit_def create_fragment_header_def)
qed

text \<open>
  C22. On a binary-search queue with increasing timestamps, empty or not, every data request
  returns a result: for all windows, also empty, reversed and wrapping ones, no search or loop runs
  forever and no invalid memory is read; the request, result and fragment header belong to the
  request.
\<close>

theorem data_request_total:
  assumes "readout_order R" and inv: "queue_inv q" and srt: "ts_sorted R (contents q)"
  shows "\<exists>rc fh pieces h'. data_request R (BinarySearchQueueModel R) D dr q h =
           Some (Inr (finish_fragment D dr rc fh pieces, h')) \<and>
         fh_trigger_number fh = trigger_number dr \<and> fh_window_begin fh = window_begin dr \<and>
         fh_window_end fh = window_end dr \<and> fh_sequence_number fh = sequence_number dr \<and>
         fh_run_number fh = run_number dr"
proof -
  obtain r h' where r: "data_request R (BinarySearchQueueModel R) D dr q h = Some (Inr (r, h'))"
    using data_request_total_result [OF assms] by blast
  from data_request_shape [OF r] show ?thesis using r by auto
qed

theorem data_request_total_witness:
  "\<exists>r h'. data_request (dummy_ops 16) (BinarySearchQueueModel (dummy_ops 16)) plain_daq (sample_request 140 120)
            frames_queue sample_handler = Some (Inr (r, h'))"
  using data_request_total [OF dummy.readout_order_axioms frames_queue_inv frames_ts_sorted,
      of plain_daq "sample_request 140 120" sample_handler]
  by blast

end
