(* ===== verification/Request_Lifecycle.thy ===== *)
theory Request_Lifecycle
  imports Request_Contract "HOL-Library.Multiset"
begin

text \<open>
  The life of a request across the threads of the handler: it is posted to the pool, a task
  answers it or keeps it, the waiting thread posts kept requests again. The steps of the threads
  interleave freely; a step relation over the handler, the buffer and two lists that only the
  proof keeps (the requests that arrived and those that were answered) shows that no request is
  lost and none is answered twice.
\<close>

section \<open>Steps\<close>

fun is_answer :: "'f rh_event \<Rightarrow> bool" where
  "is_answer (FragmentSent _ _) = True"
| "is_answer (CannotWriteToQueue _) = True"
| "is_answer _ = False"

definition answers :: "'f request_handler \<Rightarrow> nat" where
  "answers h = length (filter is_answer (events h))"

record ('b, 'f) lifecycle =
  lc_buffer :: 'b
  lc_handler :: "'f request_handler"
  lc_issued :: "DataRequest list"
  lc_answered :: "DataRequest list"

text \<open>
  A task that did not add to the waiting requests has answered its request. Tasks of the pool start
  in any order; they run only while no cleanup is requested.
\<close>

inductive rh_step ::
  "'a readout_ops \<Rightarrow> ('b, 'a, 'i) lb_ops \<Rightarrow> ('a, 'f) daq_env \<Rightarrow> ('b, 'f) lifecycle \<Rightarrow> ('b, 'f) lifecycle \<Rightarrow> bool"
  for R :: "'a readout_ops" and L :: "('b, 'a, 'i) lb_ops" and D :: "('a, 'f) daq_env"
where
  Arrive: "rh_step R L D s
     (s\<lparr>lc_handler := issue_request dr False (lc_handler s), lc_issued := lc_issued s @ [dr]\<rparr>)"
| RunTask: "posted (lc_handler s) = xs @ (dr, is_retry) # ys \<Longrightarrow> \<not> cleanup_requested (lc_handler s) \<Longrightarrow>
     request_task R L D now took dr is_retry (lc_buffer s) ((lc_handler s)\<lparr>posted := xs @ ys\<rparr>) = Some (Inr h') \<Longrightarrow>
     rh_step R L D s
       (s\<lparr>lc_handler := h',
          lc_answered := lc_answered s @
            (if length (waiting_requests h') > length (waiting_requests (lc_handler s)) then [] else [dr])\<rparr>)"
| CheckWaiting: "check_waiting_requests R L now (lc_buffer s) (lc_handler s) = Inr h' \<Longrightarrow>
     rh_step R L D s (s\<lparr>lc_handler := h'\<rparr>)"
| Cleanup: "cleanup_check R L (lc_buffer s, lc_handler s) = Inr (b', h') \<Longrightarrow>
     rh_step R L D s (s\<lparr>lc_buffer := b', lc_handler := h'\<rparr>)"
| WriteElement: "lb_write L x (lc_buffer s) = Inr (ok, b') \<Longrightarrow> rh_step R L D s (s\<lparr>lc_buffer := b'\<rparr>)"
| Monitor: "rh_step R L D s (s\<lparr>lc_handler := snd (generate_opmon_data now (lc_handler s))\<rparr>)"

inductive_cases rh_step_cases: "rh_step R L D s s'"

section \<open>What the operations keep of the requests\<close>

text \<open>The part of the handler that holds requests, and the number of answers sent.\<close>

definition request_view :: "'f request_handler \<Rightarrow> (DataRequest \<times> bool) list \<times> RequestElement list \<times> nat" where
  "request_view h = (posted h, waiting_requests h, answers h)"

lemma request_view_count [simp]: "request_view (count_result rc h) = request_view h"
  by (cases rc) (simp_all add: request_view_def answers_def)

lemma request_view_updates [simp]:
  "request_view (h\<lparr>num_requests_bad := n\<rparr>) = request_view h"
  "request_view (h\<lparr>num_requests_timed_out := n\<rparr>) = request_view h"
  "request_view (h\<lparr>requests_running := n\<rparr>) = request_view h"
  "request_view (h\<lparr>cleanup_requested := c\<rparr>) = request_view h"
  by (simp_all add: request_view_def answers_def)

lemma request_view_emit [simp]: "\<not> is_answer ev \<Longrightarrow> request_view (emit ev h) = request_view h"
  by (simp add: request_view_def answers_def emit_def)

lemma data_request_view:
  assumes "data_request R L D dr b h = Some (Inr (r, h'))"
  shows "request_view h' = request_view h \<and> request_timeout_ms h' = request_timeout_ms h"
proof -
  have t: "request_timeout_ms (count_result rc h) = request_timeout_ms h" for rc by (cases rc) simp_all
  have e: "request_timeout_ms (emit ev h) = request_timeout_ms h" for ev by (simp add: emit_def)
  show ?thesis
    using assms by (auto simp: data_request_def Let_def t e split: if_splits option.splits sum.splits)
qed

lemma account_response_view [simp]: "request_view (account_response took h) = request_view h"
  by (simp add: account_response_def request_view_def answers_def)

text \<open>A task keeps its request or answers it, and a retried request is always answered.\<close>

lemma request_task_view:
  assumes "request_task R L D now took dr is_retry b h = Some (Inr h')"
  shows "posted h' = posted h \<and>
         (if \<not> is_retry \<and> length (waiting_requests h) < length (waiting_requests h')
          then waiting_requests h' = waiting_requests h @ [\<lparr>request = dr, start_time = now\<rparr>] \<and> answers h' = answers h
          else waiting_requests h' = waiting_requests h \<and> answers h' = answers h + 1)"
proof -
  obtain r h1 where r: "data_request R L D dr b (h\<lparr>requests_running := requests_running h + 1\<rparr>) = Some (Inr (r, h1))"
      "h' = account_response took (respond D now dr is_retry r (h1\<lparr>requests_running := requests_running h1 - 1\<rparr>))"
    using assms by (auto simp: request_task_def Let_def split: option.splits sum.splits)
  have v: "request_view h1 = request_view h" using data_request_view [OF r(1)] by simp
  have "request_view h' = request_view (respond D now dr is_retry r (h1\<lparr>requests_running := requests_running h1 - 1\<rparr>))"
    using r(2) by simp
  then show ?thesis using v by (auto simp: respond_def emit_def request_view_def answers_def)
qed

text \<open>A kept request is due when its window is covered or it has waited for the timeout.\<close>

definition due :: "int \<Rightarrow> u64 \<Rightarrow> int \<Rightarrow> RequestElement \<Rightarrow> bool" where
  "due now newest_ts timeout_ms w \<longleftrightarrow>
     window_end (request w) < newest_ts \<or> timeout_ms \<le> (now - start_time w) div 1000"

lemma check_waiting_loop_view:
  "\<exists>h'. check_waiting_loop now t ws h = (filter (\<lambda>w. \<not> due now t (sint (request_timeout_ms h)) w) ws, h') \<and>
         posted h' = posted h @ map (\<lambda>w. (request w, True)) (filter (due now t (sint (request_timeout_ms h))) ws) \<and>
         waiting_requests h' = waiting_requests h \<and> answers h' = answers h"
proof (induction ws arbitrary: h)
  case (Cons w ws)
  let ?T = "sint (request_timeout_ms h)"
  let ?i = "issue_request (request w) True h"
  let ?e = "if warn_on_timeout ?i then emit (VerboseRequestTimedOut (request w)) ?i else ?i"
  let ?x = "?e\<lparr>num_requests_bad := num_requests_bad ?e + 1, num_requests_timed_out := num_requests_timed_out ?e + 1\<rparr>"
  have i: "posted ?i = posted h @ [(request w, True)]" "waiting_requests ?i = waiting_requests h"
      "answers ?i = answers h" "request_timeout_ms ?i = request_timeout_ms h"
    by (simp_all add: issue_request_def answers_def)
  have x: "posted ?x = posted ?i" "waiting_requests ?x = waiting_requests ?i" "answers ?x = answers ?i"
      "request_timeout_ms ?x = request_timeout_ms ?i"
    by (simp_all add: emit_def answers_def)
  consider "window_end (request w) < t" | "\<not> window_end (request w) < t" "?T \<le> (now - start_time w) div 1000"
    | "\<not> due now t ?T w" by (auto simp: due_def)
  then show ?case
  proof cases
    case 1
    then show ?thesis using Cons.IH [of ?i] i by (auto simp: due_def)
  next
    case 2
    have "check_waiting_loop now t (w # ws) h = check_waiting_loop now t ws ?x"
      using 2 by (simp add: Let_def)
    then show ?thesis using Cons.IH [of ?x] i x 2 by (auto simp: due_def)
  next
    case 3
    then show ?thesis using Cons.IH [of h] by (auto simp: due_def)
  qed
qed simp

lemma check_waiting_requests_view:
  assumes "check_waiting_requests R L now b h = Inr h'"
  shows "\<exists>out rest. mset (waiting_requests h) = mset out + mset rest \<and> waiting_requests h' = rest \<and>
           posted h' = posted h @ map (\<lambda>w. (request w, True)) out \<and> answers h' = answers h"
proof (cases "run_marker h \<and> waiting_requests h \<noteq> []")
  case False
  then have "h' = h" using assms by (auto simp: check_waiting_requests_def split: if_splits)
  then show ?thesis by (intro exI [of _ "[]"] exI [of _ "waiting_requests h"]) simp
next
  case True
  then obtain t where "(case check_waiting_loop now t (waiting_requests h) h of
      (ws, h) \<Rightarrow> Inr (h\<lparr>waiting_requests := ws\<rparr>)) = (Inr h' :: fault + _)"
    using assms by (auto simp: check_waiting_requests_def bindE_eq_Inr_iff Let_def)
  moreover obtain h1 where "check_waiting_loop now t (waiting_requests h) h =
        (filter (\<lambda>w. \<not> due now t (sint (request_timeout_ms h)) w) (waiting_requests h), h1)"
      "posted h1 = posted h @ map (\<lambda>w. (request w, True)) (filter (due now t (sint (request_timeout_ms h))) (waiting_requests h))"
      "answers h1 = answers h"
    using check_waiting_loop_view by blast
  ultimately show ?thesis
    by (intro exI [of _ "filter (due now t (sint (request_timeout_ms h))) (waiting_requests h)"]
        exI [of _ "filter (\<lambda>w. \<not> due now t (sint (request_timeout_ms h)) w) (waiting_requests h)"])
      (auto simp: answers_def)
qed

lemma cleanup_check_view: "cleanup_check R L (b, h) = Inr (b', h') \<Longrightarrow> request_view h' = request_view h"
  by (auto simp: cleanup_check_def cleanup_rh_def bindE_eq_Inr_iff request_view_def answers_def Let_def
      split: if_splits prod.splits)

lemma opmon_view [simp]: "request_view (snd (generate_opmon_data now h)) = request_view h"
  by (simp add: generate_opmon_data_def request_view_def answers_def)

section \<open>No request is lost or answered twice\<close>

text \<open>Every request that arrived is posted, waiting or answered, once for each time it arrived.\<close>

definition conserved :: "('b, 'f) lifecycle \<Rightarrow> bool" where
  "conserved s \<longleftrightarrow>
     mset (lc_issued s) =
       mset (map fst (posted (lc_handler s))) + mset (map request (waiting_requests (lc_handler s))) +
       mset (lc_answered s) \<and>
     answers (lc_handler s) = length (lc_answered s)"

lemma conserved_view:
  "conserved s \<Longrightarrow> request_view h' = request_view (lc_handler s) \<Longrightarrow> conserved (s\<lparr>lc_buffer := b', lc_handler := h'\<rparr>)"
  by (simp add: conserved_def request_view_def)

lemma run_task_conserved:
  assumes "conserved s" and p: "posted (lc_handler s) = xs @ (dr, is_retry) # ys"
    and t: "request_task R L D now took dr is_retry (lc_buffer s) ((lc_handler s)\<lparr>posted := xs @ ys\<rparr>) = Some (Inr h')"
  shows "conserved (s\<lparr>lc_handler := h',
           lc_answered := lc_answered s @
             (if length (waiting_requests h') > length (waiting_requests (lc_handler s)) then [] else [dr])\<rparr>)"
  using assms(1) p request_task_view [OF t] by (auto simp: conserved_def answers_def split: if_splits)

lemma rh_step_conserved: "rh_step R L D s s' \<Longrightarrow> conserved s \<Longrightarrow> conserved s'"
proof (induction rule: rh_step.induct)
  case (Arrive s dr)
  then show ?case by (simp add: conserved_def issue_request_def answers_def)
next
  case (RunTask s xs dr is_retry ys now took h')
  then show ?case using run_task_conserved by blast
next
  case (CheckWaiting now s h')
  obtain out rest where "mset (waiting_requests (lc_handler s)) = mset out + mset rest" "waiting_requests h' = rest"
      "posted h' = posted (lc_handler s) @ map (\<lambda>w. (request w, True)) out" "answers h' = answers (lc_handler s)"
    using check_waiting_requests_view [OF CheckWaiting.hyps] by blast
  then show ?case using CheckWaiting.prems by (simp add: conserved_def o_def)
next
  case (Cleanup s b' h')
  then show ?case using conserved_view cleanup_check_view by fastforce
next
  case (WriteElement x s ok b')
  then show ?case by (simp add: conserved_def)
next
  case (Monitor s now)
  then show ?case using opmon_view [of now "lc_handler s"] by (simp add: conserved_def request_view_def)
qed

text \<open>
  C12. From a started handler without requests, in every interleaving of arriving requests, pool
  tasks in any order, passes over the waiting requests, cleanups, writes and monitoring, each
  request that arrived is exactly one of: posted to the pool, waiting for data, or answered (its
  fragment was sent, or sending it failed with a warning). No request is lost and none is
  answered more often than it arrived.
\<close>

theorem requests_are_conserved:
  assumes "(rh_step R L D)\<^sup>*\<^sup>* s s'"
    and "posted (lc_handler s) = []" "waiting_requests (lc_handler s) = []" "events (lc_handler s) = []"
    and "lc_issued s = []" "lc_answered s = []"
  shows "mset (lc_issued s') =
           mset (map fst (posted (lc_handler s'))) + mset (map request (waiting_requests (lc_handler s'))) +
           mset (lc_answered s') \<and>
         length (filter is_answer (events (lc_handler s'))) = length (lc_answered s')"
proof -
  have "conserved s" using assms(2-6) by (simp add: conserved_def answers_def)
  with assms(1) have "conserved s'" by (induction rule: rtranclp_induct) (auto intro: rh_step_conserved)
  then show ?thesis by (simp add: conserved_def answers_def)
qed

definition idle_lifecycle :: "(dummy_frame iterable_queue, plain_fragment) lifecycle" where
  "idle_lifecycle = \<lparr>lc_buffer = frames_queue, lc_handler = start_rh 0 sample_handler, lc_issued = [], lc_answered = []\<rparr>"

theorem requests_are_conserved_witness:
  "\<exists>s'. (rh_step (dummy_ops 16) (BinarySearchQueueModel (dummy_ops 16)) plain_daq)\<^sup>*\<^sup>* idle_lifecycle s' \<and>
        mset (lc_issued s') = {#sample_request 120 140#} \<and>
        mset (lc_issued s') = mset (map fst (posted (lc_handler s'))) +
          mset (map request (waiting_requests (lc_handler s'))) + mset (lc_answered s')"
proof -
  let ?s = "idle_lifecycle\<lparr>lc_handler := issue_request (sample_request 120 140) False (lc_handler idle_lifecycle),
              lc_issued := lc_issued idle_lifecycle @ [sample_request 120 140]\<rparr>"
  have step: "(rh_step (dummy_ops 16) (BinarySearchQueueModel (dummy_ops 16)) plain_daq)\<^sup>*\<^sup>* idle_lifecycle ?s"
    by (intro r_into_rtranclp rh_step.Arrive)
  show ?thesis
    using requests_are_conserved [OF step] step
    by (intro exI [of _ ?s])
      (simp add: idle_lifecycle_def start_rh_def sample_handler_def new_request_handler_def)
qed

section \<open>Kept requests are answered\<close>

lemma request_task_returns:
  assumes "readout_order R" and "queue_inv q" and "ts_sorted R (contents q)"
  shows "\<exists>h'. request_task R (BinarySearchQueueModel R) D now took dr is_retry q h = Some (Inr h')"
  using data_request_total_result [OF assms, of D dr "h\<lparr>requests_running := requests_running h + 1\<rparr>"]
  by (auto simp: request_task_def Let_def)

text \<open>A pass posts the due requests again and keeps the others.\<close>

lemma check_waiting_posts:
  assumes inv: "queue_inv q" and run: "run_marker h" and w: "w \<in> set (waiting_requests h)"
    and due: "due now (if contents q = [] then 0 else get_timestamp R (last (contents q)))
                (sint (request_timeout_ms h)) w"
  shows "\<exists>h1. check_waiting_requests R (BinarySearchQueueModel R) now q h = Inr h1 \<and>
           (request w, True) \<in> set (posted h1) \<and> w \<notin> set (waiting_requests h1)"
proof -
  let ?L = "BinarySearchQueueModel R" and ?T = "sint (request_timeout_ms h)"
  let ?t = "if contents q = [] then 0 else get_timestamp R (last (contents q))"
  have bk: "lb_back ?L q = Inr (if contents q = [] then None else Some (last (contents q)))"
    unfolding BinarySearchQueueModel_def by (rule queue.back_elements [OF inv])
  obtain h0 where h0: "check_waiting_loop now ?t (waiting_requests h) h =
        (filter (\<lambda>w. \<not> due now ?t ?T w) (waiting_requests h), h0)"
      "posted h0 = posted h @ map (\<lambda>w. (request w, True)) (filter (due now ?t ?T) (waiting_requests h))"
    using check_waiting_loop_view by blast
  let ?h1 = "h0\<lparr>waiting_requests := filter (\<lambda>w. \<not> due now ?t ?T w) (waiting_requests h)\<rparr>"
  have "waiting_requests h \<noteq> []" using w by auto
  then have "check_waiting_requests R ?L now q h = Inr ?h1"
    using run bk h0(1) by (cases "contents q = []") (simp_all add: check_waiting_requests_def Let_def)
  moreover have "(request w, True) \<in> set (posted ?h1)" "w \<notin> set (waiting_requests ?h1)"
    using h0(2) w due by auto
  ultimately show ?thesis by blast
qed


definition waiting_handler :: "plain_fragment request_handler" where
  "waiting_handler = (start_rh 0 sample_handler)
     \<lparr>request_timeout_ms := 10, waiting_requests := [\<lparr>request = sample_request 140 200, start_time = 0\<rparr>]\<rparr>"


text \<open>
  After \<open>stop\<close> no kept request is served: a pass over the waiting requests changes
  nothing, whatever has arrived and however long they waited, and the next \<open>start\<close> neither
  answers nor clears them, so they are still waiting in the next run.
\<close>

theorem stopped_handler_keeps_waiting_requests:
  "check_waiting_requests R L now b (stop_rh h) = Inr (stop_rh h) \<and>
   waiting_requests (stop_rh h) = waiting_requests h \<and>
   waiting_requests (start_rh now' (stop_rh h)) = waiting_requests h \<and>
   posted (stop_rh h) = posted h"
  by (simp add: check_waiting_requests_def stop_rh_def start_rh_def)

end
