(* ===== verification/Cleanup_Protocol.thy ===== *)
theory Cleanup_Protocol
  imports Prelude
begin

text \<open>
  The handshake between requests and cleanup (\<open>issue_request\<close>, \<open>record\<close> and \<open>cleanup_check\<close> of
  models/detail/DefaultRequestHandlerModel.hxx): both use the mutex \<open>m_cv_mutex\<close>, the condition
  variable \<open>m_cv\<close>, the flag \<open>m_cleanup_requested\<close> and the counter \<open>m_requests_running\<close>. Any number of
  threads interleave. A critical section that does not wait is one step; a wait on the condition
  variable releases the mutex and sleeps until a \<open>notify_all\<close>, and there are no other wakeups, so
  that a lost notification would show as a deadlock.
\<close>

section \<open>State and steps\<close>

text \<open>
  Where a thread is. A request thread has tested the flag and sleeps, was woken, has counted itself
  (and has yet to notify), reads the buffer, or has uncounted itself (and has yet to notify). A
  cleanup thread sleeps until no request runs, was woken, cleans up holding the mutex, or has
  cleared the flag and has yet to notify, still holding the mutex.
\<close>

datatype pc =
    Idle
  | ReqSleep | ReqWoken | ReqEntered | ReqReading | ReqLeft
  | CleanSleep | CleanWoken | Cleaning | CleanNotify

record cv_state =
  m_cleanup_requested :: bool
  m_requests_running :: nat
  threads :: "pc list"

text \<open>The mutex is held between steps only by a thread that cleans up or is about to notify after it.\<close>

definition mutex_free :: "cv_state \<Rightarrow> bool" where
  "mutex_free s \<longleftrightarrow> Cleaning \<notin> set (threads s) \<and> CleanNotify \<notin> set (threads s)"

fun wake :: "pc \<Rightarrow> pc" where
  "wake ReqSleep = ReqWoken"
| "wake CleanSleep = CleanWoken"
| "wake p = p"

definition move :: "nat \<Rightarrow> pc \<Rightarrow> cv_state \<Rightarrow> cv_state" where
  "move i p s = s\<lparr>threads := (threads s)[i := p]\<rparr>"

definition notify_all :: "cv_state \<Rightarrow> cv_state" where
  "notify_all s = s\<lparr>threads := map wake (threads s)\<rparr>"

inductive cv_step :: "nat \<Rightarrow> cv_state \<Rightarrow> cv_state \<Rightarrow> bool" where
  ReqEnter: "i < length (threads s) \<Longrightarrow> threads s ! i \<in> {Idle, ReqWoken} \<Longrightarrow> mutex_free s \<Longrightarrow> \<not> m_cleanup_requested s \<Longrightarrow>
     cv_step i s (move i ReqEntered (s\<lparr>m_requests_running := m_requests_running s + 1\<rparr>))"
| ReqWait: "i < length (threads s) \<Longrightarrow> threads s ! i \<in> {Idle, ReqWoken} \<Longrightarrow> mutex_free s \<Longrightarrow> m_cleanup_requested s \<Longrightarrow>
     cv_step i s (move i ReqSleep s)"
| ReqNotifyEntered: "i < length (threads s) \<Longrightarrow> threads s ! i = ReqEntered \<Longrightarrow>
     cv_step i s (notify_all (move i ReqReading s))"
| ReqLeave: "i < length (threads s) \<Longrightarrow> threads s ! i = ReqReading \<Longrightarrow> mutex_free s \<Longrightarrow>
     cv_step i s (move i ReqLeft (s\<lparr>m_requests_running := m_requests_running s - 1\<rparr>))"
| ReqNotifyLeft: "i < length (threads s) \<Longrightarrow> threads s ! i = ReqLeft \<Longrightarrow> cv_step i s (notify_all (move i Idle s))"
| CleanStart: "i < length (threads s) \<Longrightarrow> threads s ! i = Idle \<Longrightarrow> mutex_free s \<Longrightarrow> \<not> m_cleanup_requested s \<Longrightarrow>
     cv_step i s (move i (if m_requests_running s = 0 then Cleaning else CleanSleep) (s\<lparr>m_cleanup_requested := True\<rparr>))"
| CleanRecheck: "i < length (threads s) \<Longrightarrow> threads s ! i = CleanWoken \<Longrightarrow> mutex_free s \<Longrightarrow>
     cv_step i s (move i (if m_requests_running s = 0 then Cleaning else CleanSleep) s)"
| CleanDone: "i < length (threads s) \<Longrightarrow> threads s ! i = Cleaning \<Longrightarrow>
     cv_step i s (move i CleanNotify (s\<lparr>m_cleanup_requested := False\<rparr>))"
| CleanNotifyDone: "i < length (threads s) \<Longrightarrow> threads s ! i = CleanNotify \<Longrightarrow> cv_step i s (notify_all (move i Idle s))"

text \<open>Some thread takes a step.\<close>

definition any_step :: "cv_state \<Rightarrow> cv_state \<Rightarrow> bool" where
  "any_step s s' \<longleftrightarrow> (\<exists>i. cv_step i s s')"

definition initial_cv :: "nat \<Rightarrow> cv_state" where
  "initial_cv n = \<lparr>m_cleanup_requested = False, m_requests_running = 0, threads = replicate n Idle\<rparr>"

section \<open>Invariant\<close>

definition counted :: "pc \<Rightarrow> bool" where
  "counted p \<longleftrightarrow> p = ReqEntered \<or> p = ReqReading"

definition requesting :: "pc \<Rightarrow> bool" where
  "requesting p \<longleftrightarrow> p = CleanSleep \<or> p = CleanWoken \<or> p = Cleaning"

definition holding :: "pc \<Rightarrow> bool" where
  "holding p \<longleftrightarrow> p = Cleaning \<or> p = CleanNotify"

abbreviation count :: "(pc \<Rightarrow> bool) \<Rightarrow> pc list \<Rightarrow> nat" where
  "count P ts \<equiv> length (filter P ts)"

definition cv_inv :: "cv_state \<Rightarrow> bool" where
  "cv_inv s \<longleftrightarrow>
     m_requests_running s = count counted (threads s) \<and>
     count requesting (threads s) = (if m_cleanup_requested s then 1 else 0) \<and>
     count holding (threads s) \<le> 1 \<and>
     (Cleaning \<in> set (threads s) \<longrightarrow> m_requests_running s = 0) \<and>
     (ReqSleep \<in> set (threads s) \<longrightarrow> m_cleanup_requested s \<or> CleanNotify \<in> set (threads s)) \<and>
     (CleanSleep \<in> set (threads s) \<longrightarrow> m_requests_running s > 0 \<or> ReqLeft \<in> set (threads s))"

lemma count_update:
  "i < length ts \<Longrightarrow> count P (ts[i := p]) + (if P (ts ! i) then 1 else 0) = count P ts + (if P p then 1 else 0)"
proof (induction ts arbitrary: i)
  case (Cons t ts)
  then show ?case by (cases i) auto
qed simp

lemma wake_classes [simp]: "counted (wake p) = counted p" "requesting (wake p) = requesting p" "holding (wake p) = holding p"
  by (cases p; simp add: counted_def requesting_def holding_def)+

lemma wake_comp [simp]: "counted \<circ> wake = counted" "requesting \<circ> wake = requesting" "holding \<circ> wake = holding"
  by (simp_all add: fun_eq_iff)

lemma wake_eq [simp]:
  "wake p = Cleaning \<longleftrightarrow> p = Cleaning" "wake p \<noteq> ReqSleep" "wake p \<noteq> CleanSleep"
  "Cleaning = wake p \<longleftrightarrow> p = Cleaning" "ReqSleep \<noteq> wake p" "CleanSleep \<noteq> wake p"
  by (cases p; simp)+

lemma count_zero: "mutex_free s \<Longrightarrow> count holding (threads s) = 0"
  by (auto simp: mutex_free_def holding_def filter_empty_conv)

lemma count_pos: "p \<in> set ts \<Longrightarrow> P p \<Longrightarrow> 0 < count P ts"
  by (induction ts) auto

lemma in_update: "p \<in> set (ts[i := x]) \<Longrightarrow> p = x \<or> p \<in> set ts"
  by (meson insertE set_update_subset_insert subsetD)

lemma in_update_keep: "p \<in> set ts \<Longrightarrow> ts ! i \<noteq> p \<Longrightarrow> p \<in> set (ts[i := x])"
  by (metis in_set_conv_nth length_list_update nth_list_update_neq)

lemma notify_all_inv:
  assumes "m_requests_running s = count counted (threads s)"
    and "count requesting (threads s) = (if m_cleanup_requested s then 1 else 0)"
    and "count holding (threads s) \<le> 1" and "Cleaning \<in> set (threads s) \<longrightarrow> m_requests_running s = 0"
  shows "cv_inv (notify_all s)"
  using assms by (auto simp: cv_inv_def notify_all_def filter_map image_iff)

lemmas class_defs = counted_def requesting_def holding_def

text \<open>What moving one thread does to the three counts.\<close>

lemma move_counts:
  assumes "i < length (threads s)"
  shows "count counted (threads (move i p s)) + (if counted (threads s ! i) then 1 else 0) =
           count counted (threads s) + (if counted p then 1 else 0)"
    and "count requesting (threads (move i p s)) + (if requesting (threads s ! i) then 1 else 0) =
           count requesting (threads s) + (if requesting p then 1 else 0)"
    and "count holding (threads (move i p s)) + (if holding (threads s ! i) then 1 else 0) =
           count holding (threads s) + (if holding p then 1 else 0)"
  using count_update [OF assms] by (simp_all add: move_def)

lemma move_members:
  assumes "i < length (threads s)"
  shows "x \<in> set (threads (move i p s)) \<Longrightarrow> x = p \<or> x \<in> set (threads s)"
    and "x \<in> set (threads s) \<Longrightarrow> threads s ! i \<noteq> x \<Longrightarrow> x \<in> set (threads (move i p s))"
  using in_update in_update_keep by (fastforce simp: move_def)+

lemma move_new: "i < length (threads s) \<Longrightarrow> p \<in> set (threads (move i p s))"
  by (simp add: move_def set_update_memI)

lemma move_sel [simp]:
  "m_cleanup_requested (move i p s) = m_cleanup_requested s" "m_requests_running (move i p s) = m_requests_running s"
  by (simp_all add: move_def)

lemma threads_update [simp]:
  "threads (s\<lparr>m_requests_running := n\<rparr>) = threads s" "threads (s\<lparr>m_cleanup_requested := c\<rparr>) = threads s"
  by simp_all

lemma cv_step_inv: "cv_step i s s' \<Longrightarrow> cv_inv s \<Longrightarrow> cv_inv s'"
proof (induction rule: cv_step.induct)
  case (ReqEnter i s)
  let ?s = "s\<lparr>m_requests_running := m_requests_running s + 1\<rparr>"
  show ?case
    using ReqEnter move_counts [of i ?s ReqEntered] move_members [of i ?s _ ReqEntered]
    by (auto simp: cv_inv_def class_defs mutex_free_def)
next
  case (ReqWait i s)
  then show ?case
    using move_counts [of i s ReqSleep] move_members [of i s _ ReqSleep]
    by (auto simp: cv_inv_def class_defs)
next
  case (ReqNotifyEntered i s)
  show ?case
    by (rule notify_all_inv)
      (use ReqNotifyEntered move_counts [of i s ReqReading] move_members [of i s _ ReqReading] in
        \<open>auto simp: cv_inv_def class_defs\<close>)
next
  case (ReqLeave i s)
  let ?s = "s\<lparr>m_requests_running := m_requests_running s - 1\<rparr>"
  show ?case
    using ReqLeave move_counts [of i ?s ReqLeft] move_members [of i ?s _ ReqLeft] move_new [of i ?s ReqLeft]
    by (auto simp: cv_inv_def class_defs mutex_free_def)
next
  case (ReqNotifyLeft i s)
  show ?case
    by (rule notify_all_inv)
      (use ReqNotifyLeft move_counts [of i s Idle] move_members [of i s _ Idle] in
        \<open>auto simp: cv_inv_def class_defs\<close>)
next
  case (CleanStart i s)
  let ?s = "s\<lparr>m_cleanup_requested := True\<rparr>" and ?p = "if m_requests_running s = 0 then Cleaning else CleanSleep"
  show ?case
    using CleanStart move_counts [of i ?s ?p] move_members [of i ?s _ ?p] count_zero [of s]
    by (cases "m_requests_running s = 0") (auto simp: cv_inv_def class_defs)
next
  case (CleanRecheck i s)
  let ?p = "if m_requests_running s = 0 then Cleaning else CleanSleep"
  show ?case
    using CleanRecheck move_counts [of i s ?p] move_members [of i s _ ?p] count_zero [of s]
    by (cases "m_requests_running s = 0"; cases "m_cleanup_requested s") (auto simp: cv_inv_def class_defs)
next
  case (CleanDone i s)
  let ?s = "s\<lparr>m_cleanup_requested := False\<rparr>"
  show ?case
    using CleanDone move_counts [of i ?s CleanNotify] move_members [of i ?s _ CleanNotify] move_new [of i ?s CleanNotify]
    by (auto simp: cv_inv_def class_defs split: if_splits)
next
  case (CleanNotifyDone i s)
  show ?case
    by (rule notify_all_inv)
      (use CleanNotifyDone move_counts [of i s Idle] move_members [of i s _ Idle] in
        \<open>auto simp: cv_inv_def class_defs\<close>)
qed

lemma initial_cv_inv: "cv_inv (initial_cv n)"
  by (simp add: cv_inv_def initial_cv_def class_defs)

lemma reachable_inv: "any_step\<^sup>*\<^sup>* (initial_cv n) s \<Longrightarrow> cv_inv s"
  by (induction rule: rtranclp_induct) (auto simp: any_step_def intro: initial_cv_inv cv_step_inv)

section \<open>Mutual exclusion\<close>

lemma count_le_one_unique: "count P ts \<le> 1 \<Longrightarrow> i < length ts \<Longrightarrow> j < length ts \<Longrightarrow> P (ts ! i) \<Longrightarrow> P (ts ! j) \<Longrightarrow> i = j"
proof (induction ts arbitrary: i j)
  case (Cons t ts)
  have none: "count P ts = 0 \<Longrightarrow> k < length ts \<Longrightarrow> \<not> P (ts ! k)" for k
    using count_pos [of "ts ! k" ts P] by auto
  show ?case
    using Cons.prems none Cons.IH [of "i - 1" "j - 1"] by (cases i; cases j; auto split: if_splits)
qed simp

text \<open>
  C11. Whatever the number of threads and their interleaving, while a thread cleans up the buffer
  no request reads it (the counter of running requests is 0 and agrees with the threads), no
  other thread cleans up, and the counter never runs below zero.
\<close>

theorem cleanup_excludes_requests:
  assumes "any_step\<^sup>*\<^sup>* (initial_cv n) s" and "i < length (threads s)" and "threads s ! i = Cleaning"
  shows "m_requests_running s = 0 \<and> ReqReading \<notin> set (threads s) \<and> ReqEntered \<notin> set (threads s) \<and>
         (\<forall>j < length (threads s). threads s ! j = Cleaning \<longrightarrow> j = i)"
proof -
  have inv: "cv_inv s" by (rule reachable_inv [OF assms(1)])
  have "Cleaning \<in> set (threads s)" using assms(2,3) nth_mem by force
  then have zero: "m_requests_running s = 0" "count counted (threads s) = 0" using inv by (auto simp: cv_inv_def)
  have "\<not> counted p" if "p \<in> set (threads s)" for p using count_pos [OF that, of counted] zero(2) by auto
  then have none: "ReqReading \<notin> set (threads s)" "ReqEntered \<notin> set (threads s)" by (auto simp: counted_def)
  have "j = i" if "j < length (threads s)" "threads s ! j = Cleaning" for j
    using count_le_one_unique [of holding "threads s" j i] inv assms(2,3) that by (simp add: cv_inv_def holding_def)
  then show ?thesis using zero(1) none by blast
qed

theorem cleanup_excludes_requests_witness:
  "\<exists>s. any_step\<^sup>*\<^sup>* (initial_cv 2) s \<and> threads s = [Cleaning, Idle] \<and> m_requests_running s = 0"
proof -
  let ?s = "move 0 (if m_requests_running (initial_cv 2) = 0 then Cleaning else CleanSleep)
      (initial_cv 2\<lparr>m_cleanup_requested := True\<rparr>)"
  have "cv_step 0 (initial_cv 2) ?s"
    by (rule cv_step.CleanStart) (simp_all add: initial_cv_def mutex_free_def)
  then have r: "any_step\<^sup>*\<^sup>* (initial_cv 2) ?s" using any_step_def by blast
  have t: "threads ?s = [Cleaning, Idle]" by (simp add: initial_cv_def move_def numeral_2_eq_2)
  show ?thesis using cleanup_excludes_requests [OF r, of 0] r t by auto
qed

section \<open>No deadlock\<close>

lemma awake_step:
  assumes "i < length (threads s)" and "mutex_free s" and "threads s ! i \<noteq> Idle" and "threads s ! i \<noteq> ReqSleep"
    and "threads s ! i \<noteq> CleanSleep"
  shows "\<exists>s'. cv_step i s s'"
proof (cases "threads s ! i")
  case ReqWoken
  then show ?thesis
    using ReqEnter [OF assms(1) _ assms(2)] ReqWait [OF assms(1) _ assms(2)] by (cases "m_cleanup_requested s") auto
next
  case ReqEntered
  then show ?thesis using ReqNotifyEntered [OF assms(1)] by auto
next
  case ReqReading
  then show ?thesis using ReqLeave [OF assms(1) _ assms(2)] by auto
next
  case ReqLeft
  then show ?thesis using ReqNotifyLeft [OF assms(1)] by auto
next
  case CleanWoken
  then show ?thesis using CleanRecheck [OF assms(1) _ assms(2)] by auto
next
  case Cleaning
  then show ?thesis using CleanDone [OF assms(1)] by auto
next
  case CleanNotify
  then show ?thesis using CleanNotifyDone [OF assms(1)] by auto
qed (use assms in simp_all)

text \<open>
  C20. No notification is lost: in every reachable state in which some thread is not idle, a thread
  that is not idle can take a step, without relying on spurious wakeups. In particular a waiting
  cleanup or request is never left asleep with nobody to wake it.
\<close>

theorem no_thread_is_stuck:
  assumes "any_step\<^sup>*\<^sup>* (initial_cv n) s" and "p \<in> set (threads s)" and "p \<noteq> Idle"
  shows "\<exists>i s'. i < length (threads s) \<and> threads s ! i \<noteq> Idle \<and> threads s ! i \<noteq> ReqSleep \<and>
                threads s ! i \<noteq> CleanSleep \<and> cv_step i s s'"
proof -
  have inv: "cv_inv s" by (rule reachable_inv [OF assms(1)])
  have awake: "\<exists>x \<in> set (threads s). x \<noteq> Idle \<and> x \<noteq> ReqSleep \<and> x \<noteq> CleanSleep"
  proof (rule ccontr)
    assume none: "\<not> ?thesis"
    then have "count counted (threads s) = 0" by (auto simp: filter_empty_conv counted_def)
    then have zero: "m_requests_running s = 0" using inv by (simp add: cv_inv_def)
    have "CleanSleep \<notin> set (threads s)" using inv zero none by (auto simp: cv_inv_def)
    moreover have "ReqSleep \<notin> set (threads s)"
    proof
      assume "ReqSleep \<in> set (threads s)"
      then have "m_cleanup_requested s" using inv none by (auto simp: cv_inv_def)
      then have "filter requesting (threads s) \<noteq> []" using inv by (auto simp: cv_inv_def)
      then show False using none calculation by (auto simp: filter_empty_conv requesting_def)
    qed
    ultimately show False using assms(2,3) none by blast
  qed
  show ?thesis
  proof (cases "mutex_free s")
    case True
    obtain i where i: "i < length (threads s)" "threads s ! i \<noteq> Idle" "threads s ! i \<noteq> ReqSleep"
        "threads s ! i \<noteq> CleanSleep"
      using awake by (auto simp: in_set_conv_nth)
    then show ?thesis using awake_step [OF i(1) True i(2-4)] by blast
  next
    case False
    then obtain i where i: "i < length (threads s)" "threads s ! i = Cleaning \<or> threads s ! i = CleanNotify"
      by (auto simp: mutex_free_def in_set_conv_nth)
    then have "\<exists>s'. cv_step i s s'" using cv_step.CleanDone cv_step.CleanNotifyDone by blast
    then show ?thesis using i by auto
  qed
qed

theorem no_thread_is_stuck_witness:
  "\<exists>s s'. any_step\<^sup>*\<^sup>* (initial_cv 1) s \<and> threads s = [ReqEntered] \<and> cv_step 0 s s'"
proof -
  let ?s = "move 0 ReqEntered (initial_cv 1\<lparr>m_requests_running := m_requests_running (initial_cv 1) + 1\<rparr>)"
  have "cv_step 0 (initial_cv 1) ?s" by (rule cv_step.ReqEnter) (simp_all add: initial_cv_def mutex_free_def)
  then have r: "any_step\<^sup>*\<^sup>* (initial_cv 1) ?s" using any_step_def by blast
  have t: "threads ?s = [ReqEntered]" by (simp add: initial_cv_def move_def)
  show ?thesis using no_thread_is_stuck [OF r, of ReqEntered] r t by auto
qed

end
