(* ===== verification/Spsc_Protocol.thy ===== *)
theory Spsc_Protocol
  imports Iterable_Queue
begin

text \<open>
  The ring buffer used by two threads: one producer runs \<open>write\<close>, one consumer runs \<open>read\<close>
  (models/detail/IterableQueueModel.hxx), and their loads, stores and element accesses
  interleave. An index is published by a release store and read by an acquire load, so that the
  accesses of the two threads are ordered as the steps are; each thread reads its own index
  unsynchronised. The invariant says which slots hold objects at every point of the two
  programs; it gives first-in first-out order, the absence of invalid accesses and that the two
  threads never touch the same slot at the same time.
\<close>

section \<open>Steps\<close>

text \<open>Program points with the local variables that are live there.\<close>

datatype 'a producer =
    PIdle | PLoaded (p_record: 'a) (currentWrite: u32) | PChecked (p_record: 'a) (currentWrite: u32) (p_next: u32)
  | PBuilt (p_record: 'a) (p_next: u32)

datatype 'a consumer =
    CIdle | CLoaded (currentRead: u32) | CChecked (currentRead: u32) | CTaken (c_record: 'a) (currentRead: u32)
  | CGone (c_record: 'a) (currentRead: u32)

text \<open>The queue, the two threads, what was published and what was delivered so far.\<close>

record 'a spsc =
  sq :: "'a iterable_queue"
  ppc :: "'a producer"
  cpc :: "'a consumer"
  sent :: "'a list"
  got :: "'a list"

inductive spsc_step :: "'a spsc \<Rightarrow> 'a spsc \<Rightarrow> bool" where
  PStart: "ppc s = PIdle \<Longrightarrow> spsc_step s (s\<lparr>ppc := PLoaded x (writeIndex (sq s))\<rparr>)"
| PCheck: "ppc s = PLoaded x w \<Longrightarrow> next_index (qsize (sq s)) w \<noteq> readIndex (sq s) \<Longrightarrow>
     spsc_step s (s\<lparr>ppc := PChecked x w (next_index (qsize (sq s)) w)\<rparr>)"
| PFull: "ppc s = PLoaded x w \<Longrightarrow> next_index (qsize (sq s)) w = readIndex (sq s) \<Longrightarrow>
     spsc_step s (s\<lparr>ppc := PIdle, sq := (sq s)\<lparr>overflow_ctr := overflow_ctr (sq s) + 1\<rparr>\<rparr>)"
| PBuild: "ppc s = PChecked x w nxt \<Longrightarrow> construct x (unat w) (records (sq s)) = Inr r \<Longrightarrow>
     spsc_step s (s\<lparr>ppc := PBuilt x nxt, sq := (sq s)\<lparr>records := r\<rparr>\<rparr>)"
| PPublish: "ppc s = PBuilt x nxt \<Longrightarrow>
     spsc_step s (s\<lparr>ppc := PIdle, sq := (sq s)\<lparr>writeIndex := nxt\<rparr>, sent := sent s @ [x]\<rparr>)"
| CStart: "cpc s = CIdle \<Longrightarrow> spsc_step s (s\<lparr>cpc := CLoaded (readIndex (sq s))\<rparr>)"
| CEmpty: "cpc s = CLoaded i \<Longrightarrow> i = writeIndex (sq s) \<Longrightarrow> spsc_step s (s\<lparr>cpc := CIdle\<rparr>)"
| CCheck: "cpc s = CLoaded i \<Longrightarrow> i \<noteq> writeIndex (sq s) \<Longrightarrow> spsc_step s (s\<lparr>cpc := CChecked i\<rparr>)"
| CTake: "cpc s = CChecked i \<Longrightarrow> slot (records (sq s)) (unat i) = Inr x \<Longrightarrow> spsc_step s (s\<lparr>cpc := CTaken x i\<rparr>)"
| CDestroy: "cpc s = CTaken x i \<Longrightarrow> destroy (unat i) (records (sq s)) = Inr r \<Longrightarrow>
     spsc_step s (s\<lparr>cpc := CGone x i, sq := (sq s)\<lparr>records := r\<rparr>\<rparr>)"
| CPublish: "cpc s = CGone x i \<Longrightarrow>
     spsc_step s (s\<lparr>cpc := CIdle, sq := (sq s)\<lparr>readIndex := next_index (qsize (sq s)) i\<rparr>, got := got s @ [x]\<rparr>)"

definition spsc_start :: "'a iterable_queue \<Rightarrow> 'a spsc" where
  "spsc_start q = \<lparr>sq = q, ppc = PIdle, cpc = CIdle, sent = [], got = []\<rparr>"

section \<open>Invariant\<close>

text \<open>
  What slot \<open>k\<close> after the read index holds: the \<open>k\<close>-th stored element, but nothing at the read
  index while the consumer has destroyed it and not yet moved the index, and the element under
  construction at the write index while the producer has not yet moved that index.
\<close>

fun built :: "'a producer \<Rightarrow> 'a option" where
  "built (PBuilt x nxt) = Some x"
| "built p = None"

fun gone :: "'a consumer \<Rightarrow> bool" where
  "gone (CGone x i) = True"
| "gone c = False"

definition expected_cell :: "'a list \<Rightarrow> 'a option \<Rightarrow> bool \<Rightarrow> nat \<Rightarrow> 'a option" where
  "expected_cell vals b g k =
     (if k < length vals then (if g \<and> k = 0 then None else Some (vals ! k))
      else if k = length vals then b else None)"

definition producer_ok :: "'a iterable_queue \<Rightarrow> nat \<Rightarrow> 'a producer \<Rightarrow> bool" where
  "producer_ok q c p \<longleftrightarrow>
     (case p of PIdle \<Rightarrow> True | PLoaded x w \<Rightarrow> w = writeIndex q
      | PChecked x w nxt \<Rightarrow> w = writeIndex q \<and> nxt = next_index (qsize q) w \<and> c + 1 < unat (qsize q)
      | PBuilt x nxt \<Rightarrow> nxt = next_index (qsize q) (writeIndex q) \<and> c + 1 < unat (qsize q))"

definition consumer_ok :: "'a iterable_queue \<Rightarrow> 'a list \<Rightarrow> 'a consumer \<Rightarrow> bool" where
  "consumer_ok q vals c \<longleftrightarrow>
     (case c of CIdle \<Rightarrow> True | CLoaded i \<Rightarrow> i = readIndex q
      | CChecked i \<Rightarrow> i = readIndex q \<and> vals \<noteq> []
      | CTaken x i \<Rightarrow> i = readIndex q \<and> vals \<noteq> [] \<and> x = hd vals
      | CGone x i \<Rightarrow> i = readIndex q \<and> vals \<noteq> [] \<and> x = hd vals)"

definition ring_holds ::
  "'a iterable_queue \<Rightarrow> allocator \<Rightarrow> 'a option list \<Rightarrow> 'a list \<Rightarrow> 'a option \<Rightarrow> bool \<Rightarrow> bool" where
  "ring_holds q a xs vals b g \<longleftrightarrow>
     (let n = unat (qsize q); r = unat (readIndex q)
      in records q = Region a xs \<and> length xs = n \<and> 2 \<le> n \<and> n < 2 ^ 31 \<and> r < n \<and> length vals < n \<and>
         unat (writeIndex q) = (r + length vals) mod n \<and>
         (\<forall>k < n. xs ! ((r + k) mod n) = expected_cell vals b g k))"

definition spsc_holds :: "'a spsc \<Rightarrow> allocator \<Rightarrow> 'a option list \<Rightarrow> 'a list \<Rightarrow> bool" where
  "spsc_holds s a xs vals \<longleftrightarrow>
     ring_holds (sq s) a xs vals (built (ppc s)) (gone (cpc s)) \<and> producer_ok (sq s) (length vals) (ppc s) \<and>
     consumer_ok (sq s) vals (cpc s) \<and> sent s = got s @ vals"

definition spsc_inv :: "'a spsc \<Rightarrow> bool" where
  "spsc_inv s \<longleftrightarrow> (\<exists>a xs vals. spsc_holds s a xs vals)"

lemma ring_holdsD:
  assumes "ring_holds q a xs vals b g"
  shows "records q = Region a xs" "length xs = unat (qsize q)" "2 \<le> unat (qsize q)" "unat (qsize q) < 2 ^ 31"
    "unat (readIndex q) < unat (qsize q)" "length vals < unat (qsize q)"
    "unat (writeIndex q) = (unat (readIndex q) + length vals) mod unat (qsize q)"
    "k < unat (qsize q) \<Longrightarrow> xs ! ((unat (readIndex q) + k) mod unat (qsize q)) = expected_cell vals b g k"
  using assms by (auto simp: ring_holds_def Let_def)

text \<open>Operations on the ring, seen from the read index.\<close>

lemma ring_holds_config:
  "ring_holds q a xs vals b g \<Longrightarrow> ring_holds (q\<lparr>overflow_ctr := n\<rparr>) a xs vals b g"
  by (simp add: ring_holds_def)

lemma ring_set_cell:
  assumes "ring_holds q a xs vals b g" and "j < unat (qsize q)"
    and "\<And>k. k < unat (qsize q) \<Longrightarrow> expected_cell vals b' g' k = (if k = j then v else expected_cell vals b g k)"
  shows "ring_holds (q\<lparr>records := Region a (xs[(unat (readIndex q) + j) mod unat (qsize q) := v])\<rparr>) a
           (xs[(unat (readIndex q) + j) mod unat (qsize q) := v]) vals b' g'"
proof -
  note d = ring_holdsD [OF assms(1)]
  have lt: "(unat (readIndex q) + j) mod unat (qsize q) < length xs" using d(2,3) by simp
  have "xs[(unat (readIndex q) + j) mod unat (qsize q) := v] ! ((unat (readIndex q) + k) mod unat (qsize q)) =
      expected_cell vals b' g' k" if "k < unat (qsize q)" for k
    using assms(3) [OF that] d(8) [OF that] ring_inj [OF d(5) assms(2) that] lt by (simp add: nth_list_update)
  then show ?thesis using d by (simp add: ring_holds_def Let_def)
qed

lemma ring_publish_write:
  assumes "ring_holds q a xs vals (Some x) g" and "length vals + 1 < unat (qsize q)"
  shows "ring_holds (q\<lparr>writeIndex := next_index (qsize q) (writeIndex q)\<rparr>) a xs (vals @ [x]) None (g \<and> vals \<noteq> [])"
proof -
  note d = ring_holdsD [OF assms(1)]
  have "writeIndex q < qsize q" using d(3,7) by (simp add: word_less_nat_alt)
  then have w: "unat (next_index (qsize q) (writeIndex q)) = (unat (readIndex q) + (length vals + 1)) mod unat (qsize q)"
    using d(7) by (simp add: unat_next_index mod_simps)
  have "expected_cell (vals @ [x]) None (g \<and> vals \<noteq> []) k = expected_cell vals (Some x) g k" for k
    by (auto simp: expected_cell_def nth_append)
  then show ?thesis using d w assms(2) by (simp add: ring_holds_def Let_def)
qed

lemma ring_publish_read:
  assumes "ring_holds q a xs (v # vals) b True" and "b \<noteq> None \<longrightarrow> length (v # vals) + 1 < unat (qsize q)"
  shows "ring_holds (q\<lparr>readIndex := next_index (qsize q) (readIndex q)\<rparr>) a xs vals b False"
proof -
  note d = ring_holdsD [OF assms(1)]
  let ?n = "unat (qsize q)" and ?r = "unat (readIndex q)"
  have r: "unat (next_index (qsize q) (readIndex q)) = (?r + 1) mod ?n"
    using d(5) by (simp add: unat_next_index word_less_nat_alt)
  have "xs ! (((?r + 1) mod ?n + k) mod ?n) = expected_cell vals b False k" if k: "k < ?n" for k
  proof (cases "k + 1 < ?n")
    case True
    then show ?thesis
      using d(8) [OF True] ring_shift [of ?r ?n k] by (auto simp: expected_cell_def)
  next
    case False
    then have "k + 1 = ?n" using k by simp
    then have "((?r + 1) mod ?n + k) mod ?n = (?r + 0) mod ?n" using ring_shift [of ?r ?n k] by simp
    then have "xs ! (((?r + 1) mod ?n + k) mod ?n) = None"
      using d(8) [of 0] d(3) by (simp add: expected_cell_def)
    then show ?thesis using \<open>k + 1 = ?n\<close> d(6) assms(2) by (auto simp: expected_cell_def)
  qed
  then show ?thesis using d r ring_shift [of ?r ?n "length vals"] by (simp add: ring_holds_def Let_def)
qed

lemma gone_nonempty: "consumer_ok q vals c \<Longrightarrow> gone c \<Longrightarrow> vals \<noteq> []"
  by (cases c) (auto simp: consumer_ok_def)

lemma thread_ok_frame [simp]:
  "consumer_ok (q\<lparr>overflow_ctr := o'\<rparr>) vals c = consumer_ok q vals c"
  "consumer_ok (q\<lparr>records := r\<rparr>) vals c = consumer_ok q vals c"
  "producer_ok (q\<lparr>records := r\<rparr>) n p = producer_ok q n p"
  by (cases c; cases p; simp add: consumer_ok_def producer_ok_def)+

lemma spsc_holdsD:
  assumes "spsc_holds s a xs vals"
  shows "ring_holds (sq s) a xs vals (built (ppc s)) (gone (cpc s))" "producer_ok (sq s) (length vals) (ppc s)"
    "consumer_ok (sq s) vals (cpc s)" "sent s = got s @ vals"
  using assms by (auto simp: spsc_holds_def)

text \<open>A full or empty ring, as the threads see it.\<close>

lemma next_write_is_read:
  assumes "ring_holds q a xs vals b g"
  shows "next_index (qsize q) (writeIndex q) = readIndex q \<longleftrightarrow> length vals + 1 = unat (qsize q)"
proof -
  note d = ring_holdsD [OF assms]
  have "writeIndex q < qsize q" using d(3,7) by (simp add: word_less_nat_alt)
  then have w: "unat (next_index (qsize q) (writeIndex q)) = (unat (readIndex q) + (length vals + 1)) mod unat (qsize q)"
    using d(7) by (simp add: unat_next_index mod_simps)
  then show ?thesis
    using d(5,6) add_mod_ring [of "unat (readIndex q)" "unat (qsize q)" "length vals + 1"]
    by (auto simp: word_unat_eq_iff split: if_splits)
qed

lemma read_is_write:
  assumes "ring_holds q a xs vals b g"
  shows "readIndex q = writeIndex q \<longleftrightarrow> vals = []"
  using ring_holdsD (5,6,7) [OF assms] ring_self_iff [of "unat (readIndex q)" "unat (qsize q)" "length vals"]
  by (auto simp: word_unat_eq_iff)

lemma spsc_step_inv: "spsc_step s s' \<Longrightarrow> spsc_inv s \<Longrightarrow> spsc_inv s'"
proof (induction rule: spsc_step.induct)
  case (PStart s x)
  then show ?case by (auto simp: spsc_inv_def spsc_holds_def producer_ok_def)
next
  case (PCheck s x w)
  then obtain a xs vals where h: "spsc_holds s a xs vals" by (auto simp: spsc_inv_def)
  note d = spsc_holdsD [OF h]
  have "length vals + 1 < unat (qsize (sq s))"
    using next_write_is_read [OF d(1)] ring_holdsD (6) [OF d(1)] PCheck.hyps d(2) by (auto simp: producer_ok_def)
  then have "spsc_holds (s\<lparr>ppc := PChecked x w (next_index (qsize (sq s)) w)\<rparr>) a xs vals"
    using d PCheck.hyps by (simp add: spsc_holds_def producer_ok_def)
  then show ?case by (auto simp: spsc_inv_def)
next
  case (PFull s x w)
  then obtain a xs vals where h: "spsc_holds s a xs vals" by (auto simp: spsc_inv_def)
  have "spsc_holds (s\<lparr>ppc := PIdle, sq := (sq s)\<lparr>overflow_ctr := overflow_ctr (sq s) + 1\<rparr>\<rparr>) a xs vals"
    using spsc_holdsD [OF h] PFull.hyps by (simp add: spsc_holds_def producer_ok_def ring_holds_config)
  then show ?case by (auto simp: spsc_inv_def)
next
  case (PBuild s x w nxt r)
  then obtain a xs vals where h: "spsc_holds s a xs vals" by (auto simp: spsc_inv_def)
  note d = spsc_holdsD [OF h]
  let ?j = "(unat (readIndex (sq s)) + length vals) mod unat (qsize (sq s))"
  have w: "unat w = ?j" using d(2) ring_holdsD (7) [OF d(1)] PBuild.hyps(1) by (simp add: producer_ok_def)
  have r: "r = Region a (xs[?j := Some x])"
    using PBuild.hyps(2) ring_holdsD (1,2,3) [OF d(1)] w by (simp split: if_splits)
  have "ring_holds (sq s\<lparr>records := r\<rparr>) a (xs[?j := Some x]) vals (Some x) (gone (cpc s))"
    unfolding r by (rule ring_set_cell [OF d(1)])
      (use ring_holdsD (6) [OF d(1)] PBuild.hyps(1) in \<open>auto simp: expected_cell_def\<close>)
  then have "spsc_holds (s\<lparr>ppc := PBuilt x nxt, sq := (sq s)\<lparr>records := r\<rparr>\<rparr>) a (xs[?j := Some x]) vals"
    using d PBuild.hyps(1) by (auto simp: spsc_holds_def producer_ok_def consumer_ok_def split: consumer.splits)
  then show ?case by (auto simp: spsc_inv_def)
next
  case (PPublish s x nxt)
  then obtain a xs vals where h: "spsc_holds s a xs vals" by (auto simp: spsc_inv_def)
  note d = spsc_holdsD [OF h]
  have nxt: "nxt = next_index (qsize (sq s)) (writeIndex (sq s))" and room: "length vals + 1 < unat (qsize (sq s))"
    using d(2) PPublish.hyps by (auto simp: producer_ok_def)
  have b: "built (ppc s) = Some x" using PPublish.hyps by simp
  have g: "(gone (cpc s) \<and> vals \<noteq> []) = gone (cpc s)" using gone_nonempty [OF d(3)] by auto
  have "ring_holds (sq s\<lparr>writeIndex := nxt\<rparr>) a xs (vals @ [x]) None (gone (cpc s))"
    using ring_publish_write [OF d(1) [unfolded b] room] unfolding nxt g .
  then have "spsc_holds (s\<lparr>ppc := PIdle, sq := (sq s)\<lparr>writeIndex := nxt\<rparr>, sent := sent s @ [x]\<rparr>) a xs (vals @ [x])"
    using d(3,4) by (auto simp: spsc_holds_def producer_ok_def consumer_ok_def split: consumer.splits)
  then show ?case by (auto simp: spsc_inv_def)
next
  case (CStart s)
  then show ?case by (auto simp: spsc_inv_def spsc_holds_def consumer_ok_def)
next
  case (CEmpty s i)
  then show ?case by (auto simp: spsc_inv_def spsc_holds_def consumer_ok_def)
next
  case (CCheck s i)
  then obtain a xs vals where h: "spsc_holds s a xs vals" by (auto simp: spsc_inv_def)
  note d = spsc_holdsD [OF h]
  have "vals \<noteq> []" using read_is_write [OF d(1)] CCheck.hyps d(3) by (auto simp: consumer_ok_def)
  then have "spsc_holds (s\<lparr>cpc := CChecked i\<rparr>) a xs vals" using d CCheck.hyps by (simp add: spsc_holds_def consumer_ok_def)
  then show ?case by (auto simp: spsc_inv_def)
next
  case (CTake s i x)
  then obtain a xs vals where h: "spsc_holds s a xs vals" by (auto simp: spsc_inv_def)
  note d = spsc_holdsD [OF h]
  note rd = ring_holdsD [OF d(1)]
  have ne: "vals \<noteq> []" and i: "i = readIndex (sq s)" using d(3) CTake.hyps(1) by (auto simp: consumer_ok_def)
  have "xs ! unat i = Some (hd vals)"
    using rd(8) [of 0] rd(3,5) ne i CTake.hyps(1) by (simp add: expected_cell_def hd_conv_nth)
  then have "x = hd vals" using CTake.hyps(2) rd(1,2,5) i by simp
  then have "spsc_holds (s\<lparr>cpc := CTaken x i\<rparr>) a xs vals"
    using d CTake.hyps(1) ne i by (simp add: spsc_holds_def consumer_ok_def)
  then show ?case by (auto simp: spsc_inv_def)
next
  case (CDestroy s x i r)
  then obtain a xs vals where h: "spsc_holds s a xs vals" by (auto simp: spsc_inv_def)
  note d = spsc_holdsD [OF h]
  note rd = ring_holdsD [OF d(1)]
  let ?j = "(unat (readIndex (sq s)) + 0) mod unat (qsize (sq s))"
  have i: "unat i = ?j" using d(3) CDestroy.hyps(1) rd(5) by (simp add: consumer_ok_def)
  have r: "r = Region a (xs[?j := None])" using CDestroy.hyps(2) rd(1,2) i by (simp split: if_splits)
  have "vals \<noteq> []" using d(3) CDestroy.hyps(1) by (simp add: consumer_ok_def)
  then have "ring_holds (sq s\<lparr>records := r\<rparr>) a (xs[?j := None]) vals (built (ppc s)) True"
    unfolding r by (intro ring_set_cell [OF d(1)])
      (use rd(3) CDestroy.hyps(1) in \<open>auto simp: expected_cell_def\<close>)
  then have "spsc_holds (s\<lparr>cpc := CGone x i, sq := (sq s)\<lparr>records := r\<rparr>\<rparr>) a (xs[?j := None]) vals"
    using d CDestroy.hyps(1) by (auto simp: spsc_holds_def producer_ok_def consumer_ok_def split: producer.splits)
  then show ?case by (auto simp: spsc_inv_def)
next
  case (CPublish s x i)
  then obtain a xs vals where h: "spsc_holds s a xs vals" by (auto simp: spsc_inv_def)
  note d = spsc_holdsD [OF h]
  obtain v vs where v: "vals = v # vs" "x = v" "i = readIndex (sq s)"
    using d(3) CPublish.hyps by (cases vals) (auto simp: consumer_ok_def)
  have g: "gone (cpc s) = True" using CPublish.hyps by simp
  have room: "built (ppc s) \<noteq> None \<longrightarrow> length (v # vs) + 1 < unat (qsize (sq s))"
    using d(2) v(1) by (cases "ppc s") (auto simp: producer_ok_def)
  have "ring_holds (sq s\<lparr>readIndex := next_index (qsize (sq s)) i\<rparr>) a xs vs (built (ppc s)) False"
    using ring_publish_read [OF d(1) [unfolded v(1) g] room] unfolding v(3) .
  then have "spsc_holds (s\<lparr>cpc := CIdle, sq := (sq s)\<lparr>readIndex := next_index (qsize (sq s)) i\<rparr>,
      got := got s @ [x]\<rparr>) a xs vs"
    using d(2,4) v by (auto simp: spsc_holds_def producer_ok_def consumer_ok_def split: producer.splits)
  then show ?case by (auto simp: spsc_inv_def)
qed

lemma queue_inv_ring_holds:
  assumes "queue_inv q" and "contents q = []"
  shows "\<exists>a xs. ring_holds q a xs [] None False"
proof -
  have st: "stored q = 0" using assms(2) by (simp flip: length_contents)
  obtain a xs where rep: "ring_rep q a xs (unat (qsize q)) (unat (readIndex q)) 0"
    using assms(1) st by (elim queue_inv_rep) simp
  note d = ring_repD [OF rep]
  have "xs ! ((unat (readIndex q) + k) mod unat (qsize q)) = None" if "k < unat (qsize q)" for k
    using ring_rep_live [OF rep that] by simp
  then have "ring_holds q a xs [] None False"
    using d by (simp add: ring_holds_def Let_def expected_cell_def)
  then show ?thesis by blast
qed

lemma spsc_start_inv: "queue_inv q \<Longrightarrow> contents q = [] \<Longrightarrow> spsc_inv (spsc_start q)"
  using queue_inv_ring_holds [of q]
  by (auto simp: spsc_inv_def spsc_holds_def spsc_start_def producer_ok_def consumer_ok_def)

lemma spsc_reachable_inv:
  "spsc_step\<^sup>*\<^sup>* (spsc_start q) s \<Longrightarrow> queue_inv q \<Longrightarrow> contents q = [] \<Longrightarrow> spsc_inv s"
  by (induction rule: rtranclp_induct) (auto intro: spsc_start_inv spsc_step_inv)

section \<open>Properties\<close>

text \<open>
  With one producer and one consumer whose steps interleave in any way on an initially empty
  well-formed queue, what the consumer has received is always a prefix of what the producer has
  published: elements arrive in order, none is lost, duplicated or torn, and at most the capacity
  of the ring is in flight.
\<close>

theorem spsc_is_fifo:
  assumes "queue_inv q" and "contents q = []" and "spsc_step\<^sup>*\<^sup>* (spsc_start q) s"
  shows "\<exists>inflight. sent s = got s @ inflight \<and> length inflight < unat (qsize (sq s))"
proof -
  obtain a xs vals where h: "spsc_holds s a xs vals"
    using spsc_reachable_inv [OF assms(3,1,2)] by (auto simp: spsc_inv_def)
  then show ?thesis using spsc_holdsD (4) [OF h] ring_holdsD (6) [OF spsc_holdsD (1) [OF h]] by blast
qed

text \<open>An empty queue of two slots.\<close>

definition small_queue :: "u64 iterable_queue" where
  "small_queue = default_queue \<lparr>with_libnuma = False, alloc_succeeds = (\<lambda>_ _. True), trivially_destructible = True\<rparr>"

lemma small_queue_inv: "queue_inv small_queue" "contents small_queue = []"
  using fresh_queue_inv [of small_queue StdMalloc]
  by (simp_all add: small_queue_def default_queue_def alloc_region_def)

text \<open>A run in which the producer has found room for an element.\<close>

lemma producer_checked_run:
  "\<exists>s. spsc_step\<^sup>*\<^sup>* (spsc_start small_queue) s \<and> ppc s = PChecked 7 0 1 \<and> sq s = small_queue"
proof -
  let ?s0 = "spsc_start small_queue"
  let ?s1 = "?s0\<lparr>ppc := PLoaded 7 (writeIndex (sq ?s0))\<rparr>"
  let ?s2 = "?s1\<lparr>ppc := PChecked 7 0 (next_index (qsize (sq ?s1)) 0)\<rparr>"
  have sel: "writeIndex small_queue = 0" "readIndex small_queue = 0" "qsize small_queue = 2"
    by (simp_all add: small_queue_def default_queue_def)
  have "spsc_step ?s0 ?s1" by (rule spsc_step.PStart) (simp add: spsc_start_def)
  moreover have "spsc_step ?s1 ?s2"
    by (rule spsc_step.PCheck) (simp_all add: spsc_start_def sel next_index_def)
  ultimately have "spsc_step\<^sup>*\<^sup>* ?s0 ?s2" by (meson converse_rtranclp_into_rtranclp rtranclp.rtrancl_refl)
  then show ?thesis by (intro exI [of _ ?s2]) (simp add: spsc_start_def sel next_index_def)
qed

theorem spsc_is_fifo_witness:
  "\<exists>s. spsc_step\<^sup>*\<^sup>* (spsc_start small_queue) s \<and> ppc s = PChecked 7 0 1 \<and>
       (\<exists>inflight. sent s = got s @ inflight \<and> length inflight < 2)"
proof -
  obtain s where s: "spsc_step\<^sup>*\<^sup>* (spsc_start small_queue) s" "ppc s = PChecked 7 0 1" "sq s = small_queue"
    using producer_checked_run by blast
  then show ?thesis
    using spsc_is_fifo [OF small_queue_inv s(1)] by (auto simp: small_queue_def default_queue_def)
qed

text \<open>
  In every interleaving, when the producer is about to construct an element the slot is raw
  memory of the ring, and when the consumer is about to read or destroy one the slot holds a
  live object; and the slot the producer works on is never the slot the consumer works on. So
  no thread faults or blocks in the middle of an operation, and the two threads never access the
  same slot at the same time.
\<close>

theorem spsc_accesses_are_valid:
  assumes "queue_inv q" and "contents q = []" and "spsc_step\<^sup>*\<^sup>* (spsc_start q) s"
  shows "(\<forall>x w nxt. ppc s = PChecked x w nxt \<longrightarrow>
            (\<exists>r. construct x (unat w) (records (sq s)) = Inr r) \<and> slot (records (sq s)) (unat w) = Inl InvalidAccess) \<and>
         (\<forall>i. cpc s = CChecked i \<longrightarrow> (\<exists>x. slot (records (sq s)) (unat i) = Inr x)) \<and>
         (\<forall>x i. cpc s = CTaken x i \<longrightarrow> (\<exists>r. destroy (unat i) (records (sq s)) = Inr r)) \<and>
         (\<forall>x w nxt. ppc s = PChecked x w nxt \<and> (cpc s = CChecked i \<or> cpc s = CTaken y i \<or> cpc s = CGone y i)
            \<longrightarrow> w \<noteq> i)"
proof -
  obtain a xs vals where h: "spsc_holds s a xs vals"
    using spsc_reachable_inv [OF assms(3,1,2)] by (auto simp: spsc_inv_def)
  note d = spsc_holdsD [OF h]
  note rd = ring_holdsD [OF d(1)]
  have wr: "w = writeIndex (sq s) \<and> length vals + 1 < unat (qsize (sq s))" if "ppc s = PChecked x w nxt" for x w nxt
    using d(2) that by (simp add: producer_ok_def)
  have raw: "xs ! unat (writeIndex (sq s)) = None" if "ppc s = PChecked x w nxt" for x w nxt
    using rd(8) [of "length vals"] rd(6,7) that by (simp add: expected_cell_def)
  have cr: "i = readIndex (sq s) \<and> vals \<noteq> []" if "cpc s = CChecked i \<or> cpc s = CTaken y i \<or> cpc s = CGone y i" for y i
    using d(3) that by (auto simp: consumer_ok_def)
  have live: "xs ! unat (readIndex (sq s)) = Some (hd vals)" if "cpc s = CChecked i \<or> cpc s = CTaken y i" for y i
  proof -
    have "vals \<noteq> []" "\<not> gone (cpc s)" using cr [of i y] that by auto
    then show ?thesis using rd(8) [of 0] rd(3,5) by (simp add: expected_cell_def hd_conv_nth)
  qed
  have lw: "unat (writeIndex (sq s)) < length xs" using rd(2,3,7) by simp
  have lr: "unat (readIndex (sq s)) < length xs" using rd(2,5) by simp
  have "readIndex (sq s) \<noteq> writeIndex (sq s)" if "vals \<noteq> []" using read_is_write [OF d(1)] that by simp
  then show ?thesis using wr raw cr live lw lr rd(1) by auto
qed

theorem spsc_accesses_are_valid_witness:
  "\<exists>s. spsc_step\<^sup>*\<^sup>* (spsc_start small_queue) s \<and> ppc s = PChecked 7 0 1 \<and>
       (\<exists>r. construct 7 0 (records (sq s)) = Inr r)"
proof -
  obtain s where s: "spsc_step\<^sup>*\<^sup>* (spsc_start small_queue) s" "ppc s = PChecked 7 0 1"
    using producer_checked_run by blast
  then show ?thesis using spsc_accesses_are_valid [OF small_queue_inv s(1)] by auto
qed

end
