(* ===== verification/Utilities.thy ===== *)
theory Utilities
  imports Prelude
begin

text \<open>
  Small utilities: copying into a circular byte buffer (utils/BufferCopy.hpp and \<open>dump_to_buffer\<close> of
  models/DefaultRequestHandlerModel.hpp, which have the same body), the rate limiter of the
  emulators (utils/RateLimiter.hpp) and the generator of error bits (utils/ErrorBitGenerator.hpp).
\<close>

section \<open>Copying into a circular buffer\<close>

text \<open>\<open>memcpy\<close> of \<open>n\<close> bytes from the beginning of \<open>data\<close> to position \<open>pos\<close> of the buffer.\<close>

definition memcpy_at :: "u8 list \<Rightarrow> nat \<Rightarrow> nat \<Rightarrow> u8 list \<Rightarrow> fault + u8 list" where
  "memcpy_at data n pos buffer =
     (if n \<le> length data \<and> pos + n \<le> length buffer
      then Inr (take pos buffer @ take n data @ drop (pos + n) buffer) else Inl InvalidAccess)"

text \<open>
  The loop, with the 32-bit position and the 64-bit sizes of the code. Every round copies from
  the beginning of \<open>data\<close>.
\<close>

partial_function (option) copy_loop ::
  "u8 list \<Rightarrow> u64 \<Rightarrow> u64 \<Rightarrow> u32 \<Rightarrow> u8 list \<Rightarrow> (fault + u8 list) option" where
  "copy_loop data buffer_size bytes_to_copy buffer_pos buffer =
     (if bytes_to_copy = 0 then Some (Inr buffer)
      else let n = min bytes_to_copy (buffer_size - ucast buffer_pos)
           in case memcpy_at data (unat n) (unat buffer_pos) buffer of
                Inl f \<Rightarrow> Some (Inl f)
              | Inr buffer \<Rightarrow>
                  let buffer_pos = buffer_pos + ucast n
                  in copy_loop data buffer_size (bytes_to_copy - n)
                       (if ucast buffer_pos = buffer_size then 0 else buffer_pos) buffer)"

definition buffer_copy :: "u8 list \<Rightarrow> u64 \<Rightarrow> u32 \<Rightarrow> u64 \<Rightarrow> u8 list \<Rightarrow> (fault + u8 list) option" where
  "buffer_copy data sz buffer_pos buffer_size buffer = copy_loop data buffer_size sz buffer_pos buffer"

definition dump_to_buffer :: "u8 list \<Rightarrow> u64 \<Rightarrow> u32 \<Rightarrow> u64 \<Rightarrow> u8 list \<Rightarrow> (fault + u8 list) option" where
  "dump_to_buffer data sz buffer_pos buffer_size buffer = copy_loop data buffer_size sz buffer_pos buffer"

lemma copy_round:
  assumes "0 < m" and "m \<le> length data" and "pos < bsize" and "bsize = length buffer" and "bsize < 2 ^ 32"
    and "m < 2 ^ 64" and "n = min m (bsize - pos)"
  shows "copy_loop data (of_nat bsize) (of_nat m) (of_nat pos) buffer =
         copy_loop data (of_nat bsize) (of_nat (m - n)) (of_nat (if pos + n = bsize then 0 else pos + n))
           (take pos buffer @ take n data @ drop (pos + n) buffer)"
proof -
  have u: "unat (of_nat m :: u64) = m" "unat (of_nat bsize :: u64) = bsize" "unat (of_nat pos :: u32) = pos"
    using assms by (auto simp: unat_of_nat_u64 unat_of_nat_u32)
  have left: "unat (of_nat bsize - ucast (of_nat pos :: u32) :: u64) = bsize - pos"
    using u assms(3) by (simp add: unat_sub word_le_nat_alt)
  have n: "min (of_nat m) (of_nat bsize - ucast (of_nat pos :: u32)) = (of_nat n :: u64)"
  proof -
    have "unat (min (of_nat m) (of_nat bsize - ucast (of_nat pos :: u32)) :: u64) = n"
      using u(1) left assms(7) by (simp add: min_def word_le_nat_alt)
    then show ?thesis using assms(6,7) by (subst word_unat_eq_iff) (simp add: unat_of_nat_u64 min_def)
  qed
  have n64: "unat (of_nat n :: u64) = n" using assms(6,7) by (simp add: unat_of_nat_u64 min_def)
  have nle: "n \<le> m" "pos + n \<le> bsize" using assms(3,7) by auto
  have nz: "(of_nat m :: u64) \<noteq> 0" using u(1) assms(1) by auto
  have pos': "(of_nat pos :: u32) + ucast (of_nat n :: u64) = of_nat (pos + n)"
  proof -
    have "unat (ucast (of_nat n :: u64) :: u32) = n"
      using n64 nle(2) assms(5) by (simp add: unsigned_ucast_eq take_bit_nat_eq_self)
    then have "(ucast (of_nat n :: u64) :: u32) = of_nat n"
      using nle(2) assms(5) by (subst word_unat_eq_iff) (simp add: unat_of_nat_u32)
    then show ?thesis by simp
  qed
  have eq: "(ucast (of_nat (pos + n) :: u32) :: u64) = of_nat bsize \<longleftrightarrow> pos + n = bsize"
    using nle(2) assms(5) u(2) by (subst word_unat_eq_iff) (simp add: unat_of_nat_u32 del: of_nat_add)
  have mem: "memcpy_at data n pos buffer = Inr (take pos buffer @ take n data @ drop (pos + n) buffer)"
    using nle assms(2,4) by (simp add: memcpy_at_def)
  have rest: "(of_nat m :: u64) - of_nat n = of_nat (m - n)" using nle(1) by (simp add: of_nat_diff)
  show ?thesis
    using nz by (subst copy_loop.simps)
      (simp add: Let_def n n64 u(3) mem pos' eq rest del: of_nat_add of_nat_diff)
qed

lemma copy_loop_done [simp]: "copy_loop data bsize 0 pos buffer = Some (Inr buffer)"
  by (simp add: copy_loop.simps)

text \<open>
  \<open>buffer_copy\<close> terminates and copies correctly when the data fits between the position and
  the end of the buffer: exactly the bytes from the position on are replaced by the data, and the
  rest of the buffer keeps its contents.
\<close>

theorem buffer_copy_within_buffer:
  assumes "pos + length data \<le> length buffer" and "pos < length buffer" and "length buffer < 2 ^ 32"
  shows "buffer_copy data (of_nat (length data)) (of_nat pos) (of_nat (length buffer)) buffer =
         Some (Inr (take pos buffer @ data @ drop (pos + length data) buffer))"
proof (cases "data = []")
  case False
  then show ?thesis
    using copy_round [of "length data" data pos "length buffer" buffer "length data"] assms
    by (simp add: buffer_copy_def)
qed (simp add: buffer_copy_def)

theorem buffer_copy_within_buffer_witness:
  "buffer_copy [1, 2] 2 1 4 [0, 0, 0, 0] = Some (Inr [0, 1, 2, 0])"
  using buffer_copy_within_buffer [of 1 "[1, 2]" "[0, 0, 0, 0]"] by simp

text \<open>
  C40. When the data does not fit before the end of the buffer, \<open>buffer_copy\<close> continues at the
  beginning of the buffer but copies again from the beginning of the data: the wrapped part of the
  buffer holds the first bytes of the data instead of the remaining ones.
\<close>

theorem buffer_copy_wraps_with_wrong_bytes:
  assumes "pos < length buffer" and "length buffer < 2 ^ 32" and "length buffer < pos + length data"
    and "length data \<le> length buffer"
  defines "first \<equiv> length buffer - pos"
  shows "buffer_copy data (of_nat (length data)) (of_nat pos) (of_nat (length buffer)) buffer =
         Some (Inr (take (length data - first) data @ drop (length data - first) (take pos buffer) @ take first data))"
proof -
  let ?b = "take pos buffer @ take first data"
  have fl: "first \<le> length data" "0 < first" "data \<noteq> []" using assms by auto
  have len: "length ?b = length buffer" using assms fl by simp
  have round1: "buffer_copy data (of_nat (length data)) (of_nat pos) (of_nat (length buffer)) buffer =
      copy_loop data (of_nat (length buffer)) (of_nat (length data - first)) 0 ?b"
    using copy_round [of "length data" data pos "length buffer" buffer first] assms fl
    by (simp add: buffer_copy_def)
  define m where "m = length data - first"
  have m: "0 < m" "m \<le> pos" "m \<le> length data" using assms by (auto simp: m_def)
  have "copy_loop data (of_nat (length buffer)) (of_nat m) (of_nat 0) ?b =
      copy_loop data (of_nat (length buffer)) (of_nat (m - m)) (of_nat (if 0 + m = length buffer then 0 else 0 + m))
        (take 0 ?b @ take m data @ drop (0 + m) ?b)"
    by (rule copy_round) (use m assms(1,2) len in \<open>auto simp: min_def\<close>)
  then have round2: "copy_loop data (of_nat (length buffer)) (of_nat m) 0 ?b = Some (Inr (take m data @ drop m ?b))"
    by (simp only: diff_self_eq_0 semiring_1_class.of_nat_0 copy_loop_done take_0 append_Nil add_0)
  have "drop m ?b = drop m (take pos buffer) @ take first data" using m(2) assms(1) by simp
  then show ?thesis using round1 round2 unfolding m_def by (simp only:)
qed

theorem buffer_copy_wraps_with_wrong_bytes_witness:
  "buffer_copy [1, 2, 3, 4] 4 2 4 [0, 0, 0, 0] = Some (Inr [1, 2, 1, 2])"
  using buffer_copy_wraps_with_wrong_bytes [of 2 "[0, 0, 0, 0]" "[1, 2, 3, 4]"] by simp

section \<open>Rate limiter\<close>

text \<open>
  Times are 64-bit counts of nanoseconds. The readings of the monotonic clock are the list argument of
  \<open>limit\<close>; waiting (the sleep and the busy loop after it) drops readings until one reaches the
  deadline, and a clock that never does so makes the call not return, which is \<open>None\<close>. The
  conversion from kilohertz to the period is a double-precision quotient and enters as the
  period.
\<close>

record rate_limiter =
  rl_max_overshoot :: u64
  rl_period :: u64
  rl_now :: u64
  rl_deadline :: u64

definition init_rl :: "u64 \<Rightarrow> rate_limiter \<Rightarrow> rate_limiter" where
  "init_rl t l = l\<lparr>rl_now := t, rl_deadline := t + rl_period l\<rparr>"

definition make_rl :: "u64 \<Rightarrow> u64 \<Rightarrow> rate_limiter" where
  "make_rl period t =
     init_rl t \<lparr>rl_max_overshoot = 10000000, rl_period = period, rl_now = 0, rl_deadline = 0\<rparr>"

definition adjust_rl :: "u64 \<Rightarrow> rate_limiter \<Rightarrow> rate_limiter" where
  "adjust_rl period l = l\<lparr>rl_period := period\<rparr>"

text \<open>A reading of the clock: seconds and nanoseconds, added up in 64 bits.\<close>

record timespec =
  tv_sec :: u64
  tv_nsec :: u64

definition gettime :: "timespec \<Rightarrow> u64" where
  "gettime ts = tv_sec ts * 1000000000 + tv_nsec ts"

lemma unat_gettime:
  assumes "unat (tv_sec ts) < 2 ^ 34" and "unat (tv_nsec ts) < 1000000000"
  shows "unat (gettime ts) = unat (tv_sec ts) * 1000000000 + unat (tv_nsec ts)"
proof -
  have "unat (tv_sec ts * 1000000000) = unat (tv_sec ts) * 1000000000"
    using assms(1) iffD1 [OF unat_mult_lem, of "tv_sec ts" 1000000000] by simp
  then show ?thesis using assms by (simp add: gettime_def unat_plus_if')
qed

text \<open>Readings are ordered as their seconds and nanoseconds are, for times before the year 2500.\<close>

lemma gettime_mono:
  assumes "unat (tv_sec t) < 2 ^ 34" "unat (tv_sec u) < 2 ^ 34" "unat (tv_nsec t) < 1000000000" "unat (tv_nsec u) < 1000000000"
    and "tv_sec t < tv_sec u \<or> tv_sec t = tv_sec u \<and> tv_nsec t \<le> tv_nsec u"
  shows "gettime t \<le> gettime u"
  using assms(3-5) unat_gettime [OF assms(1,3)] unat_gettime [OF assms(2,4)]
  by (auto simp: word_le_nat_alt word_less_nat_alt)

fun wait_until :: "u64 \<Rightarrow> u64 list \<Rightarrow> (u64 \<times> u64 list) option" where
  "wait_until deadline [] = None"
| "wait_until deadline (t # ts) = (if t < deadline then wait_until deadline ts else Some (t, ts))"

definition limit_rl :: "u64 list \<Rightarrow> rate_limiter \<Rightarrow> (rate_limiter \<times> u64 list) option" where
  "limit_rl clock l =
     (case clock of
        [] \<Rightarrow> None
      | t # ts \<Rightarrow>
          let l = l\<lparr>rl_now := t\<rparr>
          in if t > rl_deadline l + rl_max_overshoot l
             then Some (l\<lparr>rl_deadline := t + rl_period l\<rparr>, ts)
             else case (if t < rl_deadline l then wait_until (rl_deadline l) ts else Some (t, ts)) of
                    None \<Rightarrow> None
                  | Some (now, rest) \<Rightarrow>
                      Some (l\<lparr>rl_now := now, rl_deadline := rl_deadline l + rl_period l\<rparr>, rest))"

fun limit_times :: "nat \<Rightarrow> u64 list \<Rightarrow> rate_limiter \<Rightarrow> (rate_limiter \<times> u64 list) option" where
  "limit_times 0 clock l = Some (l, clock)"
| "limit_times (Suc k) clock l =
     (case limit_rl clock l of None \<Rightarrow> None | Some (l', rest) \<Rightarrow> limit_times k rest l')"

lemma wait_until_reached: "wait_until d ts = Some (t, rest) \<Longrightarrow> d \<le> t \<and> t \<in> set ts \<and> set rest \<subseteq> set ts"
  by (induction ts) (auto split: if_splits)

lemma wait_until_returns: "\<exists>t \<in> set ts. d \<le> t \<Longrightarrow> \<exists>t rest. wait_until d ts = Some (t, rest)"
  by (induction ts) (auto simp: not_less)

text \<open>One call returns no earlier than the deadline and moves it by at least one period.\<close>

lemma limit_rl_step:
  assumes "limit_rl clock l = Some (l', rest)" and "\<forall>t \<in> set clock. unat t < 2 ^ 62"
    and "unat (rl_period l) < 2 ^ 62" and "unat (rl_deadline l) < 2 ^ 63" and "rl_max_overshoot l = 10000000"
  shows "unat (rl_deadline l) \<le> unat (rl_now l')" "unat (rl_deadline l) + unat (rl_period l) \<le> unat (rl_deadline l')"
    "unat (rl_deadline l') < 2 ^ 63" "rl_period l' = rl_period l" "rl_max_overshoot l' = rl_max_overshoot l"
    "set rest \<subseteq> set clock"
proof -
  obtain t ts where c: "clock = t # ts" using assms(1) by (cases clock) (auto simp: limit_rl_def)
  have t: "unat t < 2 ^ 62" using assms(2) c by simp
  have "unat (rl_deadline l) \<le> unat (rl_now l') \<and> unat (rl_deadline l) + unat (rl_period l) \<le> unat (rl_deadline l') \<and>
    unat (rl_deadline l') < 2 ^ 63 \<and> rl_period l' = rl_period l \<and> rl_max_overshoot l' = rl_max_overshoot l \<and>
    set rest \<subseteq> set clock"
  proof (cases "t > rl_deadline l + rl_max_overshoot l")
    case True
    have "unat (rl_deadline l + rl_max_overshoot l) = unat (rl_deadline l) + 10000000"
      using assms(4,5) by (simp add: unat_plus_if')
    then have "unat (rl_deadline l) \<le> unat t" using True by (simp add: word_less_nat_alt)
    moreover have "l' = l\<lparr>rl_now := t, rl_deadline := t + rl_period l\<rparr>" "rest = ts"
      using assms(1) c True by (simp_all add: limit_rl_def)
    ultimately show ?thesis using t assms(3) c by (auto simp: unat_plus_if')
  next
    case False
    obtain now where n: "(if t < rl_deadline l then wait_until (rl_deadline l) ts else Some (t, ts)) = Some (now, rest)"
        "l' = l\<lparr>rl_now := now, rl_deadline := rl_deadline l + rl_period l\<rparr>"
      using assms(1) c False
      by (cases "t < rl_deadline l") (auto simp: limit_rl_def Let_def split: option.splits)
    have now: "rl_deadline l \<le> now \<and> now \<in> set clock \<and> set rest \<subseteq> set clock"
      using n(1) wait_until_reached [of "rl_deadline l" ts now rest] c by (auto simp: not_less split: if_splits)
    then have "unat (rl_deadline l) < 2 ^ 62" using assms(2) by (auto simp: word_le_nat_alt)
    then show ?thesis using now n(2) assms(3) by (auto simp: unat_plus_if' word_le_nat_alt)
  qed
  then show "unat (rl_deadline l) \<le> unat (rl_now l')" "unat (rl_deadline l) + unat (rl_period l) \<le> unat (rl_deadline l')"
    "unat (rl_deadline l') < 2 ^ 63" "rl_period l' = rl_period l" "rl_max_overshoot l' = rl_max_overshoot l"
    "set rest \<subseteq> set clock" by blast+
qed

text \<open>
  C33. The limiter keeps the rate: however late the calls come, the \<open>(k + 1)\<close>-th call of \<open>limit\<close> after
  a deadline returns no earlier than \<open>k\<close> periods after that deadline, for clocks and
  periods below \<open>2 ^ 62\<close> nanoseconds.
\<close>

theorem rate_is_limited:
  assumes "limit_times (Suc k) clock l = Some (l', rest)" and "\<forall>t \<in> set clock. unat t < 2 ^ 62"
    and "unat (rl_period l) < 2 ^ 62" and "unat (rl_deadline l) < 2 ^ 63" and "rl_max_overshoot l = 10000000"
  shows "unat (rl_deadline l) + k * unat (rl_period l) \<le> unat (rl_now l')"
  using assms
proof (induction k arbitrary: clock l)
  case 0
  then show ?case using limit_rl_step (1) [of clock l l' rest] by (auto split: option.splits)
next
  case (Suc k)
  obtain l1 rest1 where s: "limit_rl clock l = Some (l1, rest1)" "limit_times (Suc k) rest1 l1 = Some (l', rest)"
    using Suc.prems(1) by (auto split: option.splits)
  note step = limit_rl_step [OF s(1) Suc.prems(2-5)]
  have "unat (rl_deadline l1) + k * unat (rl_period l1) \<le> unat (rl_now l')"
    by (rule Suc.IH [OF s(2)]) (use step Suc.prems in auto)
  then show ?case using step(2,4) by simp
qed

theorem rate_is_limited_witness:
  "\<exists>l' rest. limit_times (Suc 1) [5, 150, 160, 240] (make_rl 100 0) = Some (l', rest) \<and> 200 \<le> unat (rl_now l')"
proof -
  let ?l = "\<lparr>rl_max_overshoot = 10000000, rl_period = 100, rl_now = 240, rl_deadline = 300\<rparr>"
  have run: "limit_times (Suc 1) [5, 150, 160, 240] (make_rl 100 0) = Some (?l, [])"
    by (simp add: make_rl_def init_rl_def limit_rl_def Let_def)
  show ?thesis using rate_is_limited [OF run] run by (simp add: make_rl_def init_rl_def)
qed

text \<open>A clock that reaches the deadline ends the wait.\<close>

lemma limit_returns:
  "clock = t # ts \<Longrightarrow> \<exists>u \<in> set ts. rl_deadline l \<le> u \<Longrightarrow> \<exists>l' rest. limit_rl clock l = Some (l', rest)"
  using wait_until_returns [of ts "rl_deadline l"] by (auto simp: limit_rl_def Let_def)

section \<open>Error bits\<close>

text \<open>
  Arrays of 1000 entries filled at random; \<open>next\<close> walks through them in alternating phases with
  and without error bits. The random numbers are the arguments of \<open>generate\<close>.
\<close>

record error_bit_generator =
  eb_error_bits :: "u16 list"
  eb_error_occurrences :: "int list"
  eb_no_error_occurrences :: "int list"
  eb_error_bits_index :: nat
  eb_error_occurrences_index :: nat
  eb_no_error_occurrences_index :: nat
  eb_current_occurrence :: int
  eb_occurrence_count :: int
  eb_set_error_bits :: bool

definition eb_size :: nat where
  "eb_size = 1000"

text \<open>The constructor; the arrays are not initialised before \<open>generate\<close>.\<close>

definition new_error_bit_generator :: "u16 list \<Rightarrow> int list \<Rightarrow> int list \<Rightarrow> error_bit_generator" where
  "new_error_bit_generator bits errs no_errs =
     \<lparr>eb_error_bits = bits, eb_error_occurrences = errs, eb_no_error_occurrences = no_errs,
      eb_error_bits_index = 0, eb_error_occurrences_index = 0, eb_no_error_occurrences_index = 0,
      eb_current_occurrence = 0, eb_occurrence_count = 0, eb_set_error_bits = True\<rparr>"

definition generate_eb :: "(nat \<Rightarrow> u16) \<Rightarrow> (nat \<Rightarrow> int) \<Rightarrow> (nat \<Rightarrow> int) \<Rightarrow> error_bit_generator \<Rightarrow> error_bit_generator" where
  "generate_eb bits errs no_errs g =
     g\<lparr>eb_error_bits := map bits [0..<eb_size], eb_error_occurrences := map errs [0..<eb_size],
       eb_no_error_occurrences := map no_errs [0..<eb_size]\<rparr>"

definition eb_advance :: "error_bit_generator \<Rightarrow> error_bit_generator" where
  "eb_advance g =
     (if eb_occurrence_count g \<ge> eb_current_occurrence g
      then if eb_set_error_bits g
           then g\<lparr>eb_error_bits_index := (eb_error_bits_index g + 1) mod eb_size,
                  eb_error_occurrences_index := (eb_error_occurrences_index g + 1) mod eb_size,
                  eb_set_error_bits := False,
                  eb_current_occurrence := eb_no_error_occurrences g ! eb_no_error_occurrences_index g,
                  eb_occurrence_count := 0\<rparr>
           else g\<lparr>eb_no_error_occurrences_index := (eb_no_error_occurrences_index g + 1) mod eb_size,
                  eb_set_error_bits := True,
                  eb_current_occurrence := eb_error_occurrences g ! eb_error_occurrences_index g,
                  eb_occurrence_count := 0\<rparr>
      else g)"

definition next_eb :: "error_bit_generator \<Rightarrow> u16 \<times> error_bit_generator" where
  "next_eb g =
     (let g = eb_advance g; g = g\<lparr>eb_occurrence_count := eb_occurrence_count g + 1\<rparr>
      in (if eb_set_error_bits g \<and> eb_current_occurrence g \<noteq> 0 then eb_error_bits g ! eb_error_bits_index g else 0, g))"

definition eb_inv :: "error_bit_generator \<Rightarrow> bool" where
  "eb_inv g \<longleftrightarrow>
     length (eb_error_bits g) = eb_size \<and> length (eb_error_occurrences g) = eb_size \<and>
     length (eb_no_error_occurrences g) = eb_size \<and> eb_error_bits_index g < eb_size \<and>
     eb_error_occurrences_index g < eb_size \<and> eb_no_error_occurrences_index g < eb_size"

lemma generated_eb_inv: "eb_inv (generate_eb rbits rerrs rno_errs (new_error_bit_generator bits errs no_errs))"
  by (simp add: eb_inv_def generate_eb_def new_error_bit_generator_def eb_size_def)

text \<open>Every array access of \<open>next\<close> is within the arrays.\<close>

lemma next_eb_inv: "eb_inv g \<Longrightarrow> eb_inv (snd (next_eb g))"
  by (auto simp: eb_inv_def next_eb_def eb_advance_def Let_def eb_size_def)

end
