(* ===== verification/Recording_Contract.thy ===== *)
theory Recording_Contract
  imports Request_Contract
begin

text \<open>
  What a recording of the default request handler writes while data arrives and cleanup removes old
  elements: the stored stream from its oldest element on, without gaps and repetitions, as long as
  the stream itself has no gap; behind a gap that cleanup has reached the recording stops.
\<close>

section \<open>Streams without gaps\<close>

definition recorded_bytes :: "'a readout_ops \<Rightarrow> ('a, 'f) daq_env \<Rightarrow> 'a \<Rightarrow> u8 list" where
  "recorded_bytes R D x = take (unat (get_payload_size R x)) (payload_bytes D x)"

text \<open>Each element begins where the one before it ends, and ends within 64 bits after its begin.\<close>

definition gapless :: "'a readout_ops \<Rightarrow> 'a list \<Rightarrow> bool" where
  "gapless R xs \<longleftrightarrow> (\<forall>x \<in> set xs. get_timestamp R x < element_end R x) \<and>
                  successively (\<lambda>x y. element_end R x = get_timestamp R y) xs"

lemma gapless_append: "gapless R (xs @ ys) \<Longrightarrow> gapless R xs \<and> gapless R ys"
  by (auto simp: gapless_def successively_append_iff)

lemma gapless_drop: "gapless R xs \<Longrightarrow> gapless R (drop k xs)"
  using gapless_append [of R "take k xs" "drop k xs"] by simp

lemma gapless_nth: "gapless R xs \<Longrightarrow> Suc k < length xs \<Longrightarrow> element_end R (xs ! k) = get_timestamp R (xs ! Suc k)"
proof -
  assume "gapless R xs" and k: "Suc k < length xs"
  then have "successively (\<lambda>x y. element_end R x = get_timestamp R y) (drop k xs)"
    using gapless_drop by (auto simp: gapless_def)
  then show ?thesis using k by (simp add: Cons_nth_drop_Suc [symmetric])
qed

lemma gapless_ends: "gapless R xs \<Longrightarrow> k < length xs \<Longrightarrow> get_timestamp R (xs ! k) < element_end R (xs ! k)"
  by (simp add: gapless_def)

lemma gapless_ts_sorted: "gapless R xs \<Longrightarrow> ts_sorted R xs"
proof -
  assume "gapless R xs"
  then have "successively (\<lambda>x y. get_timestamp R x < get_timestamp R y) xs"
    unfolding gapless_def by (auto elim!: successively_mono)
  then show ?thesis
    unfolding ts_sorted_def by (subst successively_iff_sorted_wrt_strong [symmetric]) auto
qed

section \<open>Writing elements\<close>

text \<open>
  The file of the handler's writer with the buffer size and the use of \<open>O_DIRECT\<close>, and whether its
  device takes every write that is made in this way.
\<close>

definition same_sink :: "'f request_handler \<Rightarrow> 'f request_handler \<Rightarrow> bool" where
  "same_sink h h' \<longleftrightarrow>
     w_filename (buffered_writer h') = w_filename (buffered_writer h) \<and>
     w_buffer_size (buffered_writer h') = w_buffer_size (buffered_writer h) \<and>
     w_use_o_direct (buffered_writer h') = w_use_o_direct (buffered_writer h)"

definition sink_takes :: "file_env \<Rightarrow> 'f request_handler \<Rightarrow> bool" where
  "sink_takes fenv h \<longleftrightarrow>
     reliable fenv (w_filename (buffered_writer h)) (w_buffer_size (buffered_writer h)) (w_use_o_direct (buffered_writer h))"

text \<open>The writer is open and no write has failed.\<close>

definition writable :: "'f request_handler \<Rightarrow> bool" where
  "writable h \<longleftrightarrow> w_is_open (buffered_writer h) \<and> \<not> w_bad (buffered_writer h)"

lemma record_flags [simp]:
  "writable (h\<lparr>recording := r, next_timestamp_to_record := n\<rparr>) = writable h"
  "sink_takes fenv (h\<lparr>recording := r, next_timestamp_to_record := n\<rparr>) = sink_takes fenv h"
  by (simp_all add: writable_def sink_takes_def)

lemma sink_takes_same: "same_sink h0 h \<Longrightarrow> sink_takes fenv h0 \<Longrightarrow> sink_takes fenv h"
  by (simp add: same_sink_def sink_takes_def)

lemma record_chunk_writes:
  fixes h :: "'f request_handler" and R :: "'a readout_ops"
  assumes "writable h" and "sink_takes fenv h"
    and "h' = record_chunk R D fenv x h"
  shows "writable h'" "same_sink h h'" "cleanup_requested h' = cleanup_requested h"
    "w_stream (buffered_writer h') = w_stream (buffered_writer h) @ recorded_bytes R D x"
    "payloads_written h' = payloads_written h + 1" "next_timestamp_to_record h' = element_end R x"
  using assms
  by (auto simp: record_chunk_def write_w_reliable recorded_bytes_def writable_def sink_takes_def same_sink_def Let_def)

lemma record_chunk_next: "next_timestamp_to_record (record_chunk R D fenv x h) = element_end R x"
  by (simp add: record_chunk_def Let_def split: prod.splits)

lemma record_chunks_write:
  fixes h :: "'f request_handler" and R :: "'a readout_ops"
  assumes "writable h" and "sink_takes fenv h"
    and h': "h' = fold (record_chunk R D fenv) xs h"
  shows "writable h' \<and> same_sink h h' \<and> cleanup_requested h' = cleanup_requested h \<and>
    w_stream (buffered_writer h') = w_stream (buffered_writer h) @ concat (map (recorded_bytes R D) xs) \<and>
    payloads_written h' = payloads_written h + of_nat (length xs) \<and>
    next_timestamp_to_record h' = (if xs = [] then next_timestamp_to_record h else element_end R (last xs))"
  using assms(1,2) unfolding h'
proof (induction xs arbitrary: h)
  case (Cons x xs)
  note facts = record_chunk_writes [OF Cons.prems refl, of R D x]
  show ?case
    using Cons.IH [OF facts(1) sink_takes_same [OF facts(2) Cons.prems(2)]] facts by (simp add: same_sink_def)
qed (simp add: same_sink_def)

section \<open>The buffers a recording can follow\<close>

text \<open>
  The recording searches with the flag that frames may be missing; it needs increasing timestamps
  only, and an answer on an empty buffer.
\<close>

locale recordable_buffer = fifo_buffer L lb_inv elements lb_pos + forward_searchable_buffer L lb_inv elements lb_pos R search_ready
  for L :: "('b, 'a, 'i) lb_ops" and lb_inv elements lb_pos and R :: "'a readout_ops" and search_ready +
  assumes ready_with_errors: "ts_sorted R xs \<Longrightarrow> search_ready True xs"
    and lower_bound_empty: "lb_inv b \<Longrightarrow> elements b = [] \<Longrightarrow>
      \<exists>i. lb_lower_bound L e True b = Some (Inr i) \<and> lb_pos b i 0"
    and end_not_good: "\<not> it_good L b (lb_end L b)"
begin

lemma record_loop_writes:
  "lb_inv b \<Longrightarrow> gapless R (elements b) \<Longrightarrow> lb_pos b i k \<Longrightarrow>
   (k < length (elements b) \<Longrightarrow> next_timestamp_to_record h \<le> get_timestamp R (elements b ! k)) \<Longrightarrow>
   record_loop R L D fenv b i processed h =
     Some (Inr (fold (record_chunk R D fenv) (take (1000 - processed) (drop k (elements b))) h))"
proof (induction "length (elements b) - k" arbitrary: i k processed h)
  case 0
  then have "length (elements b) \<le> k" by simp
  then show ?case using good_pos [OF 0(2,4)] by (subst record_loop.simps) simp
next
  case (Suc n)
  then have k: "k < length (elements b)" by simp
  let ?x = "elements b ! k" and ?h = "record_chunk R D fenv (elements b ! k) h"
  have good: "it_good L b i" using good_pos [OF Suc.prems(1,3)] k by simp
  then have "i \<noteq> lb_end L b" using end_not_good by metis
  show ?case
  proof (cases "processed < 1000")
    case True
    have n: "n = length (elements b) - Suc k" using Suc(2) by simp
    have "next_timestamp_to_record ?h \<le> get_timestamp R (elements b ! Suc k)" if "Suc k < length (elements b)"
      using gapless_nth [OF Suc.prems(2) that] record_chunk_next [of R D fenv ?x h] by simp
    moreover have "lb_pos b (it_next L b i) (Suc k)" using next_pos [OF Suc.prems(1,3) k] by simp
    ultimately have "record_loop R L D fenv b (it_next L b i) (Suc processed) ?h =
        Some (Inr (fold (record_chunk R D fenv) (take (1000 - Suc processed) (drop (Suc k) (elements b))) ?h))"
      by (intro Suc.hyps(1) [OF n Suc.prems(1,2)])
    moreover have "1000 - processed = Suc (1000 - Suc processed)" using True by simp
    ultimately show ?thesis
      using True good \<open>i \<noteq> lb_end L b\<close> deref_pos [OF Suc.prems(1,3) k] Suc.prems(4) [OF k] Cons_nth_drop_Suc [OF k, symmetric]
      by (subst record_loop.simps) simp
  next
    case False
    then show ?thesis by (subst record_loop.simps) simp
  qed
qed

text \<open>A round writes up to 1000 elements from the next timestamp on, the first round from the front.\<close>

lemma record_round_writes:
  fixes h :: "'f request_handler"
  assumes inv: "lb_inv b" and gap: "gapless R (elements b)"
    and idle: "\<not> cleanup_requested h"
  defines "n \<equiv> if next_timestamp_to_record h = 0 then (if elements b = [] then 0 else get_timestamp R (hd (elements b)))
               else next_timestamp_to_record h"
  assumes key: "elements b \<noteq> [] \<Longrightarrow> \<not> elem_less R (set_timestamp R n (uninit_element R)) (hd (elements b))"
  shows "record_round R L D fenv b h = Some (Inr (fold (record_chunk R D fenv)
           (take 1000 (drop (lb_index R n (elements b)) (elements b))) (h\<lparr>next_timestamp_to_record := n\<rparr>)))"
proof -
  let ?e = "set_timestamp R n (uninit_element R)" and ?k = "lb_index R n (elements b)"
  have ts: "get_timestamp R ?e = n" by (rule get_set_timestamp)
  obtain i where i: "lb_lower_bound L ?e True b = Some (Inr i)" "lb_pos b i ?k"
  proof (cases "elements b = []")
    case True
    then show ?thesis using lower_bound_empty [OF inv True, of ?e] that by (auto simp: lb_index_def)
  next
    case False
    then show ?thesis
      using lower_bound_pos [OF inv ready_with_errors [OF gapless_ts_sorted [OF gap]] False key] that ts by auto
  qed
  have "record_loop R L D fenv b i 0 (h\<lparr>next_timestamp_to_record := n\<rparr>) = Some (Inr (fold (record_chunk R D fenv)
      (take 1000 (drop ?k (elements b))) (h\<lparr>next_timestamp_to_record := n\<rparr>)))"
    using record_loop_writes [OF inv gap i(2), of "h\<lparr>next_timestamp_to_record := n\<rparr>" D fenv 0] lb_index_at [of R n "elements b"]
    by simp
  then show ?thesis
    using i(1) idle front_elements [OF inv] unfolding record_round_def n_def by (auto simp: Let_def)
qed

text \<open>What a cleanup that returns has removed: elements that are recorded already.\<close>

lemma pop_loop_removes:
  "pop_loop R L t n popped b = Inr (count, b') \<Longrightarrow> lb_inv b \<Longrightarrow>
   \<exists>j \<le> length (elements b). lb_inv b' \<and> elements b' = drop j (elements b) \<and> (\<forall>x \<in> set (take j (elements b)). get_timestamp R x < t)"
proof (induction n arbitrary: b popped)
  case (Suc n)
  show ?case
  proof (cases "elements b")
    case (Cons x xs)
    then have ft: "front_timestamp R L b = Inr (get_timestamp R x)"
      using front_elements [OF Suc.prems(2)] by (simp add: front_timestamp_def)
    obtain b1 where b1: "lb_pop L 1 b = Inr b1" "lb_inv b1" "elements b1 = xs"
      using pop_elements [OF Suc.prems(2), of 1] Cons by auto
    show ?thesis
    proof (cases "get_timestamp R x < t")
      case True
      then have "pop_loop R L t n (popped + 1) b1 = Inr (count, b')" using Suc.prems(1) ft b1(1) by simp
      from Suc.IH [OF this b1(2)] obtain j where "j \<le> length xs" "lb_inv b'" "elements b' = drop j xs"
          "\<forall>y \<in> set (take j xs). get_timestamp R y < t"
        using b1(3) by auto
      then show ?thesis using Cons True by (intro exI [of _ "Suc j"]) simp
    next
      case False
      then show ?thesis using Suc.prems ft by (intro exI [of _ 0]) simp
    qed
  qed (use Suc.prems front_elements [OF Suc.prems(2)] in \<open>simp add: front_timestamp_def\<close>)
qed (intro exI [of _ 0], simp)

lemma cleanup_check_removes:
  assumes run: "cleanup_check R L (b, h) = Inr (b', h')" and inv: "lb_inv b" and idle: "\<not> cleanup_requested h"
  shows "\<exists>j \<le> length (elements b). lb_inv b' \<and> elements b' = drop j (elements b) \<and>
           (\<forall>x \<in> set (take j (elements b)). get_timestamp R x < next_timestamp_to_record h) \<and>
           (elements b \<noteq> [] \<longrightarrow> j < length (elements b))"
    and "\<not> cleanup_requested h' \<and> next_timestamp_to_record h' = next_timestamp_to_record h \<and>
         buffered_writer h' = buffered_writer h \<and> payloads_written h' = payloads_written h"
proof -
  show "\<not> cleanup_requested h' \<and> next_timestamp_to_record h' = next_timestamp_to_record h \<and>
         buffered_writer h' = buffered_writer h \<and> payloads_written h' = payloads_written h"
    using run idle by (auto simp: cleanup_check_def cleanup_rh_def Let_def bindE_def split: if_splits sum.splits)
  show "\<exists>j \<le> length (elements b). lb_inv b' \<and> elements b' = drop j (elements b) \<and>
           (\<forall>x \<in> set (take j (elements b)). get_timestamp R x < next_timestamp_to_record h) \<and>
           (elements b \<noteq> [] \<longrightarrow> j < length (elements b))"
  proof (cases "lb_occupancy L b > ucast (pop_limit_size h)")
    case True
    obtain n count where pop: "pop_loop R L (next_timestamp_to_record h) n 0 b = Inr (count, b')"
        and ft: "front_timestamp R L b' \<noteq> Inl NullDeref"
      using run idle True by (auto simp: cleanup_check_def cleanup_rh_def Let_def bindE_def split: sum.splits)
    obtain j where "j \<le> length (elements b)" "lb_inv b'" "elements b' = drop j (elements b)"
        "\<forall>x \<in> set (take j (elements b)). get_timestamp R x < next_timestamp_to_record h"
      using pop_loop_removes [OF pop inv] by blast
    moreover have "elements b' \<noteq> []" using ft front_elements [OF \<open>lb_inv b'\<close>] by (auto simp: front_timestamp_def)
    ultimately show ?thesis by (intro exI [of _ j]) auto
  next
    case False
    then show ?thesis using run inv by (intro exI [of _ 0]) (auto simp: cleanup_check_def)
  qed
qed

end

section \<open>Recording while data arrives and cleanup runs\<close>

text \<open>
  The steps of a running recording: an element is stored, or refused by a full buffer; a cleanup
  check; a round of the recording task. The third part of the state is the stream that was stored:
  what the buffer held at the start and every element that was stored since.
\<close>

inductive others_step ::
  "'a readout_ops \<Rightarrow> ('b, 'a, 'i) lb_ops \<Rightarrow> 'b \<times> 'f request_handler \<times> 'a list \<Rightarrow> 'b \<times> 'f request_handler \<times> 'a list \<Rightarrow> bool"
  for R L where
  Stored: "lb_write L x b = Inr (True, b') \<Longrightarrow> others_step R L (b, h, xs) (b', h, xs @ [x])"
| Refused: "lb_write L x b = Inr (False, b') \<Longrightarrow> others_step R L (b, h, xs) (b', h, xs)"
| CleanedUp: "cleanup_check R L (b, h) = Inr (b', h') \<Longrightarrow> others_step R L (b, h, xs) (b', h', xs)"

inductive rec_step ::
  "'a readout_ops \<Rightarrow> ('b, 'a, 'i) lb_ops \<Rightarrow> ('a, 'f) daq_env \<Rightarrow> file_env \<Rightarrow>
   'b \<times> 'f request_handler \<times> 'a list \<Rightarrow> 'b \<times> 'f request_handler \<times> 'a list \<Rightarrow> bool"
  for R L D fenv where
  Others: "others_step R L s s' \<Longrightarrow> rec_step R L D fenv s s'"
| Round: "record_round R L D fenv b h = Some (Inr h') \<Longrightarrow> rec_step R L D fenv (b, h, xs) (b, h', xs)"

inductive_cases others_stepE: "others_step R L (b, h, xs) (b', h', xs')"

inductive_cases rec_stepE: "rec_step R L D fenv (b, h, xs) (b', h', xs')"

lemmas others_step_cases = others_stepE [consumes 1, case_names Stored Refused CleanedUp]

lemmas rec_step_cases = rec_stepE [consumes 1, case_names Others Round]

lemmas rec_steps_induct =
  rtranclp_induct [of _ "(ax, ay, az)" "(bx, by1, bz)", split_rule, consumes 1, case_names refl step]

text \<open>The timestamp to record next when the first \<open>m\<close> elements of a stream are written.\<close>

definition stream_next :: "'a readout_ops \<Rightarrow> 'a list \<Rightarrow> nat \<Rightarrow> u64" where
  "stream_next R xs m = (if m = 0 then get_timestamp R (xs ! 0) else element_end R (xs ! (m - 1)))"

lemma stream_next_append: "xs \<noteq> [] \<Longrightarrow> m \<le> length xs \<Longrightarrow> stream_next R (xs @ ys) m = stream_next R xs m"
  by (auto simp: stream_next_def nth_append)

text \<open>The first \<open>m\<close> elements of the stream are written since the recording began in \<open>h0\<close>.\<close>

definition recorded ::
  "'a readout_ops \<Rightarrow> ('a, 'f) daq_env \<Rightarrow> 'f request_handler \<Rightarrow> nat \<Rightarrow> 'f request_handler \<Rightarrow> 'a list \<Rightarrow> bool" where
  "recorded R D h0 m h xs \<longleftrightarrow>
     m \<le> length xs \<and> \<not> cleanup_requested h \<and> writable h \<and> same_sink h0 h \<and>
     w_stream (buffered_writer h) = w_stream (buffered_writer h0) @ concat (map (recorded_bytes R D) (take m xs)) \<and>
     payloads_written h = payloads_written h0 + of_nat m \<and>
     (m = 0 \<and> next_timestamp_to_record h = 0 \<or> xs \<noteq> [] \<and> next_timestamp_to_record h = stream_next R xs m)"

text \<open>The buffer holds the stream from element \<open>p\<close> on, and \<open>p\<close> is among the first \<open>m\<close> elements or their end.\<close>

definition held :: "('b \<Rightarrow> bool) \<Rightarrow> ('b \<Rightarrow> 'a list) \<Rightarrow> nat \<Rightarrow> nat \<Rightarrow> 'b \<Rightarrow> 'a list \<Rightarrow> bool" where
  "held lb_inv elements p m b xs \<longleftrightarrow>
     lb_inv b \<and> elements b = drop p xs \<and> p \<le> m \<and> m \<le> length xs \<and> (xs \<noteq> [] \<longrightarrow> p < length xs)"

text \<open>What the recording depends on in the handler.\<close>

definition same_recording :: "'f request_handler \<Rightarrow> 'f request_handler \<Rightarrow> bool" where
  "same_recording h h' \<longleftrightarrow>
     cleanup_requested h' = cleanup_requested h \<and> next_timestamp_to_record h' = next_timestamp_to_record h \<and>
     buffered_writer h' = buffered_writer h \<and> payloads_written h' = payloads_written h"

definition following ::
  "('b \<Rightarrow> bool) \<Rightarrow> ('b \<Rightarrow> 'a list) \<Rightarrow> 'a readout_ops \<Rightarrow> ('a, 'f) daq_env \<Rightarrow> 'f request_handler \<Rightarrow> nat \<Rightarrow> nat \<Rightarrow>
   'b \<times> 'f request_handler \<times> 'a list \<Rightarrow> bool" where
  "following lb_inv elements R D h0 p m = (\<lambda>(b, h, xs).
     held lb_inv elements p m b xs \<and> recorded R D h0 m h xs)"

lemma stream_next_at: "gapless R xs \<Longrightarrow> m < length xs \<Longrightarrow> stream_next R xs m = get_timestamp R (xs ! m)"
  using gapless_nth [of R xs "m - 1"] by (simp add: stream_next_def)

lemma stream_next_less:
  assumes gap: "gapless R xs" and m: "m \<le> length xs" and j: "j < length xs"
  shows "get_timestamp R (xs ! j) < stream_next R xs m \<longleftrightarrow> j < m"
proof -
  note srt = gapless_ts_sorted [OF gap]
  show ?thesis
  proof (cases "j < m")
    case True
    then have "get_timestamp R (xs ! j) \<le> get_timestamp R (xs ! (m - 1))" using ts_sorted_le [OF srt, of j "m - 1"] m by simp
    also have "\<dots> < stream_next R xs m" using gapless_ends [OF gap, of "m - 1"] m True by (simp add: stream_next_def)
    finally show ?thesis using True by simp
  next
    case False
    then have "stream_next R xs m \<le> get_timestamp R (xs ! j)"
      using ts_sorted_le [OF srt _ j, of m] stream_next_at [OF gap, of m] j by simp
    then show ?thesis using False by simp
  qed
qed

text \<open>
  A search key of the recording sorts below no element with its timestamp. The key is declared without
  an initialiser: beside the timestamp it holds what was in memory.
\<close>

definition keys_least :: "'a readout_ops \<Rightarrow> 'a list \<Rightarrow> bool" where
  "keys_least R xs \<longleftrightarrow>
     (\<forall>x \<in> set xs. \<not> elem_less R (set_timestamp R (get_timestamp R x) (uninit_element R)) x)"

context recordable_buffer
begin

text \<open>The search for the next timestamp ends at the first element that is not yet written.\<close>

lemma next_found:
  assumes gap: "gapless R xs" and keys: "keys_least R xs" and p: "p \<le> m" "p < length xs" and m: "m \<le> length xs"
  shows "lb_index R (stream_next R xs m) (drop p xs) = m - p"
    and "\<not> elem_less R (set_timestamp R (stream_next R xs m) (uninit_element R)) (hd (drop p xs))"
proof -
  let ?n = "stream_next R xs m"
  note less = stream_next_less [OF gap m]
  have hd: "hd (drop p xs) = xs ! p" using hd_drop_conv_nth [OF p(2)] .
  show "lb_index R ?n (drop p xs) = m - p"
  proof (rule lb_index_eqI)
    show "m - p \<le> length (drop p xs)" using m by simp
    show "get_timestamp R (drop p xs ! j) < ?n" if "j < m - p" for j using less [of "p + j"] that m by simp
    show "?n \<le> get_timestamp R (drop p xs ! (m - p))" if "m - p < length (drop p xs)"
      using less [of m] that p m by (simp add: not_less [symmetric])
  qed
  show "\<not> elem_less R (set_timestamp R ?n (uninit_element R)) (hd (drop p xs))"
  proof (cases "p < m")
    case True
    then have "get_timestamp R (hd (drop p xs)) < ?n" using less [OF p(2)] hd by simp
    then show ?thesis using less_imp_ts [of "set_timestamp R ?n (uninit_element R)" "hd (drop p xs)"]
      by (auto simp: get_set_timestamp)
  next
    case False
    then show ?thesis using keys stream_next_at [OF gap] p hd by (simp add: keys_least_def)
  qed
qed

lemma following_next:
  assumes fol: "following lb_inv elements R D h0 p m (b, h, xs)" and gap: "gapless R xs" and j: "j < length xs"
  shows "get_timestamp R (xs ! j) < next_timestamp_to_record h \<longleftrightarrow> j < m"
proof (cases "m = 0 \<and> next_timestamp_to_record h = 0")
  case True
  then show ?thesis by simp
next
  case False
  then show ?thesis using fol stream_next_less [OF gap _ j, of m] by (auto simp: following_def held_def recorded_def)
qed

text \<open>A round extends what is recorded by up to 1000 elements.\<close>

lemma following_round:
  assumes fol: "following lb_inv elements R D h0 p m (b, h, xs)" and gap: "gapless R xs" and keys: "keys_least R xs"
    and takes: "sink_takes fenv h0"
  shows "\<exists>h'. record_round R L D fenv b h = Some (Inr h') \<and>
           following lb_inv elements R D h0 p (min (length xs) (m + 1000)) (b, h', xs)"
proof -
  let ?n = "if next_timestamp_to_record h = 0 then (if elements b = [] then 0 else get_timestamp R (hd (elements b)))
            else next_timestamp_to_record h"
  have b: "lb_inv b" "elements b = drop p xs" "p \<le> m" "xs \<noteq> [] \<Longrightarrow> p < length xs" and rec: "recorded R D h0 m h xs"
    and m: "m \<le> length xs" using fol by (auto simp: following_def held_def recorded_def)
  have gap': "gapless R (elements b)" using b(2) gapless_drop [OF gap] by simp
  have pos: "0 < m \<Longrightarrow> next_timestamp_to_record h \<noteq> 0" using following_next [OF fol gap, of "m - 1"] m by (cases m) auto
  have n: "?n = stream_next R xs m" if "xs \<noteq> []"
    using that b rec pos hd_drop_conv_nth [of p xs] by (auto simp: recorded_def stream_next_def)
  have key: "\<not> elem_less R (set_timestamp R ?n (uninit_element R)) (hd (elements b))" if "elements b \<noteq> []"
  proof -
    have "xs \<noteq> []" using that b(2) by auto
    then show ?thesis using next_found(2) [OF gap keys b(3) b(4) m] n b(2) by simp
  qed
  have idx: "lb_index R ?n (elements b) = m - p"
    using next_found(1) [OF gap keys b(3) b(4) m] n b(2) m by (cases "xs = []") (simp_all add: lb_index_def)
  let ?new = "take 1000 (drop m xs)"
  let ?h = "fold (record_chunk R D fenv) ?new (h\<lparr>next_timestamp_to_record := ?n\<rparr>)"
  have "drop (m - p) (elements b) = drop m xs" using b(2,3) by simp
  then have round: "record_round R L D fenv b h = Some (Inr ?h)"
    using record_round_writes [OF b(1) gap' _ key, of D fenv] rec idx by (simp add: recorded_def)
  have w: "writable (h\<lparr>next_timestamp_to_record := ?n\<rparr>)" "sink_takes fenv (h\<lparr>next_timestamp_to_record := ?n\<rparr>)"
    using rec sink_takes_same [OF _ takes, of h] by (auto simp: recorded_def writable_def sink_takes_def)
  note facts = record_chunks_write [OF w refl, of R D ?new]
  let ?m = "min (length xs) (m + 1000)"
  have new: "take ?m xs = take m xs @ ?new" "length ?new = ?m - m"
    using take_add [of m 1000 xs] m by (cases "length xs \<le> m + 1000"; simp)+
  have "m = 0 \<and> ?n = 0 \<or> xs \<noteq> [] \<and> ?n = stream_next R xs ?m" if "?new = []"
    using that rec m n b(2) by (cases "xs = []") (auto simp: recorded_def)
  moreover have "element_end R (last ?new) = stream_next R xs ?m" if "?new \<noteq> []"
    using that m by (cases "length xs \<le> m + 1000") (auto simp: last_conv_nth add.commute stream_next_def)
  ultimately have "recorded R D h0 ?m ?h xs"
    using facts rec m new by (auto simp: recorded_def same_sink_def)
  then have "following lb_inv elements R D h0 p ?m (b, ?h, xs)" using b m by (auto simp: following_def held_def)
  then show ?thesis using round by blast
qed

text \<open>
  The other threads keep what is held from the first \<open>m\<close> elements on, when the recording protects
  the elements behind them.
\<close>

lemma others_held:
  assumes step: "others_step R L (b, h, xs) (b', h', xs')" and held: "held lb_inv elements p m b xs"
    and prot: "\<And>j. j < length xs \<Longrightarrow> get_timestamp R (xs ! j) < next_timestamp_to_record h \<Longrightarrow> j < m"
    and idle: "\<not> cleanup_requested h"
  shows "same_recording h h'" and "\<exists>ys. xs' = xs @ ys" and "\<exists>p' \<ge> p. held lb_inv elements p' m b' xs'"
proof -
  have inv: "lb_inv b" and els: "elements b = drop p xs" and p: "p \<le> m" "m \<le> length xs" "xs \<noteq> [] \<Longrightarrow> p < length xs"
    using held by (auto simp: held_def)
  show "same_recording h h'" "\<exists>ys. xs' = xs @ ys"
    using step cleanup_check_removes(2) [OF _ inv idle] idle by (auto simp: same_recording_def elim!: others_stepE)
  show "\<exists>p' \<ge> p. held lb_inv elements p' m b' xs'"
    using step
  proof (cases rule: others_step_cases)
    case (Stored x)
    then have "lb_inv b' \<and> elements b' = elements b @ [x]" using write_elements [OF inv, of x] by auto
    then have "held lb_inv elements p m b' xs'" using Stored els p by (auto simp: held_def)
    then show ?thesis by blast
  next
    case (Refused x)
    then have "lb_inv b' \<and> elements b' = elements b" using write_elements [OF inv, of x] by auto
    then have "held lb_inv elements p m b' xs'" using Refused els p by (auto simp: held_def)
    then show ?thesis by blast
  next
    case CleanedUp
    obtain j where j: "lb_inv b'" "elements b' = drop j (elements b)"
        "\<forall>x \<in> set (take j (elements b)). get_timestamp R x < next_timestamp_to_record h"
        "elements b \<noteq> [] \<Longrightarrow> j < length (elements b)" "j \<le> length (elements b)"
      using cleanup_check_removes(1) [OF CleanedUp(2) inv idle] by blast
    have "p + j \<le> m"
    proof (cases j)
      case (Suc i)
      then have "p + i < length xs" "xs ! (p + i) = take j (elements b) ! i" "i < length (take j (elements b))"
        using j(5) els by simp_all
      then have "get_timestamp R (xs ! (p + i)) < next_timestamp_to_record h" using j(3) nth_mem by metis
      then show ?thesis using prot [OF \<open>p + i < length xs\<close>] Suc by simp
    qed (use p in simp)
    then have "held lb_inv elements (p + j) m b' xs'"
      using j els p CleanedUp(1) by (auto simp: held_def add.commute)
    then show ?thesis by (intro exI [of _ "p + j"]) simp
  qed
qed

lemma following_step:
  assumes step: "rec_step R L D fenv (b, h, xs) (b', h', xs')" and fol: "following lb_inv elements R D h0 p m (b, h, xs)"
    and gap: "gapless R xs'" and keys: "keys_least R xs'" and takes: "sink_takes fenv h0"
  shows "\<exists>p m. following lb_inv elements R D h0 p m (b', h', xs')"
  using step
proof (cases rule: rec_step_cases)
  case Others
  have held: "held lb_inv elements p m b xs" and idle: "\<not> cleanup_requested h" and rec: "recorded R D h0 m h xs"
    using fol by (auto simp: following_def held_def recorded_def)
  have "gapless R xs" using Others gap gapless_append by (fastforce elim!: others_stepE)
  then have prot: "j < m" if "j < length xs" "get_timestamp R (xs ! j) < next_timestamp_to_record h" for j
    using following_next [OF fol _ that(1)] that(2) by simp
  note kept = others_held [OF Others held prot idle]
  obtain p' where "held lb_inv elements p' m b' xs'" using kept(3) by blast
  moreover have "recorded R D h0 m h' xs'"
    using rec kept(1,2) by (auto simp: recorded_def same_recording_def stream_next_append writable_def same_sink_def)
  ultimately show ?thesis by (auto simp: following_def held_def)
next
  case Round
  then show ?thesis using following_round [OF fol _ _ takes] gap keys by auto
qed

lemma steps_extend: "rtranclp (rec_step R L D fenv) (b, h, xs) (b', h', xs') \<Longrightarrow> \<exists>ys. xs' = xs @ ys"
proof (induction rule: rec_steps_induct)
  case (step b1 h1 xs1 b2 h2 xs2)
  then show ?case by (auto elim!: rec_stepE others_stepE)
qed simp

lemma following_steps:
  assumes "rtranclp (rec_step R L D fenv) (b, h, xs) (b', h', xs')"
    and "following lb_inv elements R D h0 p m (b, h, xs)" and "gapless R xs'" and "keys_least R xs'"
    and "sink_takes fenv h0"
  shows "\<exists>p m. following lb_inv elements R D h0 p m (b', h', xs')"
  using assms
proof (induction rule: rec_steps_induct)
  case (step b1 h1 xs1 b2 h2 xs2)
  obtain ys where "xs2 = xs1 @ ys" using steps_extend [of D fenv b1 h1 xs1 b2 h2 xs2] step.hyps(2) by blast
  then have "gapless R xs1" "keys_least R xs1"
    using step.prems(2,3) gapless_append [of R xs1 ys] by (auto simp: keys_least_def)
  then obtain p1 m1 where "following lb_inv elements R D h0 p1 m1 (b1, h1, xs1)" using step.IH step.prems(1,4) by blast
  then show ?case using following_step [OF step.hyps(2)] step.prems(2-4) by blast
qed blast

lemma following_begin:
  assumes "lb_inv b" and "writable h" and "\<not> cleanup_requested h"
  shows "following lb_inv elements R D h 0 0 (b, record_begin h, elements b)"
  using assms by (simp add: following_def held_def recorded_def record_begin_def writable_def same_sink_def)

text \<open>Behind a gap nothing is recorded, and nothing is removed, any more.\<close>

lemma stalled_round:
  assumes inv: "lb_inv b" and srt: "ts_sorted R (elements b)" and idle: "\<not> cleanup_requested h" and ne: "elements b \<noteq> []"
    and gap: "next_timestamp_to_record h \<noteq> 0" "next_timestamp_to_record h < get_timestamp R (hd (elements b))"
  shows "record_round R L D fenv b h = Some (Inr h)"
proof -
  let ?n = "next_timestamp_to_record h"
  obtain i where i: "lb_lower_bound L (set_timestamp R ?n (uninit_element R)) True b = Some (Inr i)"
      "lb_pos b i (length (elements b))"
    using lower_bound_below [OF inv ready_with_errors [OF srt] ne] gap(2) get_set_timestamp by metis
  have "\<not> it_good L b i" using good_pos [OF inv i(2)] by simp
  then have "record_loop R L D fenv b i 0 h = Some (Inr h)" by (subst record_loop.simps) simp
  then show ?thesis using i(1) idle gap(1) by (simp add: record_round_def)
qed

lemma stalled_step:
  assumes step: "rec_step R L D fenv (b, h, xs) (b', h', xs')" and inv: "lb_inv b" and srt: "ts_sorted R (elements b)"
    and idle: "\<not> cleanup_requested h" and ne: "elements b \<noteq> []"
    and gap: "next_timestamp_to_record h \<noteq> 0" "next_timestamp_to_record h < get_timestamp R (hd (elements b))"
  shows "lb_inv b' \<and> (\<exists>ys. elements b' = elements b @ ys \<and> xs' = xs @ ys) \<and> \<not> cleanup_requested h' \<and>
         next_timestamp_to_record h' = next_timestamp_to_record h \<and> buffered_writer h' = buffered_writer h \<and>
         payloads_written h' = payloads_written h"
  using step
proof (cases rule: rec_step_cases)
  case Others
  then show ?thesis
  proof (cases rule: others_step_cases)
    case (Stored x)
    then show ?thesis using write_elements [OF inv, of x] idle by auto
  next
    case (Refused x)
    then show ?thesis using write_elements [OF inv, of x] idle by auto
  next
    case CleanedUp
    obtain j where j: "lb_inv b'" "elements b' = drop j (elements b)"
        "\<forall>x \<in> set (take j (elements b)). get_timestamp R x < next_timestamp_to_record h"
      using cleanup_check_removes(1) [OF CleanedUp(2) inv idle] by blast
    have "j = 0"
    proof (rule ccontr)
      assume "j \<noteq> 0"
      then have "hd (elements b) \<in> set (take j (elements b))" using ne by (cases "elements b"; cases j) auto
      then show False using j(3) gap(2) by fastforce
    qed
    then show ?thesis using j cleanup_check_removes(2) [OF CleanedUp(2) inv idle] CleanedUp(1) by simp
  qed
next
  case Round
  then show ?thesis using stalled_round [OF inv srt idle ne gap, of D fenv] inv idle by simp
qed

lemma stalled_steps:
  assumes "rtranclp (rec_step R L D fenv) (b, h, xs) (b', h', xs')" and inv: "lb_inv b"
    and srt: "ts_sorted R (elements b @ drop (length xs) xs')" and idle: "\<not> cleanup_requested h" and ne: "elements b \<noteq> []"
    and gap: "next_timestamp_to_record h \<noteq> 0" "next_timestamp_to_record h < get_timestamp R (hd (elements b))"
  shows "lb_inv b' \<and> elements b' = elements b @ drop (length xs) xs' \<and> length xs \<le> length xs' \<and> \<not> cleanup_requested h' \<and>
         next_timestamp_to_record h' = next_timestamp_to_record h \<and> buffered_writer h' = buffered_writer h \<and>
         payloads_written h' = payloads_written h"
  using assms(1) srt
proof (induction rule: rec_steps_induct)
  case (step b1 h1 xs1 b2 h2 xs2)
  obtain ys where ys: "xs2 = xs1 @ ys" using steps_extend [of D fenv b1 h1 xs1 b2 h2 xs2] step.hyps(2) by blast
  obtain zs where zs: "xs1 = xs @ zs" using steps_extend [OF step.hyps(1)] by blast
  have srt1: "ts_sorted R (elements b @ drop (length xs) xs1)"
    using step.prems ys zs by (simp add: ts_sorted_def sorted_wrt_append)
  note ih = step.IH [OF srt1]
  show ?case
    using stalled_step [OF step.hyps(2)] ih srt1 ne gap ys zs by auto
qed (use inv idle in simp)

end

section \<open>The queue models can be followed\<close>

lemma stored_empty: "contents q = [] \<Longrightarrow> stored q = 0"
  using length_contents [of q] by simp

lemma queue_search_empty:
  assumes "readout_order R" and "queue_inv q" and "contents q = []"
  shows "bs_lower_bound R e we q = Some (Inr end_iter)"
  using readout_order.bs_lower_bound_correct [OF assms(1,2), of e we] assms(3) by (simp add: ts_sorted_def)

lemma binary_search_records:
  assumes "readout_order R"
  shows "recordable_buffer (BinarySearchQueueModel R) queue_inv contents queue_pos R (\<lambda>_. ts_sorted R)"
proof (intro recordable_buffer.intro recordable_buffer_axioms.intro)
  show "fifo_buffer (BinarySearchQueueModel R) queue_inv contents queue_pos"
    unfolding BinarySearchQueueModel_def by (rule queue.fifo_buffer_axioms)
  show "forward_searchable_buffer (BinarySearchQueueModel R) queue_inv contents queue_pos R (\<lambda>_. ts_sorted R)"
    by (rule readout_order.binary_search_provides [OF assms])
qed (simp_all add: BinarySearchQueueModel_def queue_lb_ops_def queue_search_empty [OF assms] queue_pos_def stored_empty)

lemma fixed_rate_records:
  assumes "readout_order R"
  shows "recordable_buffer (FixedRateQueueModel R) queue_inv contents queue_pos R (fixed_rate_ready R)"
proof (intro recordable_buffer.intro recordable_buffer_axioms.intro)
  show "fifo_buffer (FixedRateQueueModel R) queue_inv contents queue_pos"
    unfolding FixedRateQueueModel_def by (rule queue.fifo_buffer_axioms)
  show "forward_searchable_buffer (FixedRateQueueModel R) queue_inv contents queue_pos R (fixed_rate_ready R)"
    by (rule readout_order.fixed_rate_provides [OF assms])
qed (simp_all add: FixedRateQueueModel_def queue_lb_ops_def queue_search_empty [OF assms] fr_lower_bound_def
      fixed_rate_ready_def queue_pos_def stored_empty)

interpretation dummy_rec: recordable_buffer "BinarySearchQueueModel (dummy_ops tick)" queue_inv contents queue_pos
  "dummy_ops tick" "\<lambda>_. ts_sorted (dummy_ops tick)"
  by (rule binary_search_records [OF dummy.readout_order_axioms])

lemma queue_models_record:
  assumes "readout_order R" and "L \<in> {BinarySearchQueueModel R, FixedRateQueueModel R}"
  obtains ready where "recordable_buffer L queue_inv contents queue_pos R ready"
  using assms binary_search_records fixed_rate_records by blast

definition recording_handler :: "plain_fragment request_handler" where
  "recording_handler = sample_handler\<lparr>buffered_writer := closed_writer\<lparr>w_buffer_size := 4096, w_is_open := True\<rparr>\<rparr>"

text \<open>Frames whose payload is one byte, the timestamp.\<close>

definition recording_daq :: "(dummy_frame, plain_fragment) daq_env" where
  "recording_daq = plain_daq\<lparr>payload_bytes := (\<lambda>x. [ucast (timestamp x)])\<rparr>"

lemma recording_handler_sel [simp]:
  "writable recording_handler" "w_stream (buffered_writer recording_handler) = []"
  "\<not> cleanup_requested recording_handler" "sink_takes sample_file_env recording_handler"
  by (simp_all add: recording_handler_def closed_writer_def sample_handler_def new_request_handler_def writable_def
      sink_takes_def sample_reliable)

lemma recorded_frame [simp]: "recorded_bytes (dummy_ops 16) recording_daq (frame_at t) = [ucast t]"
  by (simp add: recorded_bytes_def recording_daq_def frame_at_def DUMMY_FRAME_SIZE_def)

lemma frames_keys: "keys_least (dummy_ops 16) (map frame_at ts)"
  by (auto simp: keys_least_def dummy_less_def dummy_uninit)

lemma frames_write:
  obtains q where "write_q (frame_at 164) frames_queue = Inr (True, q)"
  by (simp add: write_q_def frames_queue_def default_queue_def next_index_def)

lemma frames_stored_step:
  assumes "write_q (frame_at 164) frames_queue = Inr (True, q)"
  shows "rec_step R (BinarySearchQueueModel R) D fenv (frames_queue, h, contents frames_queue)
           (q, h, map frame_at [100, 116, 132, 148, 164])"
  using Stored [of "BinarySearchQueueModel R" "frame_at 164" frames_queue q R h "contents frames_queue", THEN Others, of D fenv]
    assms
  by (simp add: BinarySearchQueueModel_def queue_lb_ops_def frames_queue_contents)

text \<open>
  A recording follows the stream: from its start on an open file, in any sequence of stored and
  refused elements, cleanup checks and rounds of the recording task, and on both queue models, the
  file receives the payloads of a prefix of the stored stream, each element once and in order, each
  counted; cleanup never removes an element that is not yet written; and a round always returns and
  writes the next up to 1000 elements. This holds for streams without gaps, when the device takes the
  writes (\<open>sink_takes\<close>) and when the search key, which holds indeterminate members beside the
  timestamp, sorts below no element of its timestamp (\<open>keys_least\<close>).
\<close>

theorem recording_follows_stream:
  fixes h0 :: "'f request_handler"
  assumes ord: "readout_order R" and L: "L \<in> {BinarySearchQueueModel R, FixedRateQueueModel R}" and inv: "queue_inv q0"
    and start: "writable h0" "\<not> cleanup_requested h0" and takes: "sink_takes fenv h0"
    and steps: "rtranclp (rec_step R L D fenv) (q0, record_begin h0, contents q0) (q, h, xs)"
    and stream: "gapless R xs" "keys_least R xs"
  defines "written n \<equiv> w_stream (buffered_writer h0) @ concat (map (recorded_bytes R D) (take n xs))"
  shows "\<exists>p m. contents q = drop p xs \<and> p \<le> m \<and> m \<le> length xs \<and>
           w_stream (buffered_writer h) = written m \<and> payloads_written h = payloads_written h0 + of_nat m \<and>
           (\<exists>h'. record_round R L D fenv q h = Some (Inr h') \<and> w_stream (buffered_writer h') = written (m + 1000))"
proof -
  obtain ready where r: "recordable_buffer L queue_inv contents queue_pos R ready"
    using queue_models_record [OF ord L] .
  obtain p m where fol: "following queue_inv contents R D h0 p m (q, h, xs)"
    using recordable_buffer.following_steps [OF r steps recordable_buffer.following_begin [OF r inv start] stream takes] by blast
  obtain h' where "record_round R L D fenv q h = Some (Inr h')"
      "following queue_inv contents R D h0 p (min (length xs) (m + 1000)) (q, h', xs)"
    using recordable_buffer.following_round [OF r fol stream takes] by blast
  then show ?thesis
    using fol by (intro exI [of _ p] exI [of _ m]) (auto simp: following_def held_def recorded_def written_def min_def split: if_splits)
qed

theorem recording_follows_stream_witness:
  "\<exists>q h1 h2. record_round (dummy_ops 16) (BinarySearchQueueModel (dummy_ops 16)) recording_daq sample_file_env frames_queue
       (record_begin recording_handler) = Some (Inr h1) \<and>
     w_stream (buffered_writer h1) = [100, 116, 132, 148] \<and>
     write_q (frame_at 164) frames_queue = Inr (True, q) \<and>
     record_round (dummy_ops 16) (BinarySearchQueueModel (dummy_ops 16)) recording_daq sample_file_env q h1 =
       Some (Inr h2) \<and>
     w_stream (buffered_writer h2) = [100, 116, 132, 148, 164]"
proof -
  let ?R = "dummy_ops 16" and ?L = "BinarySearchQueueModel (dummy_ops 16)"
  let ?step = "rec_step ?R ?L recording_daq sample_file_env"
  note follows = recording_follows_stream [OF dummy.readout_order_axioms _ frames_queue_inv, of ?L 16 recording_handler
      sample_file_env recording_daq]
  have gap: "gapless ?R (map frame_at [100, 116, 132, 148, 164])" by (simp add: gapless_def element_end_def)
  then have gap4: "gapless ?R (contents frames_queue)"
    using gapless_append [of ?R "map frame_at [100, 116, 132, 148]" "[frame_at 164]"] by (simp add: frames_queue_contents)
  have "keys_least ?R (contents frames_queue)" by (simp only: frames_queue_contents frames_keys)
  then obtain h1 where h1: "record_round ?R ?L recording_daq sample_file_env frames_queue (record_begin recording_handler) =
        Some (Inr h1)" "w_stream (buffered_writer h1) = [100, 116, 132, 148]"
    using follows [OF _ _ _ _ rtranclp.rtrancl_refl gap4] by (auto simp: frames_queue_contents)
  obtain q where q: "write_q (frame_at 164) frames_queue = Inr (True, q)" by (rule frames_write)
  have "?step (frames_queue, record_begin recording_handler, contents frames_queue) (frames_queue, h1, contents frames_queue)"
    by (rule Round [OF h1(1)])
  moreover have "?step (frames_queue, h1, contents frames_queue) (q, h1, map frame_at [100, 116, 132, 148, 164])"
    by (rule frames_stored_step [OF q])
  ultimately have "rtranclp ?step (frames_queue, record_begin recording_handler, contents frames_queue)
      (q, h1, map frame_at [100, 116, 132, 148, 164])" by (meson converse_rtranclp_into_rtranclp rtranclp.rtrancl_refl)
  from follows [OF _ _ _ _ this gap frames_keys] obtain h2 where
      "record_round ?R ?L recording_daq sample_file_env q h1 = Some (Inr h2)"
      "w_stream (buffered_writer h2) = [100, 116, 132, 148, 164]" by auto
  then show ?thesis using h1 q by blast
qed

text \<open>
  C37. A recording ends at a gap: once the oldest stored element begins after the next timestamp to
  record (the element before the gap was written and removed), no further round, whatever data
  arrives, writes anything, because the search begins below the oldest element and answers
  \<open>end()\<close>; and cleanup removes nothing any more, so the buffer fills up.
\<close>

theorem recording_stalls_behind_gap:
  fixes h :: "'f request_handler"
  assumes ord: "readout_order R" and L: "L \<in> {BinarySearchQueueModel R, FixedRateQueueModel R}" and inv: "queue_inv q"
    and ne: "contents q \<noteq> []" and idle: "\<not> cleanup_requested h"
    and gap: "next_timestamp_to_record h \<noteq> 0" "next_timestamp_to_record h < get_timestamp R (hd (contents q))"
    and steps: "rtranclp (rec_step R L D fenv) (q, h, contents q) (q', h', xs')" and srt: "ts_sorted R xs'"
  shows "contents q' = xs' \<and> take (stored q) xs' = contents q \<and>
         buffered_writer h' = buffered_writer h \<and> payloads_written h' = payloads_written h \<and>
         next_timestamp_to_record h' = next_timestamp_to_record h"
proof -
  obtain ready where r: "recordable_buffer L queue_inv contents queue_pos R ready"
    using queue_models_record [OF ord L] .
  obtain ys where ys: "xs' = contents q @ ys" using recordable_buffer.steps_extend [OF r steps] by blast
  then show ?thesis
    using recordable_buffer.stalled_steps [OF r steps inv _ idle ne gap] srt by (simp add: length_contents)
qed

theorem recording_stalls_behind_gap_witness:
  "\<exists>q h. rtranclp (rec_step (dummy_ops 16) (BinarySearchQueueModel (dummy_ops 16)) recording_daq sample_file_env)
       (frames_queue, recording_handler\<lparr>next_timestamp_to_record := 50\<rparr>, contents frames_queue)
       (q, h, map frame_at [100, 116, 132, 148, 164]) \<and>
     contents q = map frame_at [100, 116, 132, 148, 164] \<and> w_stream (buffered_writer h) = []"
proof -
  let ?R = "dummy_ops 16" and ?L = "BinarySearchQueueModel (dummy_ops 16)" and ?xs = "map frame_at [100, 116, 132, 148, 164]"
  let ?step = "rec_step ?R ?L recording_daq sample_file_env" and ?h = "recording_handler\<lparr>next_timestamp_to_record := 50\<rparr>"
  have h: "\<not> cleanup_requested ?h" "next_timestamp_to_record ?h \<noteq> 0"
      "next_timestamp_to_record ?h < get_timestamp ?R (hd (contents frames_queue))"
    by (simp_all add: frames_queue_contents)
  obtain q where q: "write_q (frame_at 164) frames_queue = Inr (True, q)" by (rule frames_write)
  have "?step (frames_queue, ?h, contents frames_queue) (frames_queue, ?h, contents frames_queue)"
    by (rule Round, rule dummy_rec.stalled_round) (use h frames_queue_inv frames_ts_sorted in \<open>simp_all add: frames_queue_contents\<close>)
  moreover have "?step (frames_queue, ?h, contents frames_queue) (q, ?h, ?xs)"
    by (rule frames_stored_step [OF q])
  ultimately have steps: "rtranclp ?step (frames_queue, ?h, contents frames_queue) (q, ?h, ?xs)"
    by (meson converse_rtranclp_into_rtranclp rtranclp.rtrancl_refl)
  have "ts_sorted ?R ?xs" by (simp add: ts_sorted_def)
  then show ?thesis
    using recording_stalls_behind_gap [OF dummy.readout_order_axioms _ frames_queue_inv _ h steps] steps
    by (intro exI [of _ q] exI [of _ ?h]) (simp add: frames_queue_contents)
qed

end
