(* ===== verification/Raw_Processor.thy ===== *)
theory Raw_Processor
  imports Queue_Contract Frame_Error_Registry "HOL-Library.Sublist"
begin

text \<open>
  The raw data processor (models/detail/TaskRawDataProcessorModel.hxx): a pipeline of
  pre-processing functions that run on every element before it is stored, and post-processing
  functions, each with its own thread and its own queue of element pointers. The pointer queues
  are \<open>folly::ProducerConsumerQueue\<close>, code outside this repository: they are the record \<open>pcq_ops\<close>
  and the contract \<open>bounded_fifo\<close>, which the ring buffer of this repository provides.
\<close>

section \<open>The queue of a post-processor\<close>

record ('q, 'e) pcq_ops =
  pcq_new :: "u64 \<Rightarrow> 'q"
  pcq_write :: "'e \<Rightarrow> 'q \<Rightarrow> bool \<times> 'q"
  pcq_read :: "'q \<Rightarrow> 'e option \<times> 'q"
  pcq_size :: "'q \<Rightarrow> nat"

locale bounded_fifo =
  fixes P :: "('q, 'e) pcq_ops" and pcq_inv :: "'q \<Rightarrow> bool" and elems :: "'q \<Rightarrow> 'e list"
    and valid_size :: "u64 \<Rightarrow> bool"
  assumes new_empty: "valid_size n \<Longrightarrow> pcq_inv (pcq_new P n) \<and> elems (pcq_new P n) = []"
    and write_elems: "pcq_inv q \<Longrightarrow> pcq_write P e q = (ok, q') \<Longrightarrow>
      pcq_inv q' \<and> elems q' = (if ok then elems q @ [e] else elems q)"
    and read_elems: "pcq_inv q \<Longrightarrow> pcq_read P q = (r, q') \<Longrightarrow>
      pcq_inv q' \<and> (case elems q of [] \<Rightarrow> r = None \<and> elems q' = [] | x # xs \<Rightarrow> r = Some x \<and> elems q' = xs)"
    and size_elems: "pcq_inv q \<Longrightarrow> pcq_size P q = length (elems q)"

text \<open>The ring buffer as such a queue.\<close>

definition ring_pcq :: "('e iterable_queue, 'e) pcq_ops" where
  "ring_pcq =
     \<lparr>pcq_new = (\<lambda>n. case sized_queue plain_env n of Inr q \<Rightarrow> q | Inl _ \<Rightarrow> default_queue plain_env),
      pcq_write = (\<lambda>e q. case write_q e q of Inr r \<Rightarrow> r | Inl _ \<Rightarrow> (False, q)),
      pcq_read = (\<lambda>q. case read_q q of Inr r \<Rightarrow> r | Inl _ \<Rightarrow> (None, q)),
      pcq_size = (\<lambda>q. unat (occupancy_q q))\<rparr>"

lemma sized_queue_empty:
  assumes "2 \<le> n" and "unat n < 2 ^ 31"
  shows "\<exists>q. sized_queue plain_env n = Inr q \<and> queue_inv q \<and> contents q = []"
proof -
  let ?q = "(default_queue plain_env)\<lparr>qsize := ucast n, records := Region StdMalloc (replicate (unat n) None)\<rparr>"
  have n: "unat (ucast n :: u32) = unat n" using assms(2) by (simp add: unat_ucast_u32)
  have q: "queue_inv ?q" "contents ?q = []"
    by (rule fresh_queue_inv [of _ StdMalloc];
        use n assms in \<open>simp add: default_queue_def word_le_nat_alt\<close>)+
  have "sized_queue plain_env n = Inr ?q"
    using assms(1) [folded not_less] by (simp add: sized_queue_def alloc_region_def plain_env_def)
  with q show ?thesis by blast
qed

interpretation ring: bounded_fifo "ring_pcq :: ('e iterable_queue, 'e) pcq_ops" queue_inv contents "\<lambda>n. 2 \<le> n \<and> unat n < 2 ^ 31"
proof (unfold_locales, goal_cases)
  case (1 n)
  then show ?case using sized_queue_empty [where 'a = 'e, of n] by (auto simp: ring_pcq_def)
next
  case (2 q e ok q')
  then show ?case
    using write_corresponds [of q "unat (qsize q) - 1" "contents q" e] stored_less_size [of q]
    by (auto simp: ring_pcq_def represents_def corresponds_def split: sum.splits if_splits)
next
  case (3 q r q')
  then show ?case
    using popFront_spec [of q] read_q_empty [of q]
    by (cases "contents q") (auto simp: ring_pcq_def)
next
  case (4 q)
  then show ?case using occupancy_q_spec [of q] by (auto simp: ring_pcq_def)
qed

section \<open>State and operations\<close>

text \<open>
  Pre-processing functions change the element and may add to the error registry. What a
  post-processing function was called with is recorded in order. Pointers to elements are of type
  \<open>'e\<close>.
\<close>

record ('q, 'a, 'e) raw_processor =
  preprocess_functions :: "('a \<times> error_map \<Rightarrow> 'a \<times> error_map) list"
  post_process_functions :: "'e list list"
  items_to_postprocess_queues :: "'q list"
  postprocess_queue_sizes :: u64
  rp_sourceid :: u32
  rp_run_marker :: bool
  last_processed_daq_ts :: u64
  post_processing_enabled :: bool
  not_keeping_up :: "nat list"

definition new_raw_processor :: "bool \<Rightarrow> ('q, 'a, 'e) raw_processor" where
  "new_raw_processor enabled =
     \<lparr>preprocess_functions = [], post_process_functions = [], items_to_postprocess_queues = [],
      postprocess_queue_sizes = 0, rp_sourceid = 0, rp_run_marker = False, last_processed_daq_ts = 0,
      post_processing_enabled = enabled, not_keeping_up = []\<rparr>"

definition conf_rp :: "('q, 'e) pcq_ops \<Rightarrow> u64 \<Rightarrow> u32 \<Rightarrow> ('q, 'a, 'e) raw_processor \<Rightarrow> ('q, 'a, 'e) raw_processor" where
  "conf_rp P queue_sizes sid p =
     p\<lparr>postprocess_queue_sizes := queue_sizes, rp_sourceid := sid,
       items_to_postprocess_queues :=
         items_to_postprocess_queues p @ replicate (length (post_process_functions p)) (pcq_new P queue_sizes)\<rparr>"

definition scrap_rp :: "('q, 'a, 'e) raw_processor \<Rightarrow> ('q, 'a, 'e) raw_processor" where
  "scrap_rp p = p\<lparr>items_to_postprocess_queues := [], post_process_functions := [], preprocess_functions := []\<rparr>"

text \<open>Starting hands queue \<open>i\<close> to thread \<open>i\<close>; without a queue the access is invalid.\<close>

definition start_rp :: "('q, 'a, 'e) raw_processor \<Rightarrow> fault + ('q, 'a, 'e) raw_processor" where
  "start_rp p =
     (if length (post_process_functions p) \<le> length (items_to_postprocess_queues p)
      then Inr (p\<lparr>rp_run_marker := True\<rparr>) else Inl InvalidAccess)"

definition reset_last_daq_time :: "('q, 'a, 'e) raw_processor \<Rightarrow> ('q, 'a, 'e) raw_processor" where
  "reset_last_daq_time p = p\<lparr>last_processed_daq_ts := 0\<rparr>"

definition get_last_daq_time :: "('q, 'a, 'e) raw_processor \<Rightarrow> u64" where
  "get_last_daq_time p = last_processed_daq_ts p"

definition add_preprocess_task ::
  "('a \<times> error_map \<Rightarrow> 'a \<times> error_map) \<Rightarrow> ('q, 'a, 'e) raw_processor \<Rightarrow> ('q, 'a, 'e) raw_processor" where
  "add_preprocess_task task p = p\<lparr>preprocess_functions := preprocess_functions p @ [task]\<rparr>"

definition add_postprocess_task :: "('q, 'a, 'e) raw_processor \<Rightarrow> ('q, 'a, 'e) raw_processor" where
  "add_postprocess_task p = p\<lparr>post_process_functions := post_process_functions p @ [[]]\<rparr>"

definition preprocess_item :: "('q, 'a, 'e) raw_processor \<Rightarrow> 'a \<times> error_map \<Rightarrow> 'a \<times> error_map" where
  "preprocess_item p = fold (\<lambda>task. task) (preprocess_functions p)"

text \<open>
  The asynchronous variant creates a future per task and destroys it at the end of the round,
  which waits for the task: the tasks run one after the other as well.
\<close>

definition launch_all_preprocess_functions :: "('q, 'a, 'e) raw_processor \<Rightarrow> 'a \<times> error_map \<Rightarrow> 'a \<times> error_map" where
  "launch_all_preprocess_functions p = fold (\<lambda>task item. let fut = task item in fut) (preprocess_functions p)"

text \<open>Writing an item to queue \<open>i\<close> and the following ones; the indices of full queues are warned about.\<close>

fun post_loop :: "('q, 'e) pcq_ops \<Rightarrow> 'e \<Rightarrow> nat \<Rightarrow> 'q list \<Rightarrow> 'q list \<times> nat list" where
  "post_loop P item i [] = ([], [])"
| "post_loop P item i (q # qs) =
     (case pcq_write P item q of (ok, q') \<Rightarrow>
        case post_loop P item (i + 1) qs of (qs', ws) \<Rightarrow> (q' # qs', if ok then ws else i # ws))"

definition postprocess_item :: "('q, 'e) pcq_ops \<Rightarrow> 'e \<Rightarrow> ('q, 'a, 'e) raw_processor \<Rightarrow> ('q, 'a, 'e) raw_processor"
where
  "postprocess_item P item p =
     (case post_loop P item 0 (items_to_postprocess_queues p) of
        (qs, ws) \<Rightarrow> p\<lparr>items_to_postprocess_queues := qs, not_keeping_up := not_keeping_up p @ ws\<rparr>)"

text \<open>One round of the loop of thread \<open>i\<close>, and whether its loop goes on.\<close>

definition post_thread_continues :: "('q, 'e) pcq_ops \<Rightarrow> nat \<Rightarrow> ('q, 'a, 'e) raw_processor \<Rightarrow> bool" where
  "post_thread_continues P i p \<longleftrightarrow> rp_run_marker p \<or> pcq_size P (items_to_postprocess_queues p ! i) > 0"

definition post_thread_round :: "('q, 'e) pcq_ops \<Rightarrow> nat \<Rightarrow> ('q, 'a, 'e) raw_processor \<Rightarrow> ('q, 'a, 'e) raw_processor" where
  "post_thread_round P i p =
     (case pcq_read P (items_to_postprocess_queues p ! i) of
        (None, q) \<Rightarrow> p\<lparr>items_to_postprocess_queues := (items_to_postprocess_queues p)[i := q]\<rparr>
      | (Some e, q) \<Rightarrow>
          p\<lparr>items_to_postprocess_queues := (items_to_postprocess_queues p)[i := q],
            post_process_functions := (post_process_functions p)[i := post_process_functions p ! i @ [e]]\<rparr>)"

text \<open>
  \<open>stop\<close> clears the run marker and then waits for the threads. A thread that runs goes on until its
  queue is empty, which takes one round for each queued item; threads that were never started, or that have
  stopped, are ready at once.
\<close>

definition stop_rp_begin :: "('q, 'a, 'e) raw_processor \<Rightarrow> ('q, 'a, 'e) raw_processor" where
  "stop_rp_begin p = p\<lparr>rp_run_marker := False\<rparr>"

definition drain_thread :: "('q, 'e) pcq_ops \<Rightarrow> nat \<Rightarrow> ('q, 'a, 'e) raw_processor \<Rightarrow> ('q, 'a, 'e) raw_processor" where
  "drain_thread P i p = (post_thread_round P i ^^ pcq_size P (items_to_postprocess_queues p ! i)) p"

definition stop_rp :: "('q, 'e) pcq_ops \<Rightarrow> ('q, 'a, 'e) raw_processor \<Rightarrow> ('q, 'a, 'e) raw_processor" where
  "stop_rp P p =
     (if rp_run_marker p then fold (drain_thread P) [0..<length (post_process_functions p)] (stop_rp_begin p)
      else stop_rp_begin p)"

definition opmon_rp :: "('q, 'e) pcq_ops \<Rightarrow> ('q, 'a, 'e) raw_processor \<Rightarrow> nat list" where
  "opmon_rp P p = map (pcq_size P) (items_to_postprocess_queues p)"

section \<open>Delivery to the post-processors\<close>

datatype 'e rp_op = PostItem 'e | ThreadRound nat

fun rp_step :: "('q, 'e) pcq_ops \<Rightarrow> 'e rp_op \<Rightarrow> ('q, 'a, 'e) raw_processor \<Rightarrow> ('q, 'a, 'e) raw_processor" where
  "rp_step P (PostItem item) p = postprocess_item P item p"
| "rp_step P (ThreadRound i) p = post_thread_round P i p"

fun posted_items :: "'e rp_op list \<Rightarrow> 'e list" where
  "posted_items [] = []"
| "posted_items (PostItem item # os) = item # posted_items os"
| "posted_items (ThreadRound i # os) = posted_items os"

text \<open>What thread \<open>i\<close> has processed and still has to process, and how often its queue was full.\<close>

definition stream_of :: "('q \<Rightarrow> 'e list) \<Rightarrow> ('q, 'a, 'e) raw_processor \<Rightarrow> nat \<Rightarrow> 'e list" where
  "stream_of elems p i = post_process_functions p ! i @ elems (items_to_postprocess_queues p ! i)"

definition dropped :: "('q, 'a, 'e) raw_processor \<Rightarrow> nat \<Rightarrow> nat" where
  "dropped p i = count_list (not_keeping_up p) i"

definition rp_ok :: "('q \<Rightarrow> bool) \<Rightarrow> ('q, 'a, 'e) raw_processor \<Rightarrow> bool" where
  "rp_ok I p \<longleftrightarrow> length (post_process_functions p) = length (items_to_postprocess_queues p) \<and>
     (\<forall>q \<in> set (items_to_postprocess_queues p). I q)"

context bounded_fifo
begin

lemma post_loop_spec:
  "\<forall>q \<in> set qs. pcq_inv q \<Longrightarrow> post_loop P item k qs = (qs', ws) \<Longrightarrow>
   length qs' = length qs \<and> (\<forall>q \<in> set qs'. pcq_inv q) \<and>
   (\<forall>j < length qs. elems (qs' ! j) = (if k + j \<in> set ws then elems (qs ! j) else elems (qs ! j) @ [item])) \<and>
   (\<forall>j. count_list ws (k + j) = (if k + j \<in> set ws then 1 else 0)) \<and> set ws \<subseteq> {k..}"
proof (induction qs arbitrary: k qs' ws)
  case (Cons q qs)
  obtain ok q1 where w: "pcq_write P item q = (ok, q1)" by fastforce
  obtain qs1 ws1 where l: "post_loop P item (k + 1) qs = (qs1, ws1)" by fastforce
  have q1: "pcq_inv q1" "elems q1 = (if ok then elems q @ [item] else elems q)"
    using write_elems [OF _ w] Cons.prems(1) by auto
  have eq: "qs' = q1 # qs1" "ws = (if ok then ws1 else k # ws1)" using Cons.prems(2) w l by auto
  note ih = Cons.IH [OF _ l] Cons.prems(1)
  have sub: "set ws1 \<subseteq> {k + 1..}" using ih by auto
  have c: "count_list ws (k + j) = (if k + j \<in> set ws then 1 else 0)" for j
  proof (cases j)
    case 0
    have "k \<notin> set ws1" using sub by auto
    then show ?thesis using 0 eq(2) by (simp add: count_notin)
  next
    case (Suc i)
    then show ?thesis using ih eq(2) by (auto simp: add.assoc dest!: spec [of _ i])
  qed
  have e: "elems (qs' ! j) = (if k + j \<in> set ws then elems ((q # qs) ! j) else elems ((q # qs) ! j) @ [item])"
    if "j < length (q # qs)" for j
  proof (cases j)
    case 0
    have "k \<notin> set ws1" using sub by auto
    then show ?thesis using 0 eq q1(2) by auto
  next
    case (Suc i)
    then have "k + j = k + 1 + i" "i < length qs" using that by auto
    then show ?thesis using ih eq Suc by auto
  qed
  show ?case using ih eq q1(1) sub c e by auto
qed simp

lemma postprocess_item_stream:
  fixes item :: 'e
  assumes ok: "rp_ok pcq_inv p" and i: "i < length (items_to_postprocess_queues p)"
  defines "p' \<equiv> postprocess_item P item p"
  shows "rp_ok pcq_inv p'" "length (items_to_postprocess_queues p') = length (items_to_postprocess_queues p)"
    "stream_of elems p' i = stream_of elems p i @ [item] \<and> dropped p' i = dropped p i \<or>
     stream_of elems p' i = stream_of elems p i \<and> dropped p' i = dropped p i + 1"
proof -
  obtain qs ws where l: "post_loop P item 0 (items_to_postprocess_queues p) = (qs, ws)" by fastforce
  have p': "p' = p\<lparr>items_to_postprocess_queues := qs, not_keeping_up := not_keeping_up p @ ws\<rparr>"
    by (simp add: p'_def postprocess_item_def l)
  have "\<forall>q \<in> set (items_to_postprocess_queues p). pcq_inv q" using ok by (simp add: rp_ok_def)
  note s = post_loop_spec [OF this l]
  show "rp_ok pcq_inv p'" using ok s p' by (auto simp: rp_ok_def)
  show "length (items_to_postprocess_queues p') = length (items_to_postprocess_queues p)" using s p' by simp
  have "elems (qs ! i) = (if i \<in> set ws then elems (items_to_postprocess_queues p ! i)
      else elems (items_to_postprocess_queues p ! i) @ [item])"
    "count_list ws i = (if i \<in> set ws then 1 else 0)"
    using s i by (auto dest!: conjunct2 [THEN conjunct2])
  then show "stream_of elems p' i = stream_of elems p i @ [item] \<and> dropped p' i = dropped p i \<or>
     stream_of elems p' i = stream_of elems p i \<and> dropped p' i = dropped p i + 1"
    using p' by (auto simp: stream_of_def dropped_def split: if_splits)
qed

lemma post_thread_round_stream:
  assumes ok: "rp_ok pcq_inv p" and j: "j < length (items_to_postprocess_queues p)"
  defines "p' \<equiv> post_thread_round P j p"
  shows "rp_ok pcq_inv p'" "length (items_to_postprocess_queues p') = length (items_to_postprocess_queues p)"
    "stream_of elems p' i = stream_of elems p i" "dropped p' i = dropped p i"
    "rp_run_marker p' = rp_run_marker p"
    "elems (items_to_postprocess_queues p' ! j) = tl (elems (items_to_postprocess_queues p ! j))"
    "k \<noteq> j \<Longrightarrow> items_to_postprocess_queues p' ! k = items_to_postprocess_queues p ! k"
proof -
  let ?q = "items_to_postprocess_queues p ! j"
  obtain r q' where r: "pcq_read P ?q = (r, q')" by fastforce
  have inv: "pcq_inv ?q" using ok j by (simp add: rp_ok_def)
  note s = read_elems [OF inv r]
  have l: "length (post_process_functions p) = length (items_to_postprocess_queues p)" using ok by (simp add: rp_ok_def)
  have qs: "items_to_postprocess_queues p' = (items_to_postprocess_queues p)[j := q']"
    using r by (cases r) (simp_all add: p'_def post_thread_round_def)
  have fs: "post_process_functions p' =
      (case r of None \<Rightarrow> post_process_functions p
       | Some e \<Rightarrow> (post_process_functions p)[j := post_process_functions p ! j @ [e]])"
    using r by (cases r) (simp_all add: p'_def post_thread_round_def)
  show "rp_ok pcq_inv p'"
    using ok qs fs s by (auto simp: rp_ok_def dest!: set_update_subset_insert [THEN subsetD] split: option.splits)
  show "length (items_to_postprocess_queues p') = length (items_to_postprocess_queues p)" using qs by simp
  show "stream_of elems p' i = stream_of elems p i"
    using qs fs s j l
    by (cases "i = j"; cases "elems ?q") (auto simp: stream_of_def split: option.splits)
  show "dropped p' i = dropped p i" "rp_run_marker p' = rp_run_marker p"
    by (cases r; simp add: p'_def post_thread_round_def dropped_def r)+
  show "elems (items_to_postprocess_queues p' ! j) = tl (elems ?q)"
    using qs s j by (cases "elems ?q") auto
  show "k \<noteq> j \<Longrightarrow> items_to_postprocess_queues p' ! k = items_to_postprocess_queues p ! k" using qs by simp
qed

end

text \<open>Any sequence of posted items and thread rounds, for one thread.\<close>

context bounded_fifo
begin

lemma run_ops_stream:
  assumes "rp_ok pcq_inv p" and "i < length (items_to_postprocess_queues p)"
    and "\<forall>j. ThreadRound j \<in> set os \<longrightarrow> j < length (items_to_postprocess_queues p)"
  shows "\<exists>accepted. rp_ok pcq_inv (fold (rp_step P) os p) \<and>
           length (items_to_postprocess_queues (fold (rp_step P) os p)) = length (items_to_postprocess_queues p) \<and>
           stream_of elems (fold (rp_step P) os p) i = stream_of elems p i @ accepted \<and>
           subseq accepted (posted_items os) \<and>
           length (posted_items os) = length accepted + (dropped (fold (rp_step P) os p) i - dropped p i) \<and>
           dropped p i \<le> dropped (fold (rp_step P) os p) i"
  using assms
proof (induction os arbitrary: p)
  case Nil
  then show ?case by simp
next
  case (Cons op os)
  show ?case
  proof (cases op)
    case (PostItem item)
    let ?p = "postprocess_item P item p"
    note s = postprocess_item_stream [OF Cons.prems(1,2), of item]
    obtain acc where a: "rp_ok pcq_inv (fold (rp_step P) os ?p)"
        "length (items_to_postprocess_queues (fold (rp_step P) os ?p)) = length (items_to_postprocess_queues ?p)"
        "stream_of elems (fold (rp_step P) os ?p) i = stream_of elems ?p i @ acc" "subseq acc (posted_items os)"
        "length (posted_items os) = length acc + (dropped (fold (rp_step P) os ?p) i - dropped ?p i)"
        "dropped ?p i \<le> dropped (fold (rp_step P) os ?p) i"
      using Cons.IH [OF s(1)] s(2) Cons.prems(2,3) PostItem by auto
    from s(3) show ?thesis
    proof
      assume "stream_of elems ?p i = stream_of elems p i @ [item] \<and> dropped ?p i = dropped p i"
      then show ?thesis using a s(2) PostItem by (intro exI [of _ "item # acc"]) auto
    next
      assume "stream_of elems ?p i = stream_of elems p i \<and> dropped ?p i = dropped p i + 1"
      then show ?thesis using a s(2) PostItem by (intro exI [of _ acc]) (auto simp: subseq_Cons')
    qed
  next
    case (ThreadRound j)
    then have "j < length (items_to_postprocess_queues p)" using Cons.prems(3) by auto
    note s = post_thread_round_stream [OF Cons.prems(1) this]
    show ?thesis using Cons.IH [OF s(1)] s(2) s(3,4) [of i] Cons.prems(2,3) ThreadRound by auto
  qed
qed

lemma drain_rounds:
  assumes "rp_ok pcq_inv p" and "i < length (items_to_postprocess_queues p)" and "\<not> rp_run_marker p"
    and "n = length (elems (items_to_postprocess_queues p ! i))"
  defines "p' \<equiv> (post_thread_round P i ^^ n) p"
  shows "\<not> post_thread_continues P i p' \<and> post_process_functions p' ! i = stream_of elems p i \<and>
         (\<forall>k < n. post_thread_continues P i ((post_thread_round P i ^^ k) p))"
proof -
  have "rp_ok pcq_inv ((post_thread_round P i ^^ k) p) \<and>
      length (items_to_postprocess_queues ((post_thread_round P i ^^ k) p)) = length (items_to_postprocess_queues p) \<and>
      stream_of elems ((post_thread_round P i ^^ k) p) i = stream_of elems p i \<and>
      \<not> rp_run_marker ((post_thread_round P i ^^ k) p) \<and>
      elems (items_to_postprocess_queues ((post_thread_round P i ^^ k) p) ! i) =
        drop k (elems (items_to_postprocess_queues p ! i))" for k
  proof (induction k)
    case (Suc k)
    then show ?case
      using post_thread_round_stream [of "(post_thread_round P i ^^ k) p" i] assms(2)
      by (simp add: drop_Suc tl_drop)
  qed (use assms in simp)
  note all = this
  have size: "pcq_size P (items_to_postprocess_queues ((post_thread_round P i ^^ k) p) ! i) = n - k" for k
    using all [of k] size_elems assms(2,4) by (simp add: rp_ok_def)
  have "stream_of elems p' i = post_process_functions p' ! i"
    using all [of n] assms(4) by (simp add: p'_def stream_of_def)
  then show ?thesis
    using all [of n] all size by (auto simp: p'_def post_thread_continues_def)
qed

end

text \<open>What \<open>stop\<close> leaves: the queues of running threads are empty, and all that was queued is processed.\<close>

context bounded_fifo
begin

lemma drain_thread_spec:
  assumes ok: "rp_ok pcq_inv p" and i: "i < length (items_to_postprocess_queues p)"
  shows "rp_ok pcq_inv (drain_thread P i p)"
    "length (items_to_postprocess_queues (drain_thread P i p)) = length (items_to_postprocess_queues p)"
    "stream_of elems (drain_thread P i p) j = stream_of elems p j"
    "rp_run_marker (drain_thread P i p) = rp_run_marker p"
    "elems (items_to_postprocess_queues (drain_thread P i p) ! i) = []"
    "k \<noteq> i \<Longrightarrow> items_to_postprocess_queues (drain_thread P i p) ! k = items_to_postprocess_queues p ! k"
proof -
  have "rp_ok pcq_inv ((post_thread_round P i ^^ m) p) \<and>
      length (items_to_postprocess_queues ((post_thread_round P i ^^ m) p)) = length (items_to_postprocess_queues p) \<and>
      (\<forall>j. stream_of elems ((post_thread_round P i ^^ m) p) j = stream_of elems p j) \<and>
      rp_run_marker ((post_thread_round P i ^^ m) p) = rp_run_marker p \<and>
      elems (items_to_postprocess_queues ((post_thread_round P i ^^ m) p) ! i) =
        drop m (elems (items_to_postprocess_queues p ! i)) \<and>
      (\<forall>k. k \<noteq> i \<longrightarrow> items_to_postprocess_queues ((post_thread_round P i ^^ m) p) ! k =
        items_to_postprocess_queues p ! k)" for m
  proof (induction m)
    case (Suc m)
    then show ?case
      using post_thread_round_stream [of "(post_thread_round P i ^^ m) p" i] i by (simp add: drop_Suc tl_drop)
  qed (use ok in simp)
  note rounds = this [of "pcq_size P (items_to_postprocess_queues p ! i)"]
  have "pcq_size P (items_to_postprocess_queues p ! i) = length (elems (items_to_postprocess_queues p ! i))"
    using ok i size_elems by (simp add: rp_ok_def)
  then show "rp_ok pcq_inv (drain_thread P i p)"
    "length (items_to_postprocess_queues (drain_thread P i p)) = length (items_to_postprocess_queues p)"
    "stream_of elems (drain_thread P i p) j = stream_of elems p j"
    "rp_run_marker (drain_thread P i p) = rp_run_marker p"
    "elems (items_to_postprocess_queues (drain_thread P i p) ! i) = []"
    "k \<noteq> i \<Longrightarrow> items_to_postprocess_queues (drain_thread P i p) ! k = items_to_postprocess_queues p ! k"
    using rounds unfolding drain_thread_def by simp_all
qed

lemma drain_threads_spec:
  assumes "rp_ok pcq_inv p" and "n \<le> length (items_to_postprocess_queues p)"
  shows "let p' = fold (drain_thread P) [0..<n] p
         in rp_ok pcq_inv p' \<and> length (items_to_postprocess_queues p') = length (items_to_postprocess_queues p) \<and>
            rp_run_marker p' = rp_run_marker p \<and> (\<forall>j. stream_of elems p' j = stream_of elems p j) \<and>
            (\<forall>j < n. elems (items_to_postprocess_queues p' ! j) = [])"
  using assms(2)
proof (induction n)
  case (Suc n)
  let ?p = "fold (drain_thread P) [0..<n] p"
  have p: "rp_ok pcq_inv ?p" "length (items_to_postprocess_queues ?p) = length (items_to_postprocess_queues p)"
      "rp_run_marker ?p = rp_run_marker p" "\<forall>j. stream_of elems ?p j = stream_of elems p j"
      "\<forall>j < n. elems (items_to_postprocess_queues ?p ! j) = []"
    using Suc by (simp_all add: Let_def)
  then show ?case using drain_thread_spec [of ?p n] Suc.prems by (auto simp: Let_def less_Suc_eq)
qed (use assms(1) in \<open>simp add: Let_def\<close>)

lemma stop_rp_spec:
  assumes ok: "rp_ok pcq_inv p"
  shows "rp_ok pcq_inv (stop_rp P p)" "\<not> rp_run_marker (stop_rp P p)"
    "length (items_to_postprocess_queues (stop_rp P p)) = length (items_to_postprocess_queues p)"
    "stream_of elems (stop_rp P p) i = stream_of elems p i"
    "rp_run_marker p \<Longrightarrow> i < length (items_to_postprocess_queues p) \<Longrightarrow>
       elems (items_to_postprocess_queues (stop_rp P p) ! i) = [] \<and>
       post_process_functions (stop_rp P p) ! i = stream_of elems p i"
proof -
  let ?p = "stop_rp_begin p"
  have b: "rp_ok pcq_inv ?p" "\<not> rp_run_marker ?p" "items_to_postprocess_queues ?p = items_to_postprocess_queues p"
      "post_process_functions ?p = post_process_functions p" "\<And>i. stream_of elems ?p i = stream_of elems p i"
    using ok by (simp_all add: stop_rp_begin_def rp_ok_def stream_of_def)
  have n: "length (post_process_functions p) = length (items_to_postprocess_queues p)" using ok by (simp add: rp_ok_def)
  note d = drain_threads_spec [OF b(1), of "length (post_process_functions p)", unfolded Let_def]
  show "rp_ok pcq_inv (stop_rp P p)" "\<not> rp_run_marker (stop_rp P p)"
    "length (items_to_postprocess_queues (stop_rp P p)) = length (items_to_postprocess_queues p)"
    "stream_of elems (stop_rp P p) i = stream_of elems p i"
    using b d n by (simp_all add: stop_rp_def)
  assume on: "rp_run_marker p" "i < length (items_to_postprocess_queues p)"
  then have e: "elems (items_to_postprocess_queues (stop_rp P p) ! i) = []" using d n b(3) by (simp add: stop_rp_def)
  have "stream_of elems (stop_rp P p) i = stream_of elems p i" using b d n by (simp add: stop_rp_def)
  then show "elems (items_to_postprocess_queues (stop_rp P p) ! i) = [] \<and>
      post_process_functions (stop_rp P p) ! i = stream_of elems p i"
    using e by (simp add: stream_of_def)
qed

end

text \<open>
  C26. Post-processing delivers in order: for every interleaving of items posted to the processor
  and rounds of its threads, what thread \<open>i\<close> has processed, followed by what is still in its queue,
  is a subsequence of the posted items in the posted order, and each missing item is one of the
  warnings that the thread does not keep up. When the run marker is cleared, the thread's loop
  ends after exactly as many rounds as items are queued and has then processed all of them.
\<close>

theorem postprocessing_delivers_in_order:
  fixes p :: "('e iterable_queue, 'a, 'e) raw_processor"
  assumes "rp_ok queue_inv p" and i: "i < length (items_to_postprocess_queues p)"
    and "\<forall>j. ThreadRound j \<in> set os \<longrightarrow> j < length (items_to_postprocess_queues p)"
    and fresh: "stream_of contents p i = []" "dropped p i = 0"
  defines "p1 \<equiv> fold (rp_step ring_pcq) os p"
  shows "subseq (stream_of contents p1 i) (posted_items os) \<and>
         length (posted_items os) = length (stream_of contents p1 i) + dropped p1 i \<and>
         (let n = length (contents (items_to_postprocess_queues p1 ! i));
              p2 = (post_thread_round ring_pcq i ^^ n) (stop_rp_begin p1)
          in \<not> post_thread_continues ring_pcq i p2 \<and> post_process_functions p2 ! i = stream_of contents p1 i \<and>
             (\<forall>k < n. post_thread_continues ring_pcq i ((post_thread_round ring_pcq i ^^ k) (stop_rp_begin p1))))"
proof -
  obtain acc where a: "rp_ok queue_inv p1" "stream_of contents p1 i = acc" "subseq acc (posted_items os)"
      "length (posted_items os) = length acc + dropped p1 i"
      "length (items_to_postprocess_queues p1) = length (items_to_postprocess_queues p)"
    using ring.run_ops_stream [OF assms(1,2,3)] fresh unfolding p1_def by auto
  have stop: "rp_ok queue_inv (stop_rp_begin p1)" "\<not> rp_run_marker (stop_rp_begin p1)"
      "items_to_postprocess_queues (stop_rp_begin p1) = items_to_postprocess_queues p1"
      "stream_of contents (stop_rp_begin p1) i = stream_of contents p1 i"
    using a(1) by (simp_all add: stop_rp_begin_def rp_ok_def stream_of_def)
  show ?thesis
    using a(2-5) i ring.drain_rounds [OF stop(1) _ stop(2) refl, of i] stop(3,4) by (auto simp: Let_def)
qed

theorem postprocessing_delivers_in_order_witness:
  "let p = conf_rp ring_pcq 8 1 (add_postprocess_task (new_raw_processor True)) :: (u64 iterable_queue, u64, u64) raw_processor;
       p1 = fold (rp_step ring_pcq) [PostItem 5, ThreadRound 0, PostItem 6] p
   in subseq (stream_of contents p1 0) [5, 6] \<and> 2 = length (stream_of contents p1 0) + dropped p1 0"
proof -
  let ?p = "conf_rp ring_pcq 8 1 (add_postprocess_task (new_raw_processor True)) :: (u64 iterable_queue, u64, u64) raw_processor"
  have new: "queue_inv (pcq_new ring_pcq 8 :: u64 iterable_queue) \<and> contents (pcq_new ring_pcq 8) = ([] :: u64 list)"
    by (rule ring.new_empty) simp
  then have p: "rp_ok queue_inv ?p" "0 < length (items_to_postprocess_queues ?p)" "stream_of contents ?p 0 = []"
      "dropped ?p 0 = 0" "length (items_to_postprocess_queues ?p) = 1"
    by (simp_all add: conf_rp_def add_postprocess_task_def new_raw_processor_def rp_ok_def stream_of_def dropped_def)
  show ?thesis
    using postprocessing_delivers_in_order [OF p(1,2) _ p(3,4), of "[PostItem 5, ThreadRound 0, PostItem 6]"] p(5)
    by (simp add: Let_def)
qed

end
