(* ===== verification/Data_Handling.thy ===== *)
theory Data_Handling
  imports Request_Contract Raw_Processor
begin

text \<open>
  The data handling model (models/DataHandlingModel.hpp and models/detail/DataHandlingModel.hxx): it
  owns the latency buffer, the raw data processor and the request handler, feeds received data
  through pre-processing into the buffer and on to post-processing, dispatches data requests and
  sends time synchronisation messages. The threads' loops are modelled round by round; what a
  receiver delivers in a round is an argument.
\<close>

section \<open>State\<close>

text \<open>\<open>comp\<close> is the component a request is addressed to, \<open>request_information.component\<close>.\<close>

record AddressedRequest =
  addressed_to :: SourceID
  addressed_request :: DataRequest

record TimeSync =
  ts_daq_time :: u64
  ts_run_number :: u32
  ts_sequence_number :: u64
  ts_source_pid :: u32

datatype dh_event =
    DataPacketArrivedTooLate u64
  | TimeSyncSent TimeSync
  | TimeSyncTransmissionFailed string
  | RequestSourceIDMismatch SourceID
  | ReceiverUnset
  | LatencyBufferNotAllocated

record ('b, 'q, 'a, 'f) data_handler =
  callback_mode :: bool
  fake_trigger :: bool
  generate_timesync :: bool
  current_fake_trigger_id :: nat
  dh_sourceid :: SourceID
  dh_run_number :: u32
  processing_delay_ticks :: u64
  num_payloads :: atomic_int
  sum_payloads :: atomic_int
  num_requests :: atomic_int
  sum_requests :: atomic_int
  rawq_timeout_count :: atomic_int
  stats_packet_count :: atomic_int
  num_payloads_overwritten :: atomic_int
  raw_data_receiver_connection_name :: string
  timesync_connection_name :: string
  has_raw_data_receiver :: bool
  has_data_request_receiver :: bool
  has_request_callback :: bool
  consumer_running :: bool
  timesync_running :: bool
  pid_of_current_process :: u32
  latency_buffer_impl :: 'b
  raw_processor_impl :: "('q, 'a, 'a option) raw_processor"
  request_handler_impl :: "'f request_handler"
  request_handler_supports_cutoff_timestamp :: bool
  cutoff_timestamp :: u64
  dh_t0 :: int
  dh_events :: "dh_event list"

text \<open>
  The constructor; buffer, processor and request handler are created by \<open>init\<close>, until then the
  arguments stand for the unset pointers.
\<close>

definition new_data_handler ::
  "u32 \<Rightarrow> SourceID \<Rightarrow> u32 \<Rightarrow> u64 \<Rightarrow> 'b \<Rightarrow> ('q, 'a, 'a option) raw_processor \<Rightarrow> 'f request_handler \<Rightarrow> int \<Rightarrow>
   ('b, 'q, 'a, 'f) data_handler" where
  "new_data_handler pid unset_id unset_run unset_delay no_buffer no_processor no_handler unset_t0 =
     \<lparr>callback_mode = False, fake_trigger = False, generate_timesync = False, current_fake_trigger_id = 0,
      dh_sourceid = unset_id, dh_run_number = unset_run, processing_delay_ticks = unset_delay,
      num_payloads = 0, sum_payloads = 0, num_requests = 0, sum_requests = 0, rawq_timeout_count = 0,
      stats_packet_count = 0, num_payloads_overwritten = 0, raw_data_receiver_connection_name = [], timesync_connection_name = [],
      has_raw_data_receiver = False, has_data_request_receiver = False, has_request_callback = False,
      consumer_running = False, timesync_running = False, pid_of_current_process = pid,
      latency_buffer_impl = no_buffer, raw_processor_impl = no_processor, request_handler_impl = no_handler,
      request_handler_supports_cutoff_timestamp = False, cutoff_timestamp = 0, dh_t0 = unset_t0, dh_events = []\<rparr>"

definition dh_emit :: "dh_event \<Rightarrow> ('b, 'q, 'a, 'f) data_handler \<Rightarrow> ('b, 'q, 'a, 'f) data_handler" where
  "dh_emit ev s = s\<lparr>dh_events := dh_events s @ [ev]\<rparr>"

section \<open>Receiving data\<close>

definition count_payload :: "('b, 'q, 'a, 'f) data_handler \<Rightarrow> ('b, 'q, 'a, 'f) data_handler" where
  "count_payload s = s\<lparr>num_payloads := num_payloads s + 1, sum_payloads := sum_payloads s + 1,
                       stats_packet_count := stats_packet_count s + 1\<rparr>"

definition post_pointer ::
  "('q, 'a option) pcq_ops \<Rightarrow> 'a option \<Rightarrow> ('b, 'q, 'a, 'f) data_handler \<Rightarrow> ('b, 'q, 'a, 'f) data_handler" where
  "post_pointer P ptr s = s\<lparr>raw_processor_impl := postprocess_item P ptr (raw_processor_impl s)\<rparr>"

text \<open>
  Pre-processing, the check against the cutoff and the write, which \<open>process_item\<close> and
  \<open>consume_payload\<close> share. The difference to the cutoff is a signed 64-bit number.
\<close>

definition store_item ::
  "'a readout_ops \<Rightarrow> ('b, 'a, 'i) lb_ops \<Rightarrow> 'a \<Rightarrow> ('b, 'q, 'a, 'f) data_handler \<Rightarrow> fault + ('b, 'q, 'a, 'f) data_handler" where
  "store_item R L payload s =
     (case preprocess_item (raw_processor_impl s) (payload, error_registry (request_handler_impl s)) of
        (payload, reg) \<Rightarrow>
          let s = s\<lparr>request_handler_impl := (request_handler_impl s)\<lparr>error_registry := reg\<rparr>\<rparr>;
              s = (if request_handler_supports_cutoff_timestamp s \<and>
                      sint (get_timestamp R payload - cutoff_timestamp s) \<le> 0
                   then dh_emit (DataPacketArrivedTooLate (get_timestamp R payload)) s else s)
          in bindE (lb_write L payload (latency_buffer_impl s)) (\<lambda>(ok, b).
               let s = s\<lparr>latency_buffer_impl := b\<rparr>
               in Inr (if ok then s else s\<lparr>num_payloads_overwritten := num_payloads_overwritten s + 1\<rparr>)))"

definition process_item ::
  "'a readout_ops \<Rightarrow> ('b, 'a, 'i) lb_ops \<Rightarrow> ('q, 'a option) pcq_ops \<Rightarrow> 'a \<Rightarrow> ('b, 'q, 'a, 'f) data_handler \<Rightarrow>
   fault + ('b, 'q, 'a, 'f) data_handler" where
  "process_item R L P payload s =
     bindE (store_item R L payload s) (\<lambda>s.
       if processing_delay_ticks s = 0
       then bindE (lb_back L (latency_buffer_impl s)) (\<lambda>ptr. Inr (count_payload (post_pointer P ptr s)))
       else Inr s)"

definition consume_payload ::
  "'a readout_ops \<Rightarrow> ('b, 'a, 'i) lb_ops \<Rightarrow> ('q, 'a option) pcq_ops \<Rightarrow> 'a \<Rightarrow> ('b, 'q, 'a, 'f) data_handler \<Rightarrow>
   fault + ('b, 'q, 'a, 'f) data_handler" where
  "consume_payload R L P payload s =
     bindE (store_item R L payload s) (\<lambda>s.
       bindE (lb_back L (latency_buffer_impl s)) (\<lambda>ptr. Inr (count_payload (post_pointer P ptr s))))"

text \<open>A received item is transformed into a list of elements (itself, when the types agree).\<close>

fun process_items ::
  "'a readout_ops \<Rightarrow> ('b, 'a, 'i) lb_ops \<Rightarrow> ('q, 'a option) pcq_ops \<Rightarrow> 'a list \<Rightarrow> ('b, 'q, 'a, 'f) data_handler \<Rightarrow>
   fault + ('b, 'q, 'a, 'f) data_handler" where
  "process_items R L P [] s = Inr s"
| "process_items R L P (x # xs) s = bindE (process_item R L P x s) (process_items R L P xs)"

section \<open>Deferred post-processing\<close>

text \<open>The local variables of the consumer thread.\<close>

record 'a consumer_locals =
  cl_first_cycle :: bool
  cl_processed_element :: 'a
  cl_last_post_proc_time :: int

text \<open>Post-processing from one iterator to another; iterators that never meet make it not return.\<close>

partial_function (option) post_range ::
  "('b, 'a, 'i) lb_ops \<Rightarrow> ('q, 'a option) pcq_ops \<Rightarrow> 'i \<Rightarrow> 'i \<Rightarrow> ('b, 'q, 'a, 'f) data_handler \<Rightarrow>
   (fault + ('b, 'q, 'a, 'f) data_handler) option" where
  "post_range L P it end_it s =
     (if it = end_it then Some (Inr s)
      else case it_deref L (latency_buffer_impl s) it of
             Inl f \<Rightarrow> Some (Inl f)
           | Inr x \<Rightarrow> post_range L P (it_next L (latency_buffer_impl s) it) end_it
                        (count_payload (post_pointer P (Some x) s)))"

text \<open>\<open>now\<close> is the time in nanoseconds; the pass waits for more than one whole millisecond.\<close>

definition deferred_postprocess ::
  "'a readout_ops \<Rightarrow> ('b, 'a, 'i) lb_ops \<Rightarrow> ('q, 'a option) pcq_ops \<Rightarrow> int \<Rightarrow>
   'a consumer_locals \<times> ('b, 'q, 'a, 'f) data_handler \<Rightarrow>
   (fault + ('a consumer_locals \<times> ('b, 'q, 'a, 'f) data_handler)) option" where
  "deferred_postprocess R L P now = (\<lambda>(c, s).
     let b = latency_buffer_impl s
     in if processing_delay_ticks s \<noteq> 0 \<and> lb_occupancy L b > 0 \<and> (now - cl_last_post_proc_time c) div 1000000 > 1
        then case bindE (back_timestamp R L b) (\<lambda>n.
                    if cl_first_cycle c then bindE (front_timestamp R L b) (\<lambda>h. Inr (n, h)) else Inr (n, 0)) of
               Inl f \<Rightarrow> Some (Inl f)
             | Inr (newest_ts, head_ts) \<Rightarrow>
                 let c = c\<lparr>cl_last_post_proc_time := now\<rparr>;
                     c = (if cl_first_cycle c
                          then c\<lparr>cl_processed_element := set_timestamp R head_ts (cl_processed_element c),
                                 cl_first_cycle := False\<rparr>
                          else c)
                 in if newest_ts - get_timestamp R (cl_processed_element c) > processing_delay_ticks s
                    then let end_win_ts = newest_ts - processing_delay_ticks s;
                             next_element = set_timestamp R end_win_ts (cl_processed_element c)
                         in case (lb_lower_bound L (cl_processed_element c) False b,
                                  lb_lower_bound L next_element False b) of
                              (Some (Inr start_iter), Some (Inr end_it)) \<Rightarrow>
                                (case post_range L P start_iter end_it s of
                                   None \<Rightarrow> None
                                 | Some (Inl f) \<Rightarrow> Some (Inl f)
                                 | Some (Inr s) \<Rightarrow> Some (Inr (c\<lparr>cl_processed_element := next_element\<rparr>, s)))
                            | (None, _) \<Rightarrow> None
                            | (Some (Inl f), _) \<Rightarrow> Some (Inl f)
                            | (_, None) \<Rightarrow> None
                            | (_, Some (Inl f)) \<Rightarrow> Some (Inl f)
                    else Some (Inr (c, s))
        else Some (Inr (c, s)))"

text \<open>
  One round of the consumer thread, with what the receiver returned. \<open>init\<close> only reports a missing
  receiver, so the thread may find none.
\<close>

definition consume_round ::
  "'a readout_ops \<Rightarrow> ('b, 'a, 'i) lb_ops \<Rightarrow> ('q, 'a option) pcq_ops \<Rightarrow> int \<Rightarrow> 'a list option \<Rightarrow>
   'a consumer_locals \<times> ('b, 'q, 'a, 'f) data_handler \<Rightarrow>
   (fault + ('a consumer_locals \<times> ('b, 'q, 'a, 'f) data_handler)) option" where
  "consume_round R L P now received = (\<lambda>(c, s).
     case (if \<not> has_raw_data_receiver s then Inl NullDeref
           else case received of
             Some items \<Rightarrow> process_items R L P items s
           | None \<Rightarrow> Inr (s\<lparr>rawq_timeout_count := rawq_timeout_count s + 1\<rparr>)) of
       Inl f \<Rightarrow> Some (Inl f)
     | Inr s \<Rightarrow> deferred_postprocess R L P now (c, s))"

definition consume_begin :: "'a \<Rightarrow> int \<Rightarrow> ('b, 'q, 'a, 'f) data_handler \<Rightarrow> 'a consumer_locals \<times> ('b, 'q, 'a, 'f) data_handler"
where
  "consume_begin dflt now s =
     (\<lparr>cl_first_cycle = True, cl_processed_element = dflt, cl_last_post_proc_time = now\<rparr>,
      s\<lparr>rawq_timeout_count := 0, num_payloads := 0, sum_payloads := 0, stats_packet_count := 0\<rparr>)"

section \<open>Initialisation\<close>

text \<open>The words of a connection name between underscores.\<close>

function split_words :: "string \<Rightarrow> string list" where
  "split_words conn_name =
     (case dropWhile (\<lambda>c. c = CHR ''_'') conn_name of
        [] \<Rightarrow> []
      | c # rest \<Rightarrow> takeWhile (\<lambda>c. c \<noteq> CHR ''_'') (c # rest) #
                    split_words (dropWhile (\<lambda>c. c \<noteq> CHR ''_'') (c # rest)))"
  by pat_completeness auto
termination
proof (relation "measure length", simp)
  fix conn_name c rest
  assume d: "dropWhile (\<lambda>c. c = CHR ''_'') conn_name = c # rest"
  then have "c \<noteq> CHR ''_''" by (metis (full_types) dropWhile_eq_Cons_conv)
  then have "length (dropWhile (\<lambda>c. c \<noteq> CHR ''_'') (c # rest)) \<le> length rest"
    by (simp add: length_dropWhile_le)
  moreover have "length (c # rest) \<le> length conn_name" using d by (metis length_dropWhile_le)
  ultimately show "(dropWhile (\<lambda>c. c \<noteq> CHR ''_'') (c # rest), conn_name) \<in> measure length" by simp
qed

record connection_conf =
  conn_data_type :: string
  conn_uid :: string

text \<open>
  Connections: looking one up in the network manager can fail (\<open>iom_ok\<close>). A raw data input whose
  name starts with the word \<open>cb\<close> switches to callback mode.
\<close>

fun init_inputs :: "(string \<Rightarrow> bool) \<Rightarrow> connection_conf list \<Rightarrow> ('b, 'q, 'a, 'f) data_handler \<Rightarrow>
   fault + ('b, 'q, 'a, 'f) data_handler" where
  "init_inputs iom_ok [] s = Inr s"
| "init_inputs iom_ok (input # inputs) s =
     (if conn_data_type input = ''DataRequest''
      then if iom_ok (conn_uid input)
           then init_inputs iom_ok inputs (s\<lparr>has_data_request_receiver := True\<rparr>) else Inl ResourceQueueError
      else let s = s\<lparr>raw_data_receiver_connection_name := conn_uid input\<rparr>
           in case split_words (conn_uid input) of
                [] \<Rightarrow> Inl InvalidAccess
              | w # _ \<Rightarrow>
                  let s = (if w = ''cb'' then s\<lparr>callback_mode := True\<rparr> else s)
                  in if callback_mode s then init_inputs iom_ok inputs s
                     else if iom_ok (conn_uid input)
                     then init_inputs iom_ok inputs (s\<lparr>has_raw_data_receiver := True\<rparr>)
                     else Inl ResourceQueueError)"

definition init_outputs :: "(string \<Rightarrow> bool) \<Rightarrow> connection_conf list \<Rightarrow> ('b, 'q, 'a, 'f) data_handler \<Rightarrow>
   fault + ('b, 'q, 'a, 'f) data_handler" where
  "init_outputs iom_ok outputs s =
     (case filter (\<lambda>out. conn_data_type out = ''TimeSync'') outputs of
        [] \<Rightarrow> Inr s
      | out # _ \<Rightarrow> if iom_ok (conn_uid out) then Inr (s\<lparr>generate_timesync := True, timesync_connection_name := conn_uid out\<rparr>) else Inl ResourceQueueError)"

text \<open>
  The implementations are created and configured: the processor first, then the buffer, whose
  allocation failure is only reported, then the request handler. \<open>conf_buffer\<close> configures the new
  buffer; \<open>broken_buffer\<close> is what a failed configuration leaves.
\<close>

definition init_dh ::
  "('q, 'a option) pcq_ops \<Rightarrow> ('a, 'f) daq_env \<Rightarrow> file_env \<Rightarrow> (string \<Rightarrow> bool) \<Rightarrow> connection_conf list \<Rightarrow>
   connection_conf list \<Rightarrow> (fault + 'b) \<Rightarrow> 'b \<Rightarrow> ('q, 'a, 'a option) raw_processor \<Rightarrow> u64 \<Rightarrow> request_handler_conf \<Rightarrow>
   u64 \<Rightarrow> ('b, 'q, 'a, 'f) data_handler \<Rightarrow> fault + ('b, 'q, 'a, 'f) data_handler" where
  "init_dh P D fenv iom_ok inputs outputs conf_buffer broken_buffer processor queue_sizes hconf delay_ticks s =
     bindE (init_inputs iom_ok inputs s) (\<lambda>s.
     bindE (init_outputs iom_ok outputs s) (\<lambda>s.
       let s = (if \<not> callback_mode s \<and> \<not> has_raw_data_receiver s then dh_emit ReceiverUnset s else s);
           s = s\<lparr>fake_trigger := False, processing_delay_ticks := delay_ticks,
                 dh_sourceid := \<lparr>subsystem = rdt_subsystem D, source_id = hc_source_id hconf\<rparr>,
                 request_handler_supports_cutoff_timestamp := False,
                 raw_processor_impl := conf_rp P queue_sizes (hc_source_id hconf) processor\<rparr>
       in bindE (case conf_buffer of
                   Inr b \<Rightarrow> Inr (s\<lparr>latency_buffer_impl := b\<rparr>)
                 | Inl BadAlloc \<Rightarrow> Inr (dh_emit LatencyBufferNotAllocated (s\<lparr>latency_buffer_impl := broken_buffer\<rparr>))
                 | Inl f \<Rightarrow> Inl f) (\<lambda>s.
          bindE (conf_rh D fenv hconf (new_request_handler (disk (request_handler_impl s)) empty_registry))
            (\<lambda>h. Inr (s\<lparr>request_handler_impl := h\<rparr>)))))"

section \<open>Run control\<close>

text \<open>
  Starting a handler without a connection for data requests adds the callback to a null receiver;
  by then the processor, the request handler and the threads run already, so the new state is
  lost with the process.
\<close>

definition start_dh :: "u32 \<Rightarrow> int \<Rightarrow> ('b, 'q, 'a, 'f) data_handler \<Rightarrow> fault + ('b, 'q, 'a, 'f) data_handler" where
  "start_dh run now s =
     (let s = s\<lparr>sum_payloads := 0, num_payloads := 0, sum_requests := 0, num_requests := 0,
                num_payloads_overwritten := 0, stats_packet_count := 0, rawq_timeout_count := 0, dh_t0 := now,
                dh_run_number := run\<rparr>
      in bindE (start_rp (raw_processor_impl s)) (\<lambda>p.
           if \<not> has_data_request_receiver s then Inl NullDeref
           else Inr (s\<lparr>raw_processor_impl := p, request_handler_impl := start_rh now (request_handler_impl s),
                  consumer_running := (\<not> callback_mode s), timesync_running := generate_timesync s,
                  has_request_callback := True\<rparr>)))"

text \<open>
  Stopping: requests are no longer received, the request handler and the threads stop, then the
  buffer is flushed and the processor stopped, which waits until the post-processing threads have
  emptied their queues. The state is the one \<open>stop\<close> reaches from a state in which the waits for the
  request handler are over (\<open>rh_threads_done\<close>).
\<close>

definition stop_dh ::
  "('b, 'a, 'i) lb_ops \<Rightarrow> ('q, 'a option) pcq_ops \<Rightarrow> ('b, 'q, 'a, 'f) data_handler \<Rightarrow> fault + ('b, 'q, 'a, 'f) data_handler" where
  "stop_dh L P s =
     (if \<not> has_data_request_receiver s then Inl NullDeref
      else let s = s\<lparr>has_request_callback := False, request_handler_impl := stop_rh (request_handler_impl s),
                     timesync_running := False, consumer_running := False\<rparr>
      in bindE (lb_flush L (latency_buffer_impl s)) (\<lambda>b.
           Inr (s\<lparr>latency_buffer_impl := b,
                  raw_processor_impl := reset_last_daq_time (stop_rp P (raw_processor_impl s))\<rparr>)))"

definition scrap_dh ::
  "file_env \<Rightarrow> ('b \<Rightarrow> fault + 'b) \<Rightarrow> ('b, 'q, 'a, 'f) data_handler \<Rightarrow> fault + ('b, 'q, 'a, 'f) data_handler" where
  "scrap_dh fenv scrap_buffer s =
     (let s = s\<lparr>request_handler_impl := scrap_rh fenv (request_handler_impl s)\<rparr>
      in bindE (scrap_buffer (latency_buffer_impl s)) (\<lambda>b.
           Inr (s\<lparr>latency_buffer_impl := b, raw_processor_impl := scrap_rp (raw_processor_impl s)\<rparr>)))"

section \<open>Requests and time synchronisation\<close>

definition count_request :: "('b, 'q, 'a, 'f) data_handler \<Rightarrow> ('b, 'q, 'a, 'f) data_handler" where
  "count_request s = s\<lparr>num_requests := num_requests s + 1, sum_requests := sum_requests s + 1\<rparr>"

definition dispatch_requests :: "AddressedRequest \<Rightarrow> ('b, 'q, 'a, 'f) data_handler \<Rightarrow> ('b, 'q, 'a, 'f) data_handler" where
  "dispatch_requests dr s =
     (if addressed_to dr \<noteq> dh_sourceid s then dh_emit (RequestSourceIDMismatch (addressed_to dr)) s
      else count_request
             (s\<lparr>request_handler_impl := issue_request (addressed_request dr) False (request_handler_impl s)\<rparr>))"

text \<open>
  The request of a fake trigger for a DAQ time; \<open>blank\<close> is the default-constructed request of the
  message library. The trigger id is an \<open>int\<close> counter that begins at 0; its overflow after \<open>2 ^ 31\<close> fake
  triggers, undefined in C++, is not modelled. The component of the request is what \<open>addressed_to\<close> is
  for a received one.
\<close>

definition fake_request :: "DataRequest \<Rightarrow> SourceID \<Rightarrow> nat \<Rightarrow> u64 \<Rightarrow> AddressedRequest" where
  "fake_request blank sid trigger_id daq_time =
     (let t = (if daq_time > 500000 then daq_time - 500000 else 0);
          w = (if t > 100 then t - 100 else 0)
      in \<lparr>addressed_to = sid,
          addressed_request = blank\<lparr>trigger_number := of_nat trigger_id, trigger_timestamp := t, window_begin := w,
            window_end := w + 300000, data_destination := ''data_fragments_q''\<rparr>\<rparr>)"

record timesync_locals =
  tl_msg_seqno :: u64
  tl_prev_timestamp :: u64
  tl_zero_count :: nat
  tl_duplicate_count :: nat
  tl_total_count :: nat

definition timesync_begin :: "('b, 'q, 'a, 'f) data_handler \<Rightarrow> timesync_locals \<times> ('b, 'q, 'a, 'f) data_handler" where
  "timesync_begin s =
     (\<lparr>tl_msg_seqno = 0, tl_prev_timestamp = 0, tl_zero_count = 0, tl_duplicate_count = 0, tl_total_count = 0\<rparr>,
      s\<lparr>num_requests := 0, sum_requests := 0\<rparr>)"

definition timesync_round ::
  "DataRequest \<Rightarrow> bool \<Rightarrow> timesync_locals \<times> ('b, 'q, 'a, 'f) data_handler \<Rightarrow> timesync_locals \<times> ('b, 'q, 'a, 'f) data_handler"
where
  "timesync_round blank send_succeeds = (\<lambda>(t, s).
     let daq_time = get_last_daq_time (raw_processor_impl s);
         t = t\<lparr>tl_total_count := tl_total_count t + 1\<rparr>
     in if daq_time \<noteq> 0 \<and> daq_time \<noteq> tl_prev_timestamp t
        then let t = t\<lparr>tl_prev_timestamp := daq_time, tl_msg_seqno := tl_msg_seqno t + 1\<rparr>;
                 msg = \<lparr>ts_daq_time = daq_time, ts_run_number = dh_run_number s,
                        ts_sequence_number = tl_msg_seqno t, ts_source_pid = pid_of_current_process s\<rparr>;
                 s = dh_emit (if send_succeeds then TimeSyncSent msg
                              else TimeSyncTransmissionFailed (timesync_connection_name s)) s;
                 s = (if fake_trigger s
                      then let s = s\<lparr>current_fake_trigger_id := current_fake_trigger_id s + 1\<rparr>
                           in count_request (s\<lparr>request_handler_impl :=
                                issue_request (addressed_request (fake_request blank (dh_sourceid s) (current_fake_trigger_id s) daq_time)) False
                                  (request_handler_impl s)\<rparr>)
                      else s)
             in (t, s)
        else (t\<lparr>tl_zero_count := tl_zero_count t + (if daq_time = 0 then 1 else 0),
                tl_duplicate_count := tl_duplicate_count t + (if daq_time = tl_prev_timestamp t then 1 else 0)\<rparr>, s))"

text \<open>
  The thread: in the rounds it makes while the run marker is set it finds the DAQ times of the list,
  which the post-processing of the readout type has reached meanwhile, and sends with the results in
  the list.
\<close>

definition reach_daq_time :: "u64 \<Rightarrow> ('b, 'q, 'a, 'f) data_handler \<Rightarrow> ('b, 'q, 'a, 'f) data_handler" where
  "reach_daq_time daq_time s =
     s\<lparr>raw_processor_impl := (raw_processor_impl s)\<lparr>last_processed_daq_ts := daq_time\<rparr>\<rparr>"

fun timesync_loop ::
  "DataRequest \<Rightarrow> (u64 \<times> bool) list \<Rightarrow> timesync_locals \<times> ('b, 'q, 'a, 'f) data_handler \<Rightarrow> timesync_locals \<times> ('b, 'q, 'a, 'f) data_handler"
where
  "timesync_loop blank [] ts = ts"
| "timesync_loop blank ((daq_time, send_succeeds) # rounds) (t, s) =
     timesync_loop blank rounds (timesync_round blank send_succeeds (t, reach_daq_time daq_time s))"

definition run_timesync ::
  "DataRequest \<Rightarrow> (u64 \<times> bool) list \<Rightarrow> ('b, 'q, 'a, 'f) data_handler \<Rightarrow> timesync_locals \<times> ('b, 'q, 'a, 'f) data_handler"
where
  "run_timesync blank rounds s = timesync_loop blank rounds (timesync_begin s)"

record data_handler_info =
  dhi_sum_payloads :: int
  dhi_num_payloads :: int
  dhi_num_data_input_timeouts :: int
  dhi_num_payloads_overwritten :: int
  dhi_sum_requests :: int
  dhi_num_requests :: int
  dhi_last_daq_timestamp :: u64

definition opmon_dh :: "int \<Rightarrow> ('b, 'q, 'a, 'f) data_handler \<Rightarrow> data_handler_info \<times> ('b, 'q, 'a, 'f) data_handler" where
  "opmon_dh now s =
     (\<lparr>dhi_sum_payloads = sint (sum_payloads s), dhi_num_payloads = sint (num_payloads s),
       dhi_num_data_input_timeouts = sint (rawq_timeout_count s),
       dhi_num_payloads_overwritten = sint (num_payloads_overwritten s),
       dhi_sum_requests = sint (sum_requests s), dhi_num_requests = sint (num_requests s),
       dhi_last_daq_timestamp = get_last_daq_time (raw_processor_impl s)\<rparr>,
      s\<lparr>num_payloads := 0, rawq_timeout_count := 0, stats_packet_count := 0, dh_t0 := now,
        num_payloads_overwritten := 0, num_requests := 0\<rparr>)"

end
