(* ===== verification/Data_Contract.thy ===== *)
theory Data_Contract
  imports Data_Handling
begin

text \<open>
  What the data handling model promises: received elements are pre-processed, stored and handed to
  post-processing; with a processing delay, each pass hands over exactly the elements between the
  end of the previous pass and the delay before the newest element. Two places where the code
  falls short of that are shown as well: a full buffer, and a buffer whose oldest element has
  overtaken the last pass.
\<close>

section \<open>Storing and post-processing one element\<close>

lemma post_pointer_sel [simp]:
  "latency_buffer_impl (post_pointer P ptr s) = latency_buffer_impl s"
  "raw_processor_impl (post_pointer P ptr s) = postprocess_item P ptr (raw_processor_impl s)"
  "num_payloads_overwritten (post_pointer P ptr s) = num_payloads_overwritten s"
  by (simp_all add: post_pointer_def)

lemma count_payload_sel [simp]:
  "latency_buffer_impl (count_payload s) = latency_buffer_impl s"
  "raw_processor_impl (count_payload s) = raw_processor_impl s"
  "num_payloads_overwritten (count_payload s) = num_payloads_overwritten s"
  by (simp_all add: count_payload_def)

text \<open>The element as pre-processing leaves it.\<close>

definition preprocessed :: "('b, 'q, 'a, 'f) data_handler \<Rightarrow> 'a \<Rightarrow> 'a" where
  "preprocessed s x = fst (preprocess_item (raw_processor_impl s) (x, error_registry (request_handler_impl s)))"

lemma store_item_queue:
  assumes "queue_inv (latency_buffer_impl s)"
  defines "room \<equiv> length (contents (latency_buffer_impl s)) + 1 < unat (qsize (latency_buffer_impl s))"
  shows "\<exists>s'. store_item R (queue_lb_ops search) x s = Inr s' \<and> queue_inv (latency_buffer_impl s') \<and>
           contents (latency_buffer_impl s') =
             (if room then contents (latency_buffer_impl s) @ [preprocessed s x] else contents (latency_buffer_impl s)) \<and>
           num_payloads_overwritten s' = num_payloads_overwritten s + (if room then 0 else 1) \<and>
           raw_processor_impl s' = raw_processor_impl s \<and> processing_delay_ticks s' = processing_delay_ticks s"
proof -
  let ?q = "latency_buffer_impl s"
  obtain x' reg where pre: "preprocess_item (raw_processor_impl s) (x, error_registry (request_handler_impl s)) = (x', reg)"
    by fastforce
  have x': "preprocessed s x = x'" by (simp add: preprocessed_def pre)
  obtain ok q' where w: "write_q x' ?q = Inr (ok, q')" "queue_inv q'" "ok = room"
      "contents q' = (if room then contents ?q @ [x'] else contents ?q)"
  proof (cases room)
    case True
    then show thesis using that write_q_room [OF assms(1), of x'] by (auto simp: room_def)
  next
    case False
    let ?q' = "?q\<lparr>overflow_ctr := overflow_ctr ?q + 1\<rparr>"
    have "queue_inv ?q'" "contents ?q' = contents ?q"
      using assms(1) by (auto simp: queue_inv_def stored_def ring_slot_def contents_def split: region.splits)
    moreover have "\<not> stored ?q + 1 < unat (qsize ?q)" using False by (simp add: room_def)
    then have "write_q x' ?q = Inr (False, ?q')"
      using write_q_no_room [OF assms(1), of x'] stored_less_size [OF assms(1)] by simp
    ultimately show thesis using that False by simp
  qed
  then show ?thesis
    using pre x' by (auto simp: store_item_def queue_lb_ops_def dh_emit_def Let_def)
qed

text \<open>
  C18. Without a processing delay, \<open>process_item\<close> on a queue stores the pre-processed element as the
  newest one and hands exactly that element to the post-processors when there is room. When
  the queue is full the element is dropped (nothing is overwritten), it is counted in
  \<open>m_num_payloads_overwritten\<close>, and the post-processors are given the element that was the
  newest before a second time.
\<close>

theorem process_item_stores_and_posts:
  assumes inv: "queue_inv (latency_buffer_impl s)" and delay: "processing_delay_ticks s = 0"
  shows "\<exists>s'. process_item R (queue_lb_ops search) P x s = Inr s' \<and> queue_inv (latency_buffer_impl s') \<and>
     (if length (contents (latency_buffer_impl s)) + 1 < unat (qsize (latency_buffer_impl s))
      then contents (latency_buffer_impl s') = contents (latency_buffer_impl s) @ [preprocessed s x] \<and>
           raw_processor_impl s' = postprocess_item P (Some (preprocessed s x)) (raw_processor_impl s) \<and>
           num_payloads_overwritten s' = num_payloads_overwritten s
      else contents (latency_buffer_impl s') = contents (latency_buffer_impl s) \<and>
           raw_processor_impl s' =
             postprocess_item P (Some (last (contents (latency_buffer_impl s)))) (raw_processor_impl s) \<and>
           num_payloads_overwritten s' = num_payloads_overwritten s + 1)"
proof -
  let ?q = "latency_buffer_impl s"
  obtain s1 where s1: "store_item R (queue_lb_ops search) x s = Inr s1" "queue_inv (latency_buffer_impl s1)"
      "contents (latency_buffer_impl s1) =
         (if length (contents ?q) + 1 < unat (qsize ?q) then contents ?q @ [preprocessed s x] else contents ?q)"
      "num_payloads_overwritten s1 = num_payloads_overwritten s +
         (if length (contents ?q) + 1 < unat (qsize ?q) then 0 else 1)"
      "raw_processor_impl s1 = raw_processor_impl s" "processing_delay_ticks s1 = processing_delay_ticks s"
    using store_item_queue [OF inv, of R search x] by blast
  have ne: "contents (latency_buffer_impl s1) \<noteq> []"
  proof
    assume e: "contents (latency_buffer_impl s1) = []"
    then have full: "\<not> length (contents ?q) + 1 < unat (qsize ?q)" "contents ?q = []"
      using s1(3) by (auto split: if_splits)
    then have "length (contents ?q) = 0" by (simp only: list.size)
    then show False using full(1) queue_bounds (3) [OF inv] by linarith
  qed
  have "lb_back (queue_lb_ops search) (latency_buffer_impl s1) = Inr (Some (last (contents (latency_buffer_impl s1))))"
    using queue.back_elements [OF s1(2), of search] ne by simp
  then have "process_item R (queue_lb_ops search) P x s =
      Inr (count_payload (post_pointer P (Some (last (contents (latency_buffer_impl s1)))) s1))"
    using s1(1,6) delay by (simp add: process_item_def)
  then show ?thesis using s1 by (simp split: if_splits)
qed

text \<open>
  A stream of items: what pre-processing makes of them, one after the other, with the error registry
  it threads through; and what is stored when there is room for all of them.
\<close>

fun preprocess_stream :: "('q, 'a, 'e) raw_processor \<Rightarrow> error_map \<Rightarrow> 'a list \<Rightarrow> 'a list \<times> error_map" where
  "preprocess_stream p reg [] = ([], reg)"
| "preprocess_stream p reg (x # xs) =
     (case preprocess_item p (x, reg) of
        (x', reg) \<Rightarrow> case preprocess_stream p reg xs of (ys, reg) \<Rightarrow> (x' # ys, reg))"

lemma preprocess_stream_cong:
  "preprocess_functions p = preprocess_functions p' \<Longrightarrow> preprocess_stream p reg xs = preprocess_stream p' reg xs"
  by (induction xs arbitrary: reg) (simp_all add: preprocess_item_def)

lemma postprocess_keeps_preprocessing [simp]:
  "preprocess_functions (postprocess_item P ptr p) = preprocess_functions p"
  by (simp add: postprocess_item_def split: prod.split)

lemma process_item_room:
  assumes inv: "queue_inv (latency_buffer_impl s)"
    and room: "stored (latency_buffer_impl s) + 1 < unat (qsize (latency_buffer_impl s))"
    and pre: "preprocess_item (raw_processor_impl s) (x, error_registry (request_handler_impl s)) = (x', reg)"
  shows "\<exists>s'. process_item R (queue_lb_ops search) P x s = Inr s' \<and> queue_inv (latency_buffer_impl s') \<and>
           contents (latency_buffer_impl s') = contents (latency_buffer_impl s) @ [x'] \<and>
           qsize (latency_buffer_impl s') = qsize (latency_buffer_impl s) \<and>
           preprocess_functions (raw_processor_impl s') = preprocess_functions (raw_processor_impl s) \<and>
           request_handler_impl s' = (request_handler_impl s)\<lparr>error_registry := reg\<rparr> \<and>
           dh_sourceid s' = dh_sourceid s \<and> num_payloads_overwritten s' = num_payloads_overwritten s"
proof -
  obtain q where q: "write_q x' (latency_buffer_impl s) = Inr (True, q)" "queue_inv q"
      "contents q = contents (latency_buffer_impl s) @ [x']" "qsize q = qsize (latency_buffer_impl s)"
    using write_q_room [OF inv room, of x'] by (auto simp: same_config_def)
  have "lb_back (queue_lb_ops search) q = Inr (Some x')"
    using queue.back_elements [OF q(2), of search] q(3) by simp
  then show ?thesis
    using pre q
    by (simp add: process_item_def store_item_def queue_lb_ops_def dh_emit_def Let_def count_payload_def post_pointer_def)
qed

lemma process_items_room:
  assumes "queue_inv (latency_buffer_impl s)"
    and "stored (latency_buffer_impl s) + length xs < unat (qsize (latency_buffer_impl s))"
    and "preprocess_stream (raw_processor_impl s) (error_registry (request_handler_impl s)) xs = (ys, reg)"
  shows "\<exists>s'. process_items R (queue_lb_ops search) P xs s = Inr s' \<and> queue_inv (latency_buffer_impl s') \<and>
           contents (latency_buffer_impl s') = contents (latency_buffer_impl s) @ ys \<and>
           request_handler_impl s' = (request_handler_impl s)\<lparr>error_registry := reg\<rparr> \<and>
           dh_sourceid s' = dh_sourceid s \<and> num_payloads_overwritten s' = num_payloads_overwritten s"
  using assms
proof (induction xs arbitrary: s ys)
  case (Cons x xs)
  let ?h = "request_handler_impl s"
  obtain x' reg1 ys1 where pre: "preprocess_item (raw_processor_impl s) (x, error_registry ?h) = (x', reg1)"
      "preprocess_stream (raw_processor_impl s) reg1 xs = (ys1, reg)" "ys = x' # ys1"
    using Cons.prems(3) by (auto split: prod.splits)
  have "stored (latency_buffer_impl s) + 1 < unat (qsize (latency_buffer_impl s))" using Cons.prems(2) by simp
  then obtain s1 where s1: "process_item R (queue_lb_ops search) P x s = Inr s1" "queue_inv (latency_buffer_impl s1)"
      "contents (latency_buffer_impl s1) = contents (latency_buffer_impl s) @ [x']"
      "qsize (latency_buffer_impl s1) = qsize (latency_buffer_impl s)"
      "preprocess_functions (raw_processor_impl s1) = preprocess_functions (raw_processor_impl s)"
      "request_handler_impl s1 = ?h\<lparr>error_registry := reg1\<rparr>" "dh_sourceid s1 = dh_sourceid s"
      "num_payloads_overwritten s1 = num_payloads_overwritten s"
    using process_item_room [OF Cons.prems(1) _ pre(1), of R search P] by blast
  have "stored (latency_buffer_impl s1) = stored (latency_buffer_impl s) + 1"
    using s1(3) by (metis length_contents length_append_singleton Suc_eq_plus1)
  then have "stored (latency_buffer_impl s1) + length xs < unat (qsize (latency_buffer_impl s1))"
    using Cons.prems(2) s1(4) by simp
  moreover have "preprocess_stream (raw_processor_impl s1) (error_registry (request_handler_impl s1)) xs = (ys1, reg)"
    using preprocess_stream_cong [OF s1(5)] pre(2) s1(6) by simp
  ultimately obtain s2 where "process_items R (queue_lb_ops search) P xs s1 = Inr s2"
      "queue_inv (latency_buffer_impl s2)" "contents (latency_buffer_impl s2) = contents (latency_buffer_impl s1) @ ys1"
      "request_handler_impl s2 = (request_handler_impl s1)\<lparr>error_registry := reg\<rparr>"
      "dh_sourceid s2 = dh_sourceid s1" "num_payloads_overwritten s2 = num_payloads_overwritten s1"
    using Cons.IH [OF s1(2)] by blast
  then show ?case using s1 pre(3) by simp
qed simp

text \<open>A data handler around the full queue of three elements and around the frames queue.\<close>

definition sample_dh :: "dummy_frame iterable_queue \<Rightarrow> u64 \<Rightarrow>
    (dummy_frame iterable_queue, dummy_frame option iterable_queue, dummy_frame, plain_fragment) data_handler" where
  "sample_dh q delay =
     \<lparr>callback_mode = False, fake_trigger = False, generate_timesync = False, current_fake_trigger_id = 0,
      dh_sourceid = \<lparr>subsystem = 1, source_id = 1\<rparr>, dh_run_number = 1, processing_delay_ticks = delay,
      num_payloads = 0, sum_payloads = 0, num_requests = 0, sum_requests = 0, rawq_timeout_count = 0,
      stats_packet_count = 0, num_payloads_overwritten = 0, raw_data_receiver_connection_name = ''raw'', timesync_connection_name = ''sync'',
      has_raw_data_receiver = True, has_data_request_receiver = True, has_request_callback = True,
      consumer_running = True, timesync_running = False,
      pid_of_current_process = 1, latency_buffer_impl = q, raw_processor_impl = new_raw_processor True,
      request_handler_impl = sample_handler, request_handler_supports_cutoff_timestamp = False,
      cutoff_timestamp = 0, dh_t0 = 0, dh_events = []\<rparr>"

lemma sample_dh_sel [simp]:
  "latency_buffer_impl (sample_dh q delay) = q" "processing_delay_ticks (sample_dh q delay) = delay"
  "num_payloads_overwritten (sample_dh q delay) = 0" "raw_processor_impl (sample_dh q delay) = new_raw_processor True"
  by (simp_all add: sample_dh_def)

theorem process_item_stores_and_posts_witness:
  "\<exists>s'. process_item (dummy_ops 16) (BinarySearchQueueModel (dummy_ops 16)) ring_pcq (frame_at 164)
          (sample_dh frames_queue 0) = Inr s' \<and>
        contents (latency_buffer_impl s') = map frame_at [100, 116, 132, 148, 164] \<and>
        num_payloads_overwritten s' = 0"
proof -
  have "unat (qsize frames_queue) = 8" by (simp add: frames_queue_def)
  then show ?thesis
    using process_item_stores_and_posts [of "sample_dh frames_queue 0" "dummy_ops 16" "bs_lower_bound (dummy_ops 16)"
        ring_pcq "frame_at 164"] frames_queue_inv
    by (auto simp: BinarySearchQueueModel_def frames_stored frames_queue_contents preprocessed_def preprocess_item_def
        new_raw_processor_def)
qed

section \<open>Deferred post-processing\<close>

text \<open>Handing over a list of elements one by one.\<close>

definition post_all :: "('q, 'a option) pcq_ops \<Rightarrow> 'a list \<Rightarrow> ('b, 'q, 'a, 'f) data_handler \<Rightarrow> ('b, 'q, 'a, 'f) data_handler"
where
  "post_all P xs s = fold (\<lambda>x s. count_payload (post_pointer P (Some x) s)) xs s"

lemma post_all_simps [simp]:
  "post_all P [] s = s" "post_all P (x # xs) s = post_all P xs (count_payload (post_pointer P (Some x) s))"
  by (simp_all add: post_all_def)

lemma at_pos_inj:
  assumes "queue_inv q" and "at_pos q i a" and "at_pos q j b"
  shows "i = j \<longleftrightarrow> a = b"
  using assms ring_inj [of "unat (readIndex q)" "unat (qsize q)" a b] queue_bounds [OF assms(1)]
  by (auto simp: at_pos_def ring_slot_def word_unat_eq_iff)

lemma iter_deref_end:
  assumes "queue_inv q"
  shows "iter_deref q end_iter = Inl InvalidAccess"
proof -
  have "\<not> end_iter < qsize q" using end_iter_not_in_range [OF assms] by blast
  then show ?thesis
    using assms by (auto simp: iter_deref_def queue_inv_def word_less_nat_alt split: region.splits)
qed

lemma at_pos_not_end:
  assumes "queue_inv q" and "at_pos q j a"
  shows "j \<noteq> end_iter"
  using at_pos_less [OF assms] by (auto simp: end_iter_def)

lemma post_range_positions:
  assumes inv: "queue_inv (latency_buffer_impl s)"
  shows "at_pos (latency_buffer_impl s) i a \<Longrightarrow> at_pos (latency_buffer_impl s) j b \<Longrightarrow> a \<le> b \<Longrightarrow>
         b < stored (latency_buffer_impl s) \<Longrightarrow>
         post_range (queue_lb_ops search) P i j s =
           Some (Inr (post_all P (take (b - a) (drop a (contents (latency_buffer_impl s)))) s))"
  using inv
proof (induction "b - a" arbitrary: a i s)
  case 0
  then have "i = j" using at_pos_inj [OF 0(6,2,3)] by simp
  then show ?case using 0 by (subst post_range.simps) simp
next
  case (Suc n)
  let ?q = "latency_buffer_impl s"
  have ab: "a < b" using Suc.hyps(2) by simp
  have ne: "i \<noteq> j" using at_pos_inj [OF Suc.prems(5,1,2)] ab by simp
  have al: "a < stored ?q" using ab Suc.prems(4) by simp
  have x: "iter_deref ?q i = Inr (contents ?q ! a)" by (rule deref_at_pos [OF Suc.prems(5,1) al])
  have nx: "at_pos ?q (iter_next ?q i) (a + 1)"
    using iter_next_at_pos [OF Suc.prems(5,1) al] ab Suc.prems(4) by simp
  let ?s = "count_payload (post_pointer P (Some (contents ?q ! a)) s)"
  have "n = b - (a + 1)" using Suc.hyps(2) by simp
  from Suc.hyps(1) [OF this, of ?s "iter_next ?q i"] have
    "post_range (queue_lb_ops search) P (iter_next ?q i) j ?s =
       Some (Inr (post_all P (take (b - (a + 1)) (drop (a + 1) (contents ?q))) ?s))"
    using nx Suc.prems ab by simp
  moreover have "take (b - a) (drop a (contents ?q)) = contents ?q ! a # take (b - (a + 1)) (drop (a + 1) (contents ?q))"
    using Cons_nth_drop_Suc [of a "contents ?q"] al ab by (simp add: Suc_diff_Suc take_Suc_Cons [symmetric])
  ultimately show ?case
    using ne x by (subst post_range.simps) (simp add: queue_lb_ops_def)
qed

lemma dropWhile_sorted_filter:
  "ts_sorted R xs \<Longrightarrow> dropWhile (\<lambda>x. get_timestamp R x < t) xs = filter (\<lambda>x. t \<le> get_timestamp R x) xs"
proof (induction xs)
  case (Cons x xs)
  then have "ts_sorted R xs" and later: "\<forall>y \<in> set xs. get_timestamp R x < get_timestamp R y"
    by (auto simp: ts_sorted_def)
  moreover have "filter (\<lambda>x. t \<le> get_timestamp R x) xs = xs" if "t \<le> get_timestamp R x"
    using later that by (fastforce simp: filter_id_conv)
  ultimately show ?case using Cons.IH by (auto simp: not_less)
qed simp

lemma lb_index_mono:
  assumes srt: "ts_sorted R xs" and t: "t \<le> u"
  shows "lb_index R t xs \<le> lb_index R u xs"
  using srt t unfolding lb_index_def takeWhile_sorted_filter [OF srt]
  by (induction xs) (auto simp: ts_sorted_def)

lemma window_is_range:
  assumes srt: "ts_sorted R xs" and t: "t \<le> u"
  shows "take (lb_index R u xs - lb_index R t xs) (drop (lb_index R t xs) xs) =
         filter (\<lambda>x. t \<le> get_timestamp R x \<and> get_timestamp R x < u) xs"
proof -
  let ?ys = "filter (\<lambda>x. get_timestamp R x < u) xs"
  have ys: "take (lb_index R u xs) xs = ?ys"
    unfolding lb_index_def takeWhile_eq_take [symmetric] by (rule takeWhile_sorted_filter [OF srt])
  have srt': "ts_sorted R ?ys" using srt by (simp add: ts_sorted_def sorted_wrt_filter)
  have "filter (\<lambda>x. get_timestamp R x < t) ?ys = filter (\<lambda>x. get_timestamp R x < t) xs"
    using t by (auto intro!: filter_cong)
  then have "lb_index R t xs = length (takeWhile (\<lambda>x. get_timestamp R x < t) ?ys)"
    by (simp add: lb_index_def takeWhile_sorted_filter [OF srt] takeWhile_sorted_filter [OF srt'])
  then have "drop (lb_index R t xs) ?ys = dropWhile (\<lambda>x. get_timestamp R x < t) ?ys"
    by (simp add: dropWhile_eq_drop)
  then show ?thesis
    using dropWhile_sorted_filter [OF srt', of t] ys by (simp add: drop_take [symmetric] conj_commute)
qed

text \<open>
  The timestamp up to which the previous pass went; on the first pass, that of the oldest element.
\<close>

definition pass_start :: "'a readout_ops \<Rightarrow> 'a list \<Rightarrow> 'a consumer_locals \<Rightarrow> 'a consumer_locals" where
  "pass_start R xs c =
     (if cl_first_cycle c
      then c\<lparr>cl_processed_element := set_timestamp R (get_timestamp R (hd xs)) (cl_processed_element c),
             cl_first_cycle := False\<rparr>
      else c)"

lemma deferred_unfold:
  fixes search :: "'a \<Rightarrow> bool \<Rightarrow> 'a iterable_queue \<Rightarrow> (fault + u32) option"
    and s :: "('a iterable_queue, 'q, 'a, 'f) data_handler" and R :: "'a readout_ops"
    and P :: "('q, 'a option) pcq_ops"
  assumes inv: "queue_inv (latency_buffer_impl s)" and ne: "contents (latency_buffer_impl s) \<noteq> []"
    and delay: "processing_delay_ticks s \<noteq> 0" and time: "(now - cl_last_post_proc_time c) div 1000000 > 1"
  defines "L \<equiv> queue_lb_ops search" and "xs \<equiv> contents (latency_buffer_impl s)"
  defines "c' \<equiv> pass_start R xs (c\<lparr>cl_last_post_proc_time := now\<rparr>)"
  defines "u \<equiv> get_timestamp R (last xs) - processing_delay_ticks s"
  assumes far: "get_timestamp R (last xs) - get_timestamp R (cl_processed_element c') > processing_delay_ticks s"
    and iters: "search (cl_processed_element c') False (latency_buffer_impl s) = Some (Inr i)"
      "search (set_timestamp R u (cl_processed_element c')) False (latency_buffer_impl s) = Some (Inr j)"
  shows "deferred_postprocess R L P now (c, s) =
         (case post_range L P i j s of
            None \<Rightarrow> None
          | Some (Inl f) \<Rightarrow> Some (Inl f)
          | Some (Inr s') \<Rightarrow>
              Some (Inr (c'\<lparr>cl_processed_element := set_timestamp R u (cl_processed_element c')\<rparr>, s')))"
proof -
  let ?b = "latency_buffer_impl s"
  have occ: "unat (lb_occupancy L ?b) = length xs" unfolding L_def xs_def by (rule queue.occupancy_elements [OF inv])
  have "0 < length xs" using ne unfolding xs_def length_greater_0_conv .
  then have pos: "lb_occupancy L ?b > 0" using occ by (simp only: word_less_nat_alt unat_0)
  have ends: "front_timestamp R L ?b = Inr (get_timestamp R (hd xs))" "back_timestamp R L ?b = Inr (get_timestamp R (last xs))"
    using queue.timestamps_of_ends [OF inv ne, of R search] by (simp_all add: L_def xs_def)
  have lb: "lb_lower_bound L = search" by (simp add: L_def queue_lb_ops_def)
  show ?thesis
    using pos ends delay time far iters
    by (cases "cl_first_cycle c")
      (simp_all add: deferred_postprocess_def Let_def lb c'_def pass_start_def u_def split: option.split sum.split)
qed

text \<open>
  C17. With a processing delay, a pass of deferred post-processing on a binary-search queue with
  increasing timestamps returns and hands over, in order and once each, exactly the stored
  elements whose timestamps lie between the end of the previous pass (included) and the delay
  before the newest element (excluded), and the next pass starts where this one ended; so
  consecutive passes neither skip nor repeat an element. This holds when the end of the
  previous pass is not below the oldest element.
\<close>

theorem deferred_pass_posts_window:
  assumes ord: "readout_order R" and inv: "queue_inv (latency_buffer_impl s)"
    and ne: "contents (latency_buffer_impl s) \<noteq> []" and srt: "ts_sorted R (contents (latency_buffer_impl s))"
    and delay: "processing_delay_ticks s \<noteq> 0" and time: "(now - cl_last_post_proc_time c) div 1000000 > 1"
  defines "xs \<equiv> contents (latency_buffer_impl s)"
  defines "c' \<equiv> pass_start R xs (c\<lparr>cl_last_post_proc_time := now\<rparr>)"
  defines "t \<equiv> get_timestamp R (cl_processed_element c')" and "newest \<equiv> get_timestamp R (last xs)"
  defines "next_el \<equiv> set_timestamp R (newest - processing_delay_ticks s) (cl_processed_element c')"
  assumes old: "\<not> elem_less R (cl_processed_element c') (hd xs)"
    and far: "unat t + unat (processing_delay_ticks s) < unat newest"
  shows "deferred_postprocess R (BinarySearchQueueModel R) P now (c, s) =
         Some (Inr (c'\<lparr>cl_processed_element := next_el\<rparr>,
                    post_all P (filter (\<lambda>x. t \<le> get_timestamp R x \<and>
                                            get_timestamp R x < newest - processing_delay_ticks s) xs) s)) \<and>
         get_timestamp R next_el = newest - processing_delay_ticks s"
proof -
  let ?q = "latency_buffer_impl s" and ?u = "newest - processing_delay_ticks s"
  have nu: "get_timestamp R next_el = ?u"
    unfolding next_el_def by (rule readout_order.get_set_timestamp [OF ord])
  have un: "unat ?u = unat newest - unat (processing_delay_ticks s)" using far by (simp add: unat_sub word_le_nat_alt)
  have less: "t < ?u" using far un by (simp add: word_less_nat_alt)
  then have tu: "t \<le> ?u" by simp
  have old': "\<not> elem_less R next_el (hd xs)"
    using readout_order.not_less_ts [OF ord old] readout_order.less_imp_ts [OF ord, of next_el "hd xs"] nu less
    by (auto simp: t_def)
  obtain i where i: "bs_lower_bound R (cl_processed_element c') False ?q = Some (Inr i)" "at_pos ?q i (lb_index R t xs)"
    using readout_order.bs_lower_bound_correct [OF ord inv srt, of "cl_processed_element c'" False] ne old(1)
    by (auto simp: xs_def t_def)
  obtain j where j: "bs_lower_bound R next_el False ?q = Some (Inr j)" "at_pos ?q j (lb_index R ?u xs)"
    using readout_order.bs_lower_bound_correct [OF ord inv srt, of next_el False] ne old' nu by (auto simp: xs_def)
  have "lb_index R ?u xs \<noteq> length xs"
  proof
    assume "lb_index R ?u xs = length xs"
    then have "get_timestamp R (xs ! (length xs - 1)) < ?u"
      using lb_index_below [of "length xs - 1" R ?u xs] ne by (simp add: xs_def flip: length_contents)
    then show False
      using un far delay ne by (simp add: newest_def xs_def last_conv_nth word_less_nat_alt)
  qed
  then have jl: "lb_index R ?u xs < stored ?q" using lb_index_le [of R ?u xs] by (simp add: xs_def le_neq_implies_less)
  have ij: "lb_index R t xs \<le> lb_index R ?u xs"
    by (rule lb_index_mono [OF srt [folded xs_def] tu])
  have "get_timestamp R (last xs) - t > processing_delay_ticks s"
  proof -
    have "unat (newest - t) = unat newest - unat t" using far by (simp add: unat_sub word_le_nat_alt)
    then show ?thesis using far by (simp add: newest_def word_less_nat_alt)
  qed
  note d = deferred_unfold [OF inv ne delay time, where R = R and search = "bs_lower_bound R" and i = i and j = j and P = P]
  show ?thesis
    using d post_range_positions [OF inv i(2) j(2) ij jl, of "bs_lower_bound R" P] window_is_range [OF srt tu] i(1) j(1) nu
      \<open>get_timestamp R (last xs) - t > processing_delay_ticks s\<close>
    by (simp add: BinarySearchQueueModel_def xs_def c'_def t_def next_el_def newest_def)
qed

theorem deferred_pass_posts_window_witness:
  "\<exists>c s. deferred_postprocess (dummy_ops 16) (BinarySearchQueueModel (dummy_ops 16)) ring_pcq 10000000
            (fst (consume_begin (frame_at 0) 0 (sample_dh frames_queue 20)), sample_dh frames_queue 20) =
           Some (Inr (c, post_all ring_pcq [frame_at 100, frame_at 116] s)) \<and>
         timestamp (cl_processed_element c) = 128"
proof -
  let ?c = "fst (consume_begin (frame_at 0) 0 (sample_dh frames_queue 20))"
  let ?s = "sample_dh frames_queue 20"
  note hd_last = frames_queue_contents
  note th = deferred_pass_posts_window [of "dummy_ops 16" ?s 10000000 ?c ring_pcq]
  show ?thesis
    using th [OF dummy.readout_order_axioms] frames_queue_inv frames_ts_sorted
    by (fastforce simp: frames_queue_contents consume_begin_def pass_start_def dummy_less_def)
qed

text \<open>
  C38. When cleanup has removed the elements up to which the previous pass went (the end of the
  previous pass is below the oldest element), the search for the start of the next pass answers
  \<open>end()\<close>. Unless the end of the pass lies below the oldest element as well, the loop from there
  never meets the end of the window without first dereferencing the invalid iterator: the code
  reads outside the buffer.
\<close>

theorem overtaken_pass_reads_outside:
  assumes ord: "readout_order R" and inv: "queue_inv (latency_buffer_impl s)"
    and ne: "contents (latency_buffer_impl s) \<noteq> []" and srt: "ts_sorted R (contents (latency_buffer_impl s))"
    and delay: "processing_delay_ticks s \<noteq> 0" and time: "(now - cl_last_post_proc_time c) div 1000000 > 1"
  defines "xs \<equiv> contents (latency_buffer_impl s)"
  assumes running: "\<not> cl_first_cycle c"
    and far: "get_timestamp R (last xs) - get_timestamp R (cl_processed_element c) > processing_delay_ticks s"
    and overtaken: "elem_less R (cl_processed_element c) (hd xs)"
    and inside: "\<not> elem_less R (set_timestamp R (get_timestamp R (last xs) - processing_delay_ticks s)
                                 (cl_processed_element c)) (hd xs)"
  shows "deferred_postprocess R (BinarySearchQueueModel R) P now (c, s) = Some (Inl InvalidAccess)"
proof -
  let ?q = "latency_buffer_impl s" and ?u = "get_timestamp R (last xs) - processing_delay_ticks s"
  have c': "pass_start R xs (c\<lparr>cl_last_post_proc_time := now\<rparr>) = c\<lparr>cl_last_post_proc_time := now\<rparr>"
    using running by (simp add: pass_start_def)
  have i: "bs_lower_bound R (cl_processed_element c) False ?q = Some (Inr end_iter)"
    using readout_order.bs_lower_bound_correct [OF ord inv srt, of "cl_processed_element c" False] overtaken
    by (simp add: xs_def)
  obtain j where j: "bs_lower_bound R (set_timestamp R ?u (cl_processed_element c)) False ?q = Some (Inr j)"
      "at_pos ?q j (lb_index R ?u xs)"
    using readout_order.bs_lower_bound_correct [OF ord inv srt, of "set_timestamp R ?u (cl_processed_element c)" False]
      ne inside readout_order.get_set_timestamp [OF ord] by (auto simp: xs_def)
  have "j \<noteq> end_iter" using at_pos_not_end [OF inv j(2)] .
  then have "post_range (queue_lb_ops (bs_lower_bound R)) P end_iter j s = Some (Inl InvalidAccess)"
    using iter_deref_end [OF inv] by (subst post_range.simps) (simp add: queue_lb_ops_def)
  then show ?thesis
    using deferred_unfold [OF inv ne delay time, where R = R and search = "bs_lower_bound R" and i = end_iter
        and j = j and P = P] far i j(1) c'
    by (simp add: BinarySearchQueueModel_def xs_def)
qed

theorem overtaken_pass_reads_outside_witness:
  "deferred_postprocess (dummy_ops 16) (BinarySearchQueueModel (dummy_ops 16)) ring_pcq 10000000
     (\<lparr>cl_first_cycle = False, cl_processed_element = frame_at 50, cl_last_post_proc_time = 0\<rparr>,
      sample_dh frames_queue 20) = Some (Inl InvalidAccess)"
  by (rule overtaken_pass_reads_outside [OF dummy.readout_order_axioms])
    (use frames_queue_inv frames_ts_sorted in \<open>simp_all add: frames_queue_contents dummy_less_def\<close>)

end
