(* ===== verification/Time_Sync.thy ===== *)
theory Time_Sync
  imports Data_Contract "HOL-Library.Sublist"
begin

text \<open>
  What the time synchronisation thread of the data handling model announces (\<open>run_timesync\<close>, modelled
  in \<open>Data_Handling\<close>): each DAQ time that processing reaches, once and numbered without gaps, with one
  fake trigger for each where they are switched on.
\<close>

section \<open>Announced DAQ times\<close>

text \<open>
  The rounds that announce their DAQ time when \<open>prev\<close> is the last one announced, with the result of the
  send: the time is valid and has changed.
\<close>

fun announced :: "u64 \<Rightarrow> (u64 \<times> bool) list \<Rightarrow> (u64 \<times> bool) list" where
  "announced prev [] = []"
| "announced prev ((d, ok) # xs) = (if d = 0 \<or> d = prev then announced prev xs else (d, ok) # announced d xs)"

lemma announced_subseq: "subseq (announced prev xs) xs"
  by (induction prev xs rule: announced.induct) auto

lemma announced_after: "map fst (announced prev xs) = tl (remdups_adj (prev # filter (\<lambda>d. d \<noteq> 0) (map fst xs)))"
  by (induction prev xs rule: announced.induct) auto

lemma announced_times: "map fst (announced 0 xs) = remdups_adj (filter (\<lambda>d. d \<noteq> 0) (map fst xs))"
proof (cases "filter (\<lambda>d. d \<noteq> 0) (map fst xs)")
  case (Cons d ds)
  then have "d \<in> set (filter (\<lambda>d. d \<noteq> 0) (map fst xs))" by simp
  then have "d \<noteq> 0" by simp
  then show ?thesis using Cons by (simp add: announced_after)
qed (simp add: announced_after)

definition sync_event :: "u32 \<Rightarrow> u32 \<Rightarrow> string \<Rightarrow> nat \<times> u64 \<times> bool \<Rightarrow> dh_event" where
  "sync_event run pid connection = (\<lambda>(k, d, ok).
     if ok then TimeSyncSent \<lparr>ts_daq_time = d, ts_run_number = run, ts_sequence_number = of_nat k, ts_source_pid = pid\<rparr>
     else TimeSyncTransmissionFailed connection)"

abbreviation syncs_of :: "('b, 'q, 'a, 'f) data_handler \<Rightarrow> nat \<times> u64 \<times> bool \<Rightarrow> dh_event" where
  "syncs_of s \<equiv> sync_event (dh_run_number s) (pid_of_current_process s) (timesync_connection_name s)"

section \<open>The loop\<close>

text \<open>Rounds that find an invalid or an unchanged DAQ time only count.\<close>

lemma round_silent:
  assumes "d = 0 \<or> d = tl_prev_timestamp t"
  shows "timesync_round blank ok (t, reach_daq_time d s) =
    (t\<lparr>tl_total_count := tl_total_count t + 1, tl_zero_count := tl_zero_count t + (if d = 0 then 1 else 0),
       tl_duplicate_count := tl_duplicate_count t + (if d = tl_prev_timestamp t then 1 else 0)\<rparr>, reach_daq_time d s)"
  using assms by (auto simp: timesync_round_def reach_daq_time_def get_last_daq_time_def)

lemma round_announces:
  assumes "d \<noteq> 0" and "d \<noteq> tl_prev_timestamp t" and "tl_msg_seqno t = of_nat j"
    and "timesync_round blank ok (t, reach_daq_time d s) = (t', s')"
  shows "t' = t\<lparr>tl_total_count := tl_total_count t + 1, tl_prev_timestamp := d, tl_msg_seqno := of_nat (Suc j)\<rparr>"
    and "dh_events s' = dh_events s @ [syncs_of s (Suc j, d, ok)]" and "syncs_of s' = syncs_of s"
    and "fake_trigger s' = fake_trigger s"
    and "posted (request_handler_impl s') = posted (request_handler_impl s) @
           (if fake_trigger s then [(addressed_request (fake_request blank (dh_sourceid s) (Suc (current_fake_trigger_id s)) d), False)] else [])"
    and "current_fake_trigger_id s' = current_fake_trigger_id s + (if fake_trigger s then 1 else 0)"
    and "num_requests s' = num_requests s + (if fake_trigger s then 1 else 0)"
    and "dh_sourceid s' = dh_sourceid s"
  using assms
  by (cases "fake_trigger s"; auto simp: timesync_round_def reach_daq_time_def get_last_daq_time_def Let_def dh_emit_def count_request_def
      issue_request_def sync_event_def)+

text \<open>The counters of the thread; zeros after the first announcement are no duplicates.\<close>

lemma loop_counts:
  assumes "timesync_loop blank xs (t, s) = (t', s')"
  defines "p \<equiv> tl_prev_timestamp t" and "ds \<equiv> map fst xs"
  shows "tl_total_count t' = tl_total_count t + length xs \<and>
    tl_zero_count t' = tl_zero_count t + length (filter (\<lambda>d. d = 0) ds) \<and>
    tl_duplicate_count t' + length (announced p xs) +
      length (filter (\<lambda>d. d = 0) (if p = 0 then dropWhile (\<lambda>d. d = 0) ds else ds)) =
    tl_duplicate_count t + length xs"
  using assms(1) unfolding p_def ds_def
proof (induction xs arbitrary: t s)
  case (Cons x xs)
  obtain d ok where x: "x = (d, ok)" by force
  obtain t1 s1 where r: "timesync_round blank ok (t, reach_daq_time d s) = (t1, s1)" by force
  have step: "timesync_loop blank xs (t1, s1) = (t', s')" using Cons.prems x r by simp
  show ?case
  proof (cases "d = 0 \<or> d = tl_prev_timestamp t")
    case True
    then show ?thesis using Cons.IH [OF step] r x by (auto simp: round_silent)
  next
    case False
    then have "t1 = t\<lparr>tl_total_count := tl_total_count t + 1, tl_prev_timestamp := d, tl_msg_seqno := tl_msg_seqno t + 1\<rparr>"
      using r by (auto simp: timesync_round_def reach_daq_time_def get_last_daq_time_def Let_def)
    then show ?thesis using Cons.IH [OF step] False x by auto
  qed
qed simp

lemma loop_announces:
  assumes "timesync_loop blank xs (t, s) = (t', s')" and "tl_msg_seqno t = of_nat j"
  defines "zs \<equiv> announced (tl_prev_timestamp t) xs"
  shows "dh_events s' = dh_events s @ map (syncs_of s) (zip [Suc j..<Suc j + length zs] zs) \<and>
    posted (request_handler_impl s') = posted (request_handler_impl s) @
      (if fake_trigger s
       then map2 (\<lambda>i (d, _). (addressed_request (fake_request blank (dh_sourceid s) i d), False))
              [Suc (current_fake_trigger_id s)..<Suc (current_fake_trigger_id s) + length zs] zs
       else []) \<and>
    num_requests s' = num_requests s + (if fake_trigger s then of_nat (length zs) else 0)"
  using assms(1,2) unfolding zs_def
proof (induction xs arbitrary: t s j)
  case (Cons x xs)
  obtain d ok where x: "x = (d, ok)" by force
  obtain t1 s1 where r: "timesync_round blank ok (t, reach_daq_time d s) = (t1, s1)" by force
  have step: "timesync_loop blank xs (t1, s1) = (t', s')" using Cons.prems x r by simp
  show ?case
  proof (cases "d = 0 \<or> d = tl_prev_timestamp t")
    case True
    then have eq: "t1 = t\<lparr>tl_total_count := tl_total_count t1, tl_zero_count := tl_zero_count t1,
          tl_duplicate_count := tl_duplicate_count t1\<rparr>" "s1 = reach_daq_time d s"
      using r by (auto simp: round_silent)
    have keep: "tl_msg_seqno t1 = of_nat j" "tl_prev_timestamp t1 = tl_prev_timestamp t"
      by (subst eq(1), simp add: Cons.prems)+
    have "syncs_of s1 = syncs_of s" using eq(2) by (simp add: reach_daq_time_def)
    then show ?thesis using Cons.IH [OF step keep(1)] True x keep(2) eq(2) by (auto simp: reach_daq_time_def)
  next
    case False
    note ra = round_announces [OF _ _ Cons.prems(2) r]
    have t1: "tl_msg_seqno t1 = of_nat (Suc j)" "tl_prev_timestamp t1 = d" using ra(1) False by auto
    show ?thesis using Cons.IH [OF step t1(1)] t1(2) ra(2-8) False x
      by (auto simp: upt_conv_Cons simp del: upt_Suc)
  qed
qed simp

text \<open>
  C34. The time synchronisation thread announces progress: in the rounds of a run it makes one
  announcement for each DAQ time that differs from the one announced before, none for a DAQ time of 0,
  numbered 1, 2, ... with the run number and process id; a failed send is warned about and keeps its
  number. With the fake trigger switched on it issues one request per announcement, with consecutive
  trigger numbers, and counts it, otherwise none. Every round is counted, the rounds with time 0 apart.
\<close>

theorem timesync_announces_progress:
  fixes s :: "('b, 'q, 'a, 'f) data_handler"
  assumes run: "run_timesync blank rounds s = (t, s')"
  defines "zs \<equiv> announced 0 rounds" and "ds \<equiv> map fst rounds"
  shows "map fst zs = remdups_adj (filter (\<lambda>d. d \<noteq> 0) ds) \<and> subseq zs rounds \<and>
    dh_events s' = dh_events s @ map (syncs_of s) (zip [1..<Suc (length zs)] zs) \<and>
    posted (request_handler_impl s') = posted (request_handler_impl s) @
      (if fake_trigger s
       then map2 (\<lambda>i (d, _). (addressed_request (fake_request blank (dh_sourceid s) i d), False))
              [Suc (current_fake_trigger_id s)..<Suc (current_fake_trigger_id s) + length zs] zs
       else []) \<and>
    num_requests s' = (if fake_trigger s then of_nat (length zs) else 0) \<and>
    tl_total_count t = length rounds \<and> tl_zero_count t = length (filter (\<lambda>d. d = 0) ds) \<and>
    tl_duplicate_count t + length zs + length (filter (\<lambda>d. d = 0) (dropWhile (\<lambda>d. d = 0) ds)) = length rounds"
proof -
  obtain t0 s0 where b: "timesync_begin s = (t0, s0)" by force
  have loop: "timesync_loop blank rounds (t0, s0) = (t, s')" using run b by (simp add: run_timesync_def)
  have t0: "tl_msg_seqno t0 = of_nat 0" "tl_prev_timestamp t0 = 0" "tl_total_count t0 = 0" "tl_zero_count t0 = 0"
      "tl_duplicate_count t0 = 0" and s0: "s0 = s\<lparr>num_requests := 0, sum_requests := 0\<rparr>"
    using b by (auto simp: timesync_begin_def)
  have "syncs_of s0 = syncs_of s" by (simp add: s0)
  then show ?thesis
    using loop_announces [OF loop t0(1)] loop_counts [OF loop] announced_times [of rounds] announced_subseq [of 0 rounds]
    by (simp add: t0 s0 zs_def ds_def del: upt_Suc)
qed

theorem timesync_announces_progress_witness:
  "\<exists>t s'. run_timesync (sample_request 0 0) [(0, True), (700000, True), (700000, True), (0, True), (800000, False)]
       (sample_dh frames_queue 0\<lparr>fake_trigger := True\<rparr>) = (t, s') \<and>
     dh_events s' = [TimeSyncSent \<lparr>ts_daq_time = 700000, ts_run_number = 1, ts_sequence_number = 1, ts_source_pid = 1\<rparr>,
                     TimeSyncTransmissionFailed ''sync''] \<and>
     map (\<lambda>(dr, _). (trigger_number dr, window_begin dr, window_end dr)) (posted (request_handler_impl s')) =
       [(1, 199900, 499900), (2, 299900, 599900)] \<and>
     num_requests s' = 2 \<and> tl_duplicate_count t = 2"
proof -
  let ?rounds = "[(0, True), (700000, True), (700000, True), (0, True), (800000, False)] :: (u64 \<times> bool) list"
    and ?s = "sample_dh frames_queue 0\<lparr>fake_trigger := True\<rparr>"
  obtain t s' where run: "run_timesync (sample_request 0 0) ?rounds ?s = (t, s')" by force
  have "dh_events ?s = []" "posted (request_handler_impl ?s) = []" "current_fake_trigger_id ?s = 0"
    by (simp_all add: sample_dh_def sample_handler_def new_request_handler_def)
  then show ?thesis
    using timesync_announces_progress [OF run] run
    by (intro exI [of _ t] exI [of _ s'])
       (simp add: sample_dh_def sync_event_def fake_request_def sample_request_def upt_rec)
qed

end
