(* ===== verification/Callback_Registry.thy ===== *)
theory Callback_Registry
  imports Data_Handling
begin

text \<open>
  The registry of data move callbacks (DataMoveCallbackRegistry.hpp and its detail file), through
  which a reader in the same process hands its data directly to a data handling model in callback
  mode, and the registration that \<open>DataHandlingModel::conf\<close> makes. Data types are the values of
  \<open>'t\<close> (what \<open>dynamic_cast\<close> distinguishes), callback functions the values of \<open>'c\<close>.
\<close>

section \<open>The registry\<close>

datatype ('t, 'c) DataMoveCallback = DataMoveCallback (callback_id: string) (data_type: 't) (callback: 'c)

type_synonym ('t, 'c) DataMoveCallbackRegistry = "string \<rightharpoonup> ('t, 'c) DataMoveCallback"

text \<open>The process-wide instance is created on first use.\<close>

definition get_registry ::
  "('t, 'c) DataMoveCallbackRegistry option \<Rightarrow> ('t, 'c) DataMoveCallbackRegistry \<times> ('t, 'c) DataMoveCallbackRegistry option"
where
  "get_registry s_instance = (case s_instance of
     None \<Rightarrow> (Map.empty, Some Map.empty)
   | Some r \<Rightarrow> (r, Some r))"

definition register_callback ::
  "'t \<Rightarrow> string \<Rightarrow> 'c \<Rightarrow> ('t, 'c) DataMoveCallbackRegistry \<Rightarrow> ('t, 'c) DataMoveCallbackRegistry" where
  "register_callback t i cb reg =
     (if reg i = None then reg(i \<mapsto> DataMoveCallback i t cb) else reg)"

text \<open>A null result is \<open>None\<close>; a callback of another data type makes the cast null, which is dereferenced.\<close>

definition get_callback :: "'t \<Rightarrow> string \<Rightarrow> ('t, 'c) DataMoveCallbackRegistry \<Rightarrow> fault + 'c option" where
  "get_callback t i reg =
     (case reg i of
        None \<Rightarrow> Inr None
      | Some cb \<Rightarrow> if data_type cb = t then Inr (Some (callback cb)) else Inl NullDeref)"

section \<open>Configuring a data handling model\<close>

text \<open>
  In callback mode \<open>conf\<close> registers \<open>consume_payload\<close> of this object, here \<open>consume\<close>, under the
  name of the raw data connection; thread names are left out.
\<close>

definition conf_dh ::
  "'t \<Rightarrow> 'c \<Rightarrow> ('b, 'q, 'a, 'f) data_handler \<Rightarrow> ('t, 'c) DataMoveCallbackRegistry option \<Rightarrow>
   ('t, 'c) DataMoveCallbackRegistry option" where
  "conf_dh rdt consume s s_instance =
     (if callback_mode s
      then case get_registry s_instance of
             (reg, _) \<Rightarrow> Some (register_callback rdt (raw_data_receiver_connection_name s) consume reg)
      else s_instance)"

section \<open>The first registration stays\<close>

fun register_all ::
  "('t \<times> string \<times> 'c) list \<Rightarrow> ('t, 'c) DataMoveCallbackRegistry \<Rightarrow> ('t, 'c) DataMoveCallbackRegistry" where
  "register_all [] reg = reg"
| "register_all ((t, i, cb) # rs) reg = register_all rs (register_callback t i cb reg)"

lemma register_all_lookup:
  "register_all rs reg i =
     (case reg i of
        Some e \<Rightarrow> Some e
      | None \<Rightarrow> map_option (\<lambda>(t, i, cb). DataMoveCallback i t cb) (find (\<lambda>(t, j, cb). j = i) rs))"
  by (induction rs reg rule: register_all.induct) (auto simp: register_callback_def split: option.splits)

text \<open>
  After any sequence of registrations, a lookup with the data type of the first registration
  under a name answers that registration's callback, with another data type it dereferences
  null, and under a name that was never registered it answers null: later registrations under
  the same name are ignored, so a model that is created and configured again for a connection
  never receives its data.
\<close>

theorem first_registration_is_kept:
  "get_callback t i (register_all rs Map.empty) =
     (case find (\<lambda>(t, j, cb). j = i) rs of
        None \<Rightarrow> Inr None
      | Some (t', _, cb) \<Rightarrow> if t' = t then Inr (Some cb) else Inl NullDeref)"
  by (auto simp: get_callback_def register_all_lookup split: option.splits)

end
