(* ===== verification/Skip_List.thy ===== *)
theory Skip_List
  imports Request_Contract
begin

text \<open>
  The skip list latency buffer (models/SkipListLatencyBufferModel.hpp and its detail file) and the
  request handler made for it (models/DefaultSkipListRequestHandler.hpp). The concurrent skip list
  itself is folly's: its operations are the record \<open>skip_list_ops\<close>, and what the code relies on is
  the locale \<open>skip_list\<close>, an ordered set of elements. An ordered list shows that the laws can hold.
\<close>

section \<open>The ordered set\<close>

record ('s, 'a, 'n) skip_list_ops =
  skl_create :: "nat \<Rightarrow> 's"
  skl_size :: "'s \<Rightarrow> u64"
  skl_insert :: "'a \<Rightarrow> 's \<Rightarrow> bool \<times> 's"
  skl_remove :: "'a \<Rightarrow> 's \<Rightarrow> bool \<times> 's"
  skl_pop_back :: "'s \<Rightarrow> bool \<times> 's"
  skl_first :: "'s \<Rightarrow> 'a option"
  skl_last :: "'s \<Rightarrow> 'a option"
  skl_begin :: "'s \<Rightarrow> 'n"
  skl_end :: "'s \<Rightarrow> 'n"
  skl_lower_bound :: "'a \<Rightarrow> 's \<Rightarrow> 'n"
  skl_good :: "'s \<Rightarrow> 'n \<Rightarrow> bool"
  skl_deref :: "'s \<Rightarrow> 'n \<Rightarrow> fault + 'a"
  skl_next :: "'s \<Rightarrow> 'n \<Rightarrow> 'n"

definition equivalent :: "'a readout_ops \<Rightarrow> 'a \<Rightarrow> 'a \<Rightarrow> bool" where
  "equivalent R x y \<longleftrightarrow> \<not> elem_less R x y \<and> \<not> elem_less R y x"

fun insert_ordered :: "'a readout_ops \<Rightarrow> 'a \<Rightarrow> 'a list \<Rightarrow> 'a list" where
  "insert_ordered R x [] = [x]"
| "insert_ordered R x (y # ys) =
     (if elem_less R x y then x # y # ys
      else if elem_less R y x then y # insert_ordered R x ys
      else y # ys)"

locale skip_list = readout_order R for R :: "'a readout_ops" +
  fixes K :: "('s, 'a, 'n) skip_list_ops" and skl_inv :: "'s \<Rightarrow> bool" and skl_elems :: "'s \<Rightarrow> 'a list"
    and skl_pos :: "'s \<Rightarrow> 'n \<Rightarrow> nat \<Rightarrow> bool"
  assumes less_irrefl: "\<not> elem_less R x x"
    and create_elems: "skl_inv (skl_create K n) \<and> skl_elems (skl_create K n) = []"
    and elems_sorted: "skl_inv s \<Longrightarrow> sorted_wrt (elem_less R) (skl_elems s)"
    and size_elems: "skl_inv s \<Longrightarrow> unat (skl_size K s) = length (skl_elems s)"
    and insert_elems: "skl_inv s \<Longrightarrow> length (skl_elems s) + 1 < 2 ^ 63 \<Longrightarrow>
      \<exists>s'. skl_insert K x s = ((\<forall>y \<in> set (skl_elems s). \<not> equivalent R x y), s') \<and> skl_inv s' \<and>
           skl_elems s' = insert_ordered R x (skl_elems s)"
    and remove_elems: "skl_inv s \<Longrightarrow>
      \<exists>s'. skl_remove K x s = ((\<exists>y \<in> set (skl_elems s). equivalent R x y), s') \<and> skl_inv s' \<and>
           skl_elems s' = filter (\<lambda>y. \<not> equivalent R x y) (skl_elems s)"
    and pop_back_elems: "skl_inv s \<Longrightarrow>
      \<exists>s'. skl_pop_back K s = (skl_elems s \<noteq> [], s') \<and> skl_inv s' \<and> skl_elems s' = butlast (skl_elems s)"
    and first_elems: "skl_inv s \<Longrightarrow> skl_first K s = (if skl_elems s = [] then None else Some (hd (skl_elems s)))"
    and last_elems: "skl_inv s \<Longrightarrow> skl_last K s = (if skl_elems s = [] then None else Some (last (skl_elems s)))"
    and pos_le_size: "skl_inv s \<Longrightarrow> skl_pos s i k \<Longrightarrow> k \<le> length (skl_elems s)"
    and pos_eq: "skl_inv s \<Longrightarrow> skl_pos s i k \<Longrightarrow> skl_pos s j l \<Longrightarrow> i = j \<longleftrightarrow> k = l"
    and begin_pos: "skl_inv s \<Longrightarrow> skl_pos s (skl_begin K s) 0"
    and end_pos: "skl_inv s \<Longrightarrow> skl_pos s (skl_end K s) (length (skl_elems s))"
    and lower_pos: "skl_inv s \<Longrightarrow>
      skl_pos s (skl_lower_bound K x s) (length (takeWhile (\<lambda>y. elem_less R y x) (skl_elems s)))"
    and skl_good_pos: "skl_inv s \<Longrightarrow> skl_pos s i k \<Longrightarrow> skl_good K s i \<longleftrightarrow> k < length (skl_elems s)"
    and skl_deref_pos: "skl_inv s \<Longrightarrow> skl_pos s i k \<Longrightarrow> k < length (skl_elems s) \<Longrightarrow>
      skl_deref K s i = Inr (skl_elems s ! k)"
    and skl_next_pos: "skl_inv s \<Longrightarrow> skl_pos s i k \<Longrightarrow> k < length (skl_elems s) \<Longrightarrow>
      skl_pos s (skl_next K s i) (k + 1)"

section \<open>The latency buffer\<close>

definition unconfigured_head_height :: nat where
  "unconfigured_head_height = 2"

definition new_skl :: "('s, 'a, 'n) skip_list_ops \<Rightarrow> 's" where
  "new_skl K = skl_create K unconfigured_head_height"

definition conf_skl :: "('s, 'a, 'n) skip_list_ops \<Rightarrow> 's \<Rightarrow> 's" where
  "conf_skl K s = skl_create K unconfigured_head_height"

definition scrap_skl :: "('s, 'a, 'n) skip_list_ops \<Rightarrow> 's \<Rightarrow> 's" where
  "scrap_skl K s = skl_create K unconfigured_head_height"

text \<open>The size goes through an \<open>int\<close>.\<close>

definition occupancy_skl :: "('s, 'a, 'n) skip_list_ops \<Rightarrow> 's \<Rightarrow> u64" where
  "occupancy_skl K s = scast (ucast (skl_size K s) :: u32)"

definition write_skl :: "('s, 'a, 'n) skip_list_ops \<Rightarrow> 'a \<Rightarrow> 's \<Rightarrow> bool \<times> 's" where
  "write_skl K x s = (case skl_insert K x s of (success, s') \<Rightarrow> (success, s'))"

definition put_skl :: "('s, 'a, 'n) skip_list_ops \<Rightarrow> 'a \<Rightarrow> 's \<Rightarrow> bool \<times> 's" where
  "put_skl K x s = (case skl_insert K x s of (success, s') \<Rightarrow> (success, s'))"

definition read_skl :: "('s, 'a, 'n) skip_list_ops \<Rightarrow> 's \<Rightarrow> fault + ('a option \<times> 's)" where
  "read_skl K s =
     (let lb_node = skl_begin K s
      in if lb_node = skl_end K s then Inr (None, s)
         else bindE (skl_deref K s lb_node) (\<lambda>x. Inr (Some x, s)))"

text \<open>The counter is unsigned, so this is the loop for less than \<open>2 ^ 32\<close> elements.\<close>

primrec pop_skl :: "('s, 'a, 'n) skip_list_ops \<Rightarrow> nat \<Rightarrow> 's \<Rightarrow> 's" where
  "pop_skl K 0 s = s"
| "pop_skl K (Suc n) s = pop_skl K n (snd (skl_pop_back K s))"

definition flush_skl :: "('s, 'a, 'n) skip_list_ops \<Rightarrow> 's \<Rightarrow> 's" where
  "flush_skl K s = pop_skl K (unat (occupancy_skl K s)) s"

definition lower_bound_skl :: "('s, 'a, 'n) skip_list_ops \<Rightarrow> 'a \<Rightarrow> bool \<Rightarrow> 's \<Rightarrow> 'n" where
  "lower_bound_skl K element with_errors s = skl_lower_bound K element s"

definition allocate_skl :: "nat \<Rightarrow> 's \<Rightarrow> 's" where
  "allocate_skl n s = s"

text \<open>What monitoring publishes.\<close>

definition opmon_skl :: "('s, 'a, 'n) skip_list_ops \<Rightarrow> 's \<Rightarrow> u64" where
  "opmon_skl K s = occupancy_skl K s"

definition SkipListLatencyBufferModel :: "('s, 'a, 'n) skip_list_ops \<Rightarrow> ('s, 'a, 'n) lb_ops" where
  "SkipListLatencyBufferModel K =
     \<lparr>lb_occupancy = occupancy_skl K, lb_write = (\<lambda>x s. Inr (write_skl K x s)), lb_read = read_skl K,
      lb_front = (\<lambda>s. Inr (skl_first K s)), lb_back = (\<lambda>s. Inr (skl_last K s)),
      lb_pop = (\<lambda>n s. Inr (pop_skl K n s)), lb_flush = (\<lambda>s. Inr (flush_skl K s)),
      lb_lower_bound = (\<lambda>x we s. Some (Inr (lower_bound_skl K x we s))),
      lb_begin = skl_begin K, lb_end = skl_end K,
      it_good = skl_good K, it_deref = skl_deref K, it_next = skl_next K\<rparr>"

section \<open>The request handler\<close>

definition m_max_ts_diff :: u64 where
  "m_max_ts_diff = 625000000"

text \<open>The loop of the cleanup: remove the oldest until the distance to the newest is small enough.\<close>

partial_function (option) skl_cleanup_loop ::
  "'a readout_ops \<Rightarrow> ('s, 'a, 'n) skip_list_ops \<Rightarrow> u64 \<Rightarrow> 'a \<Rightarrow> u64 \<Rightarrow> 's \<Rightarrow> (fault + (u64 \<times> 's)) option" where
  "skl_cleanup_loop R K tailts head removed_ctr s =
     (case skl_remove K head s of
        (removed, s') \<Rightarrow>
          let removed_ctr = (if removed then removed_ctr + 1 else removed_ctr)
          in case skl_first K s' of
               None \<Rightarrow> Some (Inl NullDeref)
             | Some head' \<Rightarrow>
                 if tailts - get_timestamp R head' \<ge> m_max_ts_diff
                 then skl_cleanup_loop R K tailts head' removed_ctr s'
                 else Some (Inr (removed_ctr, s')))"

definition skip_list_cleanup_request ::
  "'a readout_ops \<Rightarrow> ('s, 'a, 'n) skip_list_ops \<Rightarrow> 's \<times> 'f request_handler \<Rightarrow>
   (fault + ('s \<times> 'f request_handler)) option" where
  "skip_list_cleanup_request R K = (\<lambda>(s, h).
     case (case (skl_last K s, skl_first K s) of
             (Some tail, Some head) \<Rightarrow>
               let tailts = get_timestamp R tail; headts = get_timestamp R head
               in if tailts - headts > m_max_ts_diff
                  then let h = h\<lparr>pop_reqs := pop_reqs h + 1\<rparr>
                       in case skl_cleanup_loop R K tailts head 0 s of
                            None \<Rightarrow> None
                          | Some (Inl f) \<Rightarrow> Some (Inl f)
                          | Some (Inr (removed_ctr, s)) \<Rightarrow>
                              Some (Inr (s, h\<lparr>pops_count := pops_count h + ucast removed_ctr\<rparr>))
                  else Some (Inr (s, h))
           | _ \<Rightarrow> Some (Inr (s, h))) of
       None \<Rightarrow> None
     | Some (Inl f) \<Rightarrow> Some (Inl f)
     | Some (Inr (s, h)) \<Rightarrow> Some (Inr (s, h\<lparr>num_buffer_cleanups := num_buffer_cleanups h + 1\<rparr>)))"

text \<open>The inherited check with the overriding cleanup.\<close>

definition skl_cleanup_check ::
  "'a readout_ops \<Rightarrow> ('s, 'a, 'n) skip_list_ops \<Rightarrow> 's \<times> 'f request_handler \<Rightarrow>
   (fault + ('s \<times> 'f request_handler)) option" where
  "skl_cleanup_check R K = (\<lambda>(s, h).
     if occupancy_skl K s > ucast (pop_limit_size h) \<and> \<not> cleanup_requested h
     then case skip_list_cleanup_request R K (s, h\<lparr>cleanup_requested := True\<rparr>) of
            None \<Rightarrow> None
          | Some (Inl f) \<Rightarrow> Some (Inl f)
          | Some (Inr (s, h)) \<Rightarrow> Some (Inr (s, h\<lparr>cleanup_requested := False\<rparr>))
     else Some (Inr (s, h)))"

end
