(* ===== verification/Skip_List_Contract.thy ===== *)
theory Skip_List_Contract
  imports Skip_List
begin

text \<open>
  What the skip list buffer and its request handler promise: writing keeps the elements ordered
  and unique, the contract of a latency buffer holds, a cleanup removes exactly the elements that
  are too old, and a data request is answered with the frames of its window, also when the window
  begins before the oldest element. Two operations differ from what the interface says: \<open>pop\<close>
  removes the newest elements and \<open>read\<close> removes nothing.
\<close>

section \<open>The latency buffer contract\<close>

text \<open>The number of elements is kept in an \<open>int\<close>.\<close>

definition countable_elems :: "('s \<Rightarrow> bool) \<Rightarrow> ('s \<Rightarrow> 'a list) \<Rightarrow> 's \<Rightarrow> bool" where
  "countable_elems skl_inv skl_elems s \<longleftrightarrow> skl_inv s \<and> length (skl_elems s) < 2 ^ 31"

lemma countable_elemsD: "countable_elems skl_inv skl_elems s \<Longrightarrow> skl_inv s \<and> length (skl_elems s) < 2 ^ 31"
  by (simp add: countable_elems_def)

lemma scast_ucast_small: "unat (w::u64) < 2 ^ 31 \<Longrightarrow> unat (scast (ucast w :: u32) :: u64) = unat w"
proof -
  assume w: "unat w < 2 ^ 31"
  then have u: "unat (ucast w :: u32) = unat w" by (simp add: unat_ucast_u32)
  then have "sint (ucast w :: u32) = int (unat w)" using sint_small [of "ucast w"] w by simp
  then have "scast (ucast w :: u32) = (word_of_int (int (unat w)) :: u64)" by (simp add: scast_eq)
  then show ?thesis by simp
qed

context skip_list
begin

lemma occupancy_size:
  "countable_elems skl_inv skl_elems s \<Longrightarrow> unat (occupancy_skl K s) = length (skl_elems s)"
  using size_elems [of s] by (auto simp: occupancy_skl_def countable_elems_def scast_ucast_small)

lemma pop_skl_elems:
  "skl_inv s \<Longrightarrow> skl_inv (pop_skl K n s) \<and> skl_elems (pop_skl K n s) = take (length (skl_elems s) - n) (skl_elems s)"
proof (induction n arbitrary: s)
  case (Suc n)
  obtain s' where "skl_pop_back K s = (skl_elems s \<noteq> [], s')" "skl_inv s'" "skl_elems s' = butlast (skl_elems s)"
    using pop_back_elems [OF Suc.prems] by blast
  then show ?case
    using Suc.IH [of s'] by (auto simp: butlast_conv_take min_def)
qed simp

end

sublocale skip_list \<subseteq> lb: latency_buffer "SkipListLatencyBufferModel K" "countable_elems skl_inv skl_elems" skl_elems skl_pos
proof (unfold_locales, goal_cases)
  case (1 b)
  then show ?case using occupancy_size by (simp add: SkipListLatencyBufferModel_def)
next
  case (2 b)
  then show ?case by (auto simp: SkipListLatencyBufferModel_def first_elems dest: countable_elemsD)
next
  case (3 b)
  then show ?case by (auto simp: SkipListLatencyBufferModel_def last_elems dest: countable_elemsD)
next
  case (4 b i k)
  then show ?case by (auto dest: countable_elemsD pos_le_size)
next
  case (5 b i k)
  then show ?case by (auto simp: SkipListLatencyBufferModel_def dest: countable_elemsD skl_good_pos)
next
  case (6 b i k)
  then show ?case by (auto simp: SkipListLatencyBufferModel_def dest: countable_elemsD skl_deref_pos)
next
  case (7 b i k)
  then show ?case using skl_next_pos [of b i k] by (auto simp: SkipListLatencyBufferModel_def dest: countable_elemsD)
qed

section \<open>An ordered list as a skip list\<close>

definition list_skl :: "'a readout_ops \<Rightarrow> ('a list, 'a, nat) skip_list_ops" where
  "list_skl R =
     \<lparr>skl_create = (\<lambda>_. []), skl_size = (\<lambda>xs. of_nat (length xs)),
      skl_insert = (\<lambda>x xs. (\<forall>y \<in> set xs. \<not> equivalent R x y, insert_ordered R x xs)),
      skl_remove = (\<lambda>x xs. (\<exists>y \<in> set xs. equivalent R x y, filter (\<lambda>y. \<not> equivalent R x y) xs)),
      skl_pop_back = (\<lambda>xs. (xs \<noteq> [], butlast xs)),
      skl_first = (\<lambda>xs. if xs = [] then None else Some (hd xs)),
      skl_last = (\<lambda>xs. if xs = [] then None else Some (last xs)),
      skl_begin = (\<lambda>_. 0), skl_end = length,
      skl_lower_bound = (\<lambda>x xs. length (takeWhile (\<lambda>y. elem_less R y x) xs)),
      skl_good = (\<lambda>xs i. i < length xs),
      skl_deref = (\<lambda>xs i. if i < length xs then Inr (xs ! i) else Inl InvalidAccess),
      skl_next = (\<lambda>_ i. i + 1)\<rparr>"

definition list_skl_inv :: "'a readout_ops \<Rightarrow> 'a list \<Rightarrow> bool" where
  "list_skl_inv R xs \<longleftrightarrow> sorted_wrt (elem_less R) xs \<and> length xs < 2 ^ 63"

definition list_skl_pos :: "'a list \<Rightarrow> nat \<Rightarrow> nat \<Rightarrow> bool" where
  "list_skl_pos xs i k \<longleftrightarrow> i = k \<and> k \<le> length xs"

lemma set_insert_ordered: "set (insert_ordered R x xs) \<subseteq> insert x (set xs)"
  by (induction xs) auto

lemma length_insert_ordered: "length (insert_ordered R x xs) \<le> length xs + 1"
  by (induction xs) auto

lemma sorted_insert_ordered:
  assumes trans: "\<And>x y z. elem_less R x y \<Longrightarrow> elem_less R y z \<Longrightarrow> elem_less R x z"
  shows "sorted_wrt (elem_less R) xs \<Longrightarrow> sorted_wrt (elem_less R) (insert_ordered R x xs)"
proof (induction xs)
  case (Cons y ys)
  have sub: "z \<in> set (insert_ordered R x ys) \<Longrightarrow> z = x \<or> z \<in> set ys" for z
    using set_insert_ordered [of R x ys] by blast
  have "elem_less R x z" if "elem_less R x y" "z \<in> set ys" for z
    using trans [OF that(1)] Cons.prems that(2) by simp
  then show ?case using Cons sub by fastforce
qed simp

lemma list_skl_provides:
  assumes "readout_order R" and irrefl: "\<And>x. \<not> elem_less R x x"
    and trans: "\<And>x y z. elem_less R x y \<Longrightarrow> elem_less R y z \<Longrightarrow> elem_less R x z"
  shows "skip_list R (list_skl R) (list_skl_inv R) (\<lambda>xs. xs) list_skl_pos"
proof (intro skip_list.intro [OF assms(1)] skip_list_axioms.intro, goal_cases)
  case 1 then show ?case by (rule irrefl)
next
  case (5 s x)
  have "sorted_wrt (elem_less R) (insert_ordered R x s)"
    using 5(1) sorted_insert_ordered [of R s x, OF trans] by (simp add: list_skl_inv_def)
  then show ?case using 5 length_insert_ordered [of R x s] by (simp add: list_skl_def list_skl_inv_def)
next
  case (6 s x)
  then show ?case
    using le_less_trans [OF length_filter_le]
    by (auto simp: list_skl_def list_skl_inv_def sorted_wrt_filter)
next
  case (7 s)
  then show ?case
    by (auto simp: list_skl_def list_skl_inv_def butlast_conv_take sorted_wrt_take)
next
  case (12 s)
  then show ?case by (simp add: list_skl_def list_skl_pos_def)
next
  case (13 s)
  then show ?case by (simp add: list_skl_def list_skl_pos_def)
next
  case (14 s x)
  then show ?case by (simp add: list_skl_def list_skl_pos_def length_takeWhile_le)
qed (auto simp: list_skl_def list_skl_inv_def list_skl_pos_def unat_of_nat_u64)

interpretation dummy_skl: skip_list "dummy_ops tick" "list_skl (dummy_ops tick)" "list_skl_inv (dummy_ops tick)"
    "\<lambda>xs. xs" list_skl_pos
  by (rule list_skl_provides [OF dummy.readout_order_axioms]) (auto simp: dummy_less_def)

section \<open>Operations\<close>

context skip_list
begin

lemma write_elems:
  "skl_inv s \<Longrightarrow> length (skl_elems s) + 1 < 2 ^ 63 \<Longrightarrow>
   \<exists>s'. write_skl K x s = ((\<forall>y \<in> set (skl_elems s). \<not> equivalent R x y), s') \<and> skl_inv s' \<and>
        skl_elems s' = insert_ordered R x (skl_elems s)"
  using insert_elems [of s x] by (auto simp: write_skl_def)

lemma read_elems:
  assumes "skl_inv s"
  shows "read_skl K s = Inr (if skl_elems s = [] then None else Some (hd (skl_elems s)), s)"
proof (cases "skl_elems s = []")
  case True
  then have "skl_begin K s = skl_end K s" using pos_eq [OF assms begin_pos [OF assms] end_pos [OF assms]] by simp
  then show ?thesis using True by (simp add: read_skl_def)
next
  case False
  then have "skl_begin K s \<noteq> skl_end K s" using pos_eq [OF assms begin_pos [OF assms] end_pos [OF assms]] by simp
  then show ?thesis
    using False skl_deref_pos [OF assms begin_pos [OF assms]] by (simp add: read_skl_def Let_def hd_conv_nth)
qed

lemma flush_elems:
  "countable_elems skl_inv skl_elems s \<Longrightarrow> skl_inv (flush_skl K s) \<and> skl_elems (flush_skl K s) = []"
  using pop_skl_elems [of s] occupancy_size [of s] by (auto simp: flush_skl_def dest: countable_elemsD)

lemma ts_nondecreasing:
  "skl_inv s \<Longrightarrow> sorted_wrt (\<lambda>x y. get_timestamp R x \<le> get_timestamp R y) (skl_elems s)"
  using elems_sorted [of s] less_imp_ts by (auto elim: sorted_wrt_mono_rel [rotated])

lemma remove_oldest:
  assumes "skl_inv s" and "skl_elems s = x # xs"
  shows "\<exists>s'. skl_remove K x s = (True, s') \<and> skl_inv s' \<and> skl_elems s' = xs"
proof -
  have "elem_less R x y" if "y \<in> set xs" for y using elems_sorted [OF assms(1)] assms(2) that by simp
  then have "filter (\<lambda>y. \<not> equivalent R x y) xs = xs" by (simp add: equivalent_def filter_id_conv)
  moreover have "equivalent R x x" by (simp add: equivalent_def less_irrefl)
  ultimately show ?thesis using remove_elems [OF assms(1), of x] assms(2) by auto
qed

end

text \<open>
  C21. Every operation of the skip list buffer that changes it, for less than \<open>2 ^ 31\<close> elements: a
  write inserts the element at its place unless an equivalent one is stored, which it reports by
  \<open>false\<close>; \<open>flush\<close> empties the buffer; \<open>read\<close> answers the oldest element and leaves it in the
  buffer; and \<open>pop\<close>, which the interface uses to remove the oldest elements, removes the newest.
\<close>

theorem skip_list_operations:
  assumes sl: "skip_list R K skl_inv skl_elems skl_pos" and inv: "skl_inv s" "length (skl_elems s) + 1 < 2 ^ 31"
  shows "(\<exists>s'. write_skl K x s = ((\<forall>y \<in> set (skl_elems s). \<not> equivalent R x y), s') \<and> skl_inv s' \<and>
               skl_elems s' = insert_ordered R x (skl_elems s)) \<and>
         read_skl K s = Inr (if skl_elems s = [] then None else Some (hd (skl_elems s)), s) \<and>
         skl_inv (pop_skl K n s) \<and> skl_elems (pop_skl K n s) = take (length (skl_elems s) - n) (skl_elems s) \<and>
         skl_inv (flush_skl K s) \<and> skl_elems (flush_skl K s) = []"
  using skip_list.write_elems [OF sl inv(1), of x] skip_list.read_elems [OF sl inv(1)]
    skip_list.pop_skl_elems [OF sl inv(1), of n] skip_list.flush_elems [OF sl, of s] inv(2)
  by (simp add: countable_elems_def inv(1))

definition frames_list :: "dummy_frame list" where
  "frames_list = map frame_at [100, 116, 132, 148]"

lemma frames_list_inv: "list_skl_inv (dummy_ops tick) frames_list"
  by (simp add: frames_list_def list_skl_inv_def dummy_less_def)

theorem skip_list_operations_witness:
  "snd (write_skl (list_skl (dummy_ops 16)) (frame_at 120) frames_list) = map frame_at [100, 116, 120, 132, 148] \<and>
   pop_skl (list_skl (dummy_ops 16)) 2 frames_list = map frame_at [100, 116]"
  using skip_list_operations [OF dummy_skl.skip_list_axioms frames_list_inv, where x = "frame_at 120" and n = 2]
  by (auto simp: frames_list_def dummy_less_def)

section \<open>Cleanup\<close>

lemma ucast_of_nat_u64: "(ucast (of_nat n :: u64) :: u32) = of_nat n"
  by (simp add: word_unat_eq_iff unsigned_ucast_eq unsigned_of_nat)

text \<open>Too old: at least ten seconds (of 62.5 MHz ticks) before the newest element.\<close>

definition too_old :: "'a readout_ops \<Rightarrow> 'a list \<Rightarrow> 'a \<Rightarrow> bool" where
  "too_old R xs x \<longleftrightarrow> get_timestamp R (last xs) - get_timestamp R x \<ge> m_max_ts_diff"

lemma newest_not_too_old: "xs \<noteq> [] \<Longrightarrow> \<not> too_old R xs (last xs)"
  by (simp add: too_old_def m_max_ts_diff_def)

lemma dropWhile_too_old_ne: "xs \<noteq> [] \<Longrightarrow> last xs = last ys \<Longrightarrow> dropWhile (too_old R ys) xs \<noteq> []"
  using newest_not_too_old [of xs R] last_in_set [of xs]
  by (auto simp: dropWhile_eq_Nil_conv too_old_def intro!: bexI [of _ "last ys"])

context skip_list
begin

lemma skl_cleanup_loop_spec:
  "skl_inv s \<Longrightarrow> skl_elems s = x # xs \<Longrightarrow> xs \<noteq> [] \<Longrightarrow> last xs = last ys \<Longrightarrow>
   \<exists>s'. skl_cleanup_loop R K (get_timestamp R (last ys)) x c s =
          Some (Inr (c + 1 + of_nat (length (takeWhile (too_old R ys) xs)), s')) \<and>
        skl_inv s' \<and> skl_elems s' = dropWhile (too_old R ys) xs"
proof (induction xs arbitrary: x c s)
  case (Cons x' xs)
  obtain s1 where s1: "skl_remove K x s = (True, s1)" "skl_inv s1" "skl_elems s1 = x' # xs"
    using remove_oldest [OF Cons.prems(1,2)] by blast
  have f: "skl_first K s1 = Some x'" using first_elems [OF s1(2)] s1(3) by simp
  have cond: "m_max_ts_diff \<le> get_timestamp R (last ys) - get_timestamp R y \<longleftrightarrow> too_old R ys y" for y
    by (simp add: too_old_def)
  show ?case
  proof (cases "too_old R ys x'")
    case True
    then have "xs \<noteq> []" using Cons.prems(4) newest_not_too_old [of ys R] by (auto simp: too_old_def m_max_ts_diff_def)
    from Cons.IH [OF s1(2,3) this, of "c + 1"] show ?thesis
      using s1(1) f True Cons.prems(4) \<open>xs \<noteq> []\<close>
      by (subst skl_cleanup_loop.simps) (auto simp: cond)
  next
    case False
    then show ?thesis
      using s1 f by (subst skl_cleanup_loop.simps) (auto simp: cond)
  qed
qed simp

end

text \<open>
  C31. The cleanup of the skip list handler returns and removes exactly the elements that are too
  old when the oldest is more than ten seconds older than the newest, and nothing otherwise: the
  newest element always stays, every removed element is too old, and the removed elements are
  counted. It does not look at the next timestamp to record and leaves the error registry alone.
\<close>

theorem skip_list_cleanup_removes_too_old:
  fixes h :: "'f request_handler"
  assumes sl: "skip_list R K skl_inv skl_elems skl_pos" and inv: "skl_inv s" and ne: "skl_elems s \<noteq> []"
  defines "xs \<equiv> skl_elems s"
  defines "over \<equiv> get_timestamp R (last xs) - get_timestamp R (hd xs) > m_max_ts_diff"
  defines "k \<equiv> (if over then length (takeWhile (too_old R xs) xs) else 0)"
  shows "\<exists>s'. skip_list_cleanup_request R K (s, h) =
           Some (Inr (s', h\<lparr>pop_reqs := pop_reqs h + (if over then 1 else 0), pops_count := pops_count h + of_nat k,
                             num_buffer_cleanups := num_buffer_cleanups h + 1\<rparr>)) \<and>
         skl_inv s' \<and> skl_elems s' = drop k xs \<and> skl_elems s' \<noteq> [] \<and> (\<forall>x \<in> set (take k xs). too_old R xs x)"
proof -
  have fl: "skl_first K s = Some (hd xs)" "skl_last K s = Some (last xs)"
    using skip_list.first_elems [OF sl inv] skip_list.last_elems [OF sl inv] ne by (simp_all add: xs_def)
  have ne': "xs \<noteq> []" using ne by (simp add: xs_def)
  show ?thesis
  proof (cases over)
    case True
    obtain x ys where ys: "xs = x # ys" using ne' by (cases xs) auto
    have old: "too_old R xs x" using True by (simp add: over_def too_old_def ys)
    then have ys_ne: "ys \<noteq> []" using newest_not_too_old [OF ne', of R] ys by (cases ys) auto
    then have "last ys = last xs" by (simp add: ys)
    then obtain s' where s': "skl_cleanup_loop R K (get_timestamp R (last xs)) x 0 s =
          Some (Inr (0 + 1 + of_nat (length (takeWhile (too_old R xs) ys)), s'))"
        "skl_inv s'" "skl_elems s' = dropWhile (too_old R xs) ys"
      using skip_list.skl_cleanup_loop_spec [OF sl inv _ ys_ne, of x xs 0] ys by (auto simp: xs_def)
    have k: "k = Suc (length (takeWhile (too_old R xs) ys))" using True old by (simp add: k_def ys)
    have "skl_elems s' = drop k xs" using s'(3) k by (simp add: ys dropWhile_eq_drop)
    moreover have "skl_elems s' \<noteq> []"
      using s'(3) dropWhile_too_old_ne [OF ys_ne \<open>last ys = last xs\<close>, of R] by simp
    moreover have "\<forall>x \<in> set (take k xs). too_old R xs x"
      using k old by (auto simp: ys takeWhile_eq_take [symmetric] dest: set_takeWhileD)
    moreover have "(ucast (1 + of_nat (length (takeWhile (too_old R xs) ys)) :: u64) :: u32) = of_nat k"
      using ucast_of_nat_u64 [of "Suc (length (takeWhile (too_old R xs) ys))"] by (simp add: k)
    ultimately show ?thesis
      using s'(1,2) fl True
      by (intro exI [of _ s']) (simp add: skip_list_cleanup_request_def over_def ys)
  next
    case False
    then show ?thesis
      using fl inv ne' by (auto simp: skip_list_cleanup_request_def over_def k_def Let_def simp flip: xs_def)
  qed
qed

theorem skip_list_cleanup_removes_too_old_witness:
  "\<exists>s' h'. skip_list_cleanup_request (dummy_ops 16) (list_skl (dummy_ops 16))
             (map frame_at [100, 116, 700000000], sample_handler) = Some (Inr (s', h')) \<and>
           s' = [frame_at 700000000] \<and> pops_count h' = 2"
proof -
  have "list_skl_inv (dummy_ops 16) (map frame_at [100, 116, 700000000])"
    by (simp add: list_skl_inv_def dummy_less_def)
  from skip_list_cleanup_removes_too_old [OF dummy_skl.skip_list_axioms this, where h = sample_handler]
  show ?thesis
    by (auto simp: m_max_ts_diff_def too_old_def sample_handler_def new_request_handler_def)
qed

section \<open>Answering a request\<close>

definition skl_coverage_code :: "'a readout_ops \<Rightarrow> u64 \<Rightarrow> u64 \<Rightarrow> 'a list \<Rightarrow> ResultCode" where
  "skl_coverage_code R s e xs =
     (if get_timestamp R (last xs) < s then kNotYet
      else if e < get_timestamp R (hd xs) then kTooOld
      else if get_timestamp R (last xs) < e then kPartial
      else if s < get_timestamp R (hd xs) then kPartiallyOld
      else kFound)"

lemma takeWhile_nondecreasing_filter:
  "sorted_wrt (\<lambda>x y. get_timestamp R x \<le> get_timestamp R y) xs \<Longrightarrow>
   takeWhile (\<lambda>x. get_timestamp R x < e) xs = filter (\<lambda>x. get_timestamp R x < e) xs"
proof (induction xs)
  case (Cons x xs)
  then have "filter (\<lambda>x. get_timestamp R x < e) xs = []" if "\<not> get_timestamp R x < e"
    using that by (fastforce simp: filter_empty_conv)
  then show ?case using Cons by auto
qed simp

context skip_list
begin

lemma skl_request_element_ts: "get_timestamp R (request_element R s) = s - default_span R"
  by (simp add: request_element_def default_span_def get_set_timestamp Let_def)

lemma skl_fragment_pieces:
  assumes inv: "countable_elems skl_inv skl_elems b" and ne: "skl_elems b \<noteq> []"
    and uni: "uniform_span R (skl_elems b)" and w: "default_span R \<le> s" "0 < default_span R"
  shows "get_fragment_pieces R (SkipListLatencyBufferModel K) reg b s e rc =
         Some (Inr (skl_coverage_code R s e (skl_elems b),
                    if skl_coverage_code R s e (skl_elems b) \<in> {kFound, kPartial, kPartiallyOld}
                    then window_pieces R s e (skl_elems b) else []))"
proof -
  let ?xs = "skl_elems b" and ?el = "request_element R s" and ?L = "SkipListLatencyBufferModel K"
  let ?k = "length (takeWhile (\<lambda>y. elem_less R y ?el) ?xs)" and ?i = "skl_lower_bound K ?el b"
  have si: "skl_inv b" using inv by (simp add: countable_elems_def)
  have lt: "s - default_span R < s" using w by (auto simp: word_less_nat_alt word_le_nat_alt unat_sub)
  have pos: "skl_pos b ?i ?k" by (rule lower_pos [OF si])
  have before: "get_timestamp R y \<le> s - default_span R" if "y \<in> set (take ?k ?xs)" for y
    using that less_imp_ts [of y ?el] skl_request_element_ts
    by (auto simp: takeWhile_eq_take [symmetric] dest: set_takeWhileD)
  have "element_end R y \<le> s" if "y \<in> set (take ?k ?xs)" for y
    using before [OF that] unat_element_end [OF uni in_set_takeD [OF that]] w
    by (simp add: word_le_nat_alt unat_sub)
  then have "window_pieces R s e (take ?k ?xs) = []" by (intro window_pieces_before) simp
  then have "window_pieces R s e (drop ?k ?xs) = window_pieces R s e ?xs"
    using window_pieces_append [of R s e "take ?k ?xs" "drop ?k ?xs"] by simp
  then have g: "gather_pieces R ?L b s e ?i [] = Some (Inr (window_pieces R s e ?xs))"
    using lb.gather_pieces_takeWhile [OF inv pos, of R s e "[]"]
      takeWhile_nondecreasing_filter [OF sorted_wrt_drop [OF ts_nondecreasing [OF si]]]
    by (simp add: window_pieces_filter_begin)
  have good: "skl_good K b ?i" if "s \<le> get_timestamp R (last ?xs)"
  proof -
    have "\<not> elem_less R (last ?xs) ?el"
      using less_imp_ts [of "last ?xs" ?el] skl_request_element_ts that lt by auto
    then have "takeWhile (\<lambda>y. elem_less R y ?el) ?xs \<noteq> ?xs" using ne by (auto simp: takeWhile_eq_all_conv)
    then have "?k \<noteq> length ?xs" by (metis takeWhile_eq_take order_refl take_all)
    then show ?thesis using skl_good_pos [OF si pos] length_takeWhile_le le_neq_implies_less by blast
  qed
  show ?thesis
    using lb.timestamps_of_ends [OF inv ne, of R] g good
    by (auto simp: get_fragment_pieces_def skl_coverage_code_def Let_def not_less SkipListLatencyBufferModel_def
        lower_bound_skl_def)
qed

end

text \<open>
  On the skip list buffer a data request is answered completely for every window that begins
  after the first element span of the time axis, also when it begins before the oldest element:
  the pieces cover exactly the frames stored in the buffer that overlap the window, and the code
  says whether the buffer lacks the end of the window (\<open>kPartial\<close>) or its beginning
  (\<open>kPartiallyOld\<close>). A \<open>kPartiallyOld\<close> fragment is marked both incomplete and without data,
  although it holds the data found.
\<close>

theorem skip_list_request_returns_window:
  fixes dr :: DataRequest
  assumes sl: "skip_list R K skl_inv skl_elems skl_pos" and inv: "skl_inv b" "length (skl_elems b) < 2 ^ 31"
    and ne: "skl_elems b \<noteq> []" and uni: "uniform_span R (skl_elems b)"
    and reg: "\<forall>x \<in> set (skl_elems b). regular_frames R x"
    and w: "default_span R \<le> window_begin dr" "0 < default_span R"
  defines "rc \<equiv> skl_coverage_code R (window_begin dr) (window_end dr) (skl_elems b)"
  shows "\<exists>pieces. data_request R (SkipListLatencyBufferModel K) D dr b h =
           Some (Inr (finish_fragment D dr rc (mark_result D rc (create_fragment_header D h dr)) pieces,
                      count_result rc h)) \<and>
         pieces = (if rc \<in> {kFound, kPartial, kPartiallyOld}
                   then window_pieces R (window_begin dr) (window_end dr) (skl_elems b) else []) \<and>
         (\<Union>p \<in> set pieces. piece_frames R p) =
           (if rc \<in> {kFound, kPartial, kPartiallyOld}
            then frames_in_window R (window_begin dr) (window_end dr) (skl_elems b) else {})"
proof -
  have ci: "countable_elems skl_inv skl_elems b" using inv by (simp add: countable_elems_def)
  have "unat (lb_occupancy (SkipListLatencyBufferModel K) b) \<noteq> 0"
    using skip_list.occupancy_size [OF sl ci] ne by (simp add: SkipListLatencyBufferModel_def)
  then have occ: "lb_occupancy (SkipListLatencyBufferModel K) b \<noteq> 0" by auto
  have "expected_tick_difference R \<le> window_begin dr"
    using tick_le_begin [OF _ uni, of "hd (skl_elems b)"] reg w ne by simp
  then show ?thesis
    using skip_list.skl_fragment_pieces [OF sl ci ne uni w, of "error_registry h" "window_end dr" kUnknown] occ
      window_pieces_frames [OF reg, of "window_begin dr" "window_end dr"]
    unfolding rc_def by (simp add: data_request_def Let_def)
qed

theorem skip_list_request_returns_window_witness:
  "\<exists>r h. data_request (dummy_ops 16) (SkipListLatencyBufferModel (list_skl (dummy_ops 16))) plain_daq
           (sample_request 90 120) frames_list sample_handler = Some (Inr (r, h)) \<and>
         result_code r = kPartiallyOld \<and>
         map fst (snd (fragment r)) = [ElementBegin (frame_at 100), ElementBegin (frame_at 116)]"
proof -
  have u: "uniform_span (dummy_ops 16) frames_list" "\<forall>x \<in> set frames_list. regular_frames (dummy_ops 16) x"
    by (simp_all add: frames_list_def uniform_span_def regular_frames_def)
  have c: "skl_coverage_code (dummy_ops 16) 90 120 frames_list = kPartiallyOld"
    by (simp add: skl_coverage_code_def frames_list_def)
  have p: "map fst (window_pieces (dummy_ops 16) 90 120 frames_list) = [ElementBegin (frame_at 100), ElementBegin (frame_at 116)]"
    by (simp add: window_pieces_def frames_list_def element_end_def element_pieces_def)
  have ne: "frames_list \<noteq> []" "length frames_list < 2 ^ 31" by (simp_all add: frames_list_def)
  show ?thesis
    using skip_list_request_returns_window [OF dummy_skl.skip_list_axioms frames_list_inv ne(2,1) u,
        of "sample_request 90 120" plain_daq sample_handler] c p
    by (auto simp: finish_fragment_def plain_daq_def)
qed

end
