(* ===== verification/Empty_Fragments.thy ===== *)
theory Empty_Fragments
  imports Request_Contract
begin

text \<open>
  The request handler that never looks at the data (models/EmptyFragmentRequestHandlerModel.hpp and
  its detail file): it overrides \<open>issue_request\<close> and is otherwise the default handler.
\<close>

definition issue_request_empty ::
  "('a, 'f) daq_env \<Rightarrow> DataRequest \<Rightarrow> bool \<Rightarrow> 'f request_handler \<Rightarrow> 'f request_handler" where
  "issue_request_empty D datarequest is_retry h =
     (let frag_header = create_fragment_header D h datarequest;
          frag_header = set_error_bit (kDataNotFound D) frag_header;
          fragment = make_fragment D [];
          fragment = set_header_fields D frag_header fragment
      in if send_ok D (data_destination datarequest) fragment
         then emit (FragmentSent (data_destination datarequest) fragment) h
         else emit (CannotWriteToQueue (data_destination datarequest)) h)"

text \<open>What the default handler sends for a request on an empty buffer.\<close>

definition empty_answer :: "('a, 'f) daq_env \<Rightarrow> 'f request_handler \<Rightarrow> DataRequest \<Rightarrow> 'f rh_event" where
  "empty_answer D h dr =
     (if send_ok D (data_destination dr) (create_empty_fragment D h dr)
      then FragmentSent (data_destination dr) (create_empty_fragment D h dr)
      else CannotWriteToQueue (data_destination dr))"

lemma emit_sel [simp]:
  "events (emit ev h) = events h @ [ev]" "detid (emit ev h) = detid h" "sourceid (emit ev h) = sourceid h"
  by (simp_all add: emit_def)

lemma issue_request_empty_emit: "issue_request_empty D dr retry h = emit (empty_answer D h dr) h"
  by (simp add: issue_request_empty_def empty_answer_def create_empty_fragment_def Let_def)

lemma empty_answer_cong: "detid h = detid h' \<Longrightarrow> sourceid h = sourceid h' \<Longrightarrow> empty_answer D h dr = empty_answer D h' dr"
  by (simp add: empty_answer_def create_empty_fragment_def create_fragment_header_def)

lemma empty_answer_emit [simp]: "empty_answer D (emit ev h) dr = empty_answer D h dr"
  by (rule empty_answer_cong) simp_all

lemma fold_issue_request_empty:
  "fold (\<lambda>(dr, retry). issue_request_empty D dr retry) rs h =
     h\<lparr>events := events h @ map (\<lambda>(dr, retry). empty_answer D h dr) rs\<rparr>"
proof (induction rs arbitrary: h)
  case (Cons r rs)
  then show ?case by (cases r) (simp add: issue_request_empty_emit, simp add: emit_def)
qed simp

text \<open>
  C35. The handler that sends empty fragments answers every request at once, in the order of the
  requests and once each, with the fragment that the default handler would send if its buffer
  were empty; nothing else of its state changes, so no request is ever kept, counted or timed.
\<close>

theorem empty_handler_answers_all:
  assumes "lb_occupancy L b = 0"
  shows "fold (\<lambda>(dr, retry). issue_request_empty D dr retry) rs h =
           h\<lparr>events := events h @ map (\<lambda>(dr, retry). empty_answer D h dr) rs\<rparr> \<and>
         (\<exists>h'. request_task R L D now took dr retry b h = Some (Inr h') \<and>
               events h' = events h @ (if warn_about_empty_buffer h then [RequestOnEmptyBuffer] else []) @
                           [empty_answer D h dr])"
  using assms
  by (auto simp: fold_issue_request_empty request_task_def data_request_def respond_def account_response_def
      emit_def empty_answer_def create_empty_fragment_def finish_fragment_def Let_def create_fragment_header_def)

theorem empty_handler_answers_all_witness:
  "events (fold (\<lambda>(dr, retry). issue_request_empty plain_daq dr retry)
             [(sample_request 10 20, False), (sample_request 30 40, True)] sample_handler) =
   [empty_answer plain_daq sample_handler (sample_request 10 20),
    empty_answer plain_daq sample_handler (sample_request 30 40)] \<and>
   (\<exists>h'. request_task (dummy_ops 16) (queue_lb_ops (bs_lower_bound (dummy_ops 16))) plain_daq 0 0
           (sample_request 10 20) False (default_queue plain_env) sample_handler = Some (Inr h') \<and>
         last (events h') = empty_answer plain_daq sample_handler (sample_request 10 20))"
proof -
  have "lb_occupancy (queue_lb_ops (bs_lower_bound (dummy_ops 16))) (default_queue plain_env :: dummy_frame iterable_queue) = 0"
    by (simp add: queue_lb_ops_def occupancy_q_def default_queue_def)
  from empty_handler_answers_all [OF this, where h = sample_handler and D = plain_daq and
      rs = "[(sample_request 10 20, False), (sample_request 30 40, True)]" and R = "dummy_ops 16" and now = 0
      and took = 0 and dr = "sample_request 10 20" and retry = False]
  show ?thesis by (auto simp: sample_handler_def new_request_handler_def)
qed

end
