(* ===== verification/Recorder.thy ===== *)
theory Recorder
  imports Buffered_Files
begin

text \<open>
  The recorder (models/RecorderModel.hpp and its detail file), which writes every element it receives
  to a file, and the subscriber (models/DataSubscriberModel.hpp), which passes every payload on.
  An element is its bytes. What the receiver delivers is an argument: one entry per call, \<open>None\<close>
  for a timeout.
\<close>

section \<open>Recorder\<close>

datatype recorder_event = RecorderCannotWrite string

record recorder =
  rec_has_receiver :: bool
  rec_output_file :: string
  rec_stream_buffer_size :: u64
  rec_compression_algorithm :: string
  rec_use_o_direct :: bool
  rec_buffered_writer :: file_writer
  rec_disk :: files
  rec_run_marker :: bool
  rec_bytes_processed :: atomic_int
  rec_packets_processed :: atomic_int
  rec_events :: "recorder_event list"

definition new_recorder :: "files \<Rightarrow> bool \<Rightarrow> bool \<Rightarrow> recorder" where
  "new_recorder fs unset_marker unset_direct =
     \<lparr>rec_has_receiver = False, rec_output_file = '''', rec_stream_buffer_size = 0, rec_compression_algorithm = '''',
      rec_use_o_direct = unset_direct, rec_buffered_writer = closed_writer, rec_disk = fs,
      rec_run_marker = unset_marker, rec_bytes_processed = 0, rec_packets_processed = 0, rec_events = []\<rparr>"

record recorder_conf =
  rc_output_file :: string
  rc_streaming_buffer_size :: u64
  rc_compression_algorithm :: string
  rc_use_o_direct :: bool

text \<open>\<open>iom_ok\<close> is whether the network manager knows a connection.\<close>

definition init_rec :: "(string \<Rightarrow> bool) \<Rightarrow> string list \<Rightarrow> recorder_conf \<Rightarrow> recorder \<Rightarrow> fault + recorder" where
  "init_rec iom_ok inputs conf r =
     (if list_ex (\<lambda>i. \<not> iom_ok i) inputs then Inl ResourceQueueError
      else Inr (r\<lparr>rec_has_receiver := (rec_has_receiver r \<or> inputs \<noteq> []), rec_output_file := rc_output_file conf,
                  rec_stream_buffer_size := rc_streaming_buffer_size conf,
                  rec_compression_algorithm := rc_compression_algorithm conf,
                  rec_use_o_direct := rc_use_o_direct conf\<rparr>))"

record recording_info =
  ri_packets_recorded :: int
  ri_bytes_recorded :: int

text \<open>The monitoring data is filled, which resets the counters, and then not published: the list is what is published.\<close>

definition opmon_rec :: "recorder \<Rightarrow> recording_info list \<times> recorder" where
  "opmon_rec r = ([], r\<lparr>rec_packets_processed := 0, rec_bytes_processed := 0\<rparr>)"

definition conf_rec :: "file_env \<Rightarrow> recorder \<Rightarrow> fault + recorder" where
  "conf_rec env r =
     (let r = r\<lparr>rec_disk := (rec_disk r)(rec_output_file r := None)\<rparr>
      in bindE (open_w env (rec_output_file r) (rec_stream_buffer_size r) (rec_compression_algorithm r)
                  (rec_use_o_direct r) (rec_buffered_writer r, rec_disk r))
           (\<lambda>(w, fs). Inr (r\<lparr>rec_buffered_writer := w, rec_disk := fs\<rparr>)))"

definition scrap_rec :: "file_env \<Rightarrow> recorder \<Rightarrow> recorder" where
  "scrap_rec env r =
     (case close_w env (rec_buffered_writer r, rec_disk r) of (w, fs) \<Rightarrow> r\<lparr>rec_buffered_writer := w, rec_disk := fs\<rparr>)"

definition start_rec :: "recorder \<Rightarrow> recorder" where
  "start_rec r = r\<lparr>rec_packets_processed := 0, rec_bytes_processed := 0, rec_run_marker := True\<rparr>"

definition stop_rec :: "recorder \<Rightarrow> recorder" where
  "stop_rec r = r\<lparr>rec_run_marker := False\<rparr>"

text \<open>One element: \<open>False\<close> when it could not be written, which ends the loop.\<close>

definition record_element :: "file_env \<Rightarrow> u8 list \<Rightarrow> recorder \<Rightarrow> bool \<times> recorder" where
  "record_element env element r =
     (case write_w env element (rec_buffered_writer r) of
        (ok, w) \<Rightarrow>
          let r = r\<lparr>rec_buffered_writer := w\<rparr>
          in if \<not> ok then (False, r\<lparr>rec_events := rec_events r @ [RecorderCannotWrite (rec_output_file r)]\<rparr>)
             else (True, r\<lparr>rec_packets_processed := rec_packets_processed r + 1,
                           rec_bytes_processed := rec_bytes_processed r + of_nat (length element)\<rparr>))"

text \<open>The loop ends at the end of the list, when the run marker is cleared.\<close>

fun work_loop :: "file_env \<Rightarrow> u8 list option list \<Rightarrow> recorder \<Rightarrow> fault + recorder" where
  "work_loop env [] r = Inr r"
| "work_loop env (received # rest) r =
     (if \<not> rec_has_receiver r then Inl NullDeref
      else case received of
             None \<Rightarrow> work_loop env rest r
           | Some element \<Rightarrow>
               case record_element env element r of
                 (True, r) \<Rightarrow> work_loop env rest r
               | (False, r) \<Rightarrow> Inr r)"

definition do_work :: "file_env \<Rightarrow> u8 list option list \<Rightarrow> recorder \<Rightarrow> fault + recorder" where
  "do_work env received r =
     bindE (work_loop env received r) (\<lambda>r.
       case flush_w env (rec_buffered_writer r, rec_disk r) of
         (w, fs) \<Rightarrow> Inr (r\<lparr>rec_buffered_writer := w, rec_disk := fs\<rparr>))"

section \<open>What a recording leaves on disk\<close>

definition received_elements :: "u8 list option list \<Rightarrow> u8 list list" where
  "received_elements received = List.map_filter (\<lambda>x. x) received"

lemma received_elements_simps [simp]:
  "received_elements [] = []" "received_elements (None # xs) = received_elements xs"
  "received_elements (Some x # xs) = x # received_elements xs"
  by (simp_all add: received_elements_def map_filter_simps)

lemma work_loop_records:
  "rec_has_receiver r \<Longrightarrow> w_is_open (rec_buffered_writer r) \<Longrightarrow> \<not> w_bad (rec_buffered_writer r) \<Longrightarrow>
   reliable env (w_filename (rec_buffered_writer r)) (w_buffer_size (rec_buffered_writer r))
     (w_use_o_direct (rec_buffered_writer r)) \<Longrightarrow>
   work_loop env received r =
     Inr (r\<lparr>rec_buffered_writer := (rec_buffered_writer r)
              \<lparr>w_stream := w_stream (rec_buffered_writer r) @ concat (received_elements received)\<rparr>,
            rec_packets_processed := rec_packets_processed r + of_nat (length (received_elements received)),
            rec_bytes_processed := rec_bytes_processed r + of_nat (length (concat (received_elements received)))\<rparr>)"
proof (induction received arbitrary: r)
  case (Cons x xs)
  then show ?case
    by (cases x) (simp_all add: record_element_def write_w_reliable Let_def ac_simps)
qed simp

text \<open>
  C30. A recording that is configured with a supported compression, started, fed and stopped leaves
  a file that holds exactly the received elements in order, compressed, whatever was on disk
  before, provided the file can be opened and its device takes the writes made with the configured
  buffer size and use of \<open>O_DIRECT\<close> (\<open>reliable\<close>), the writer is not open before, and a flushed compressor
  has emitted no more than it does in the end: after \<open>scrap\<close> the file is the encoding of their concatenation, without compression it is
  complete already when the thread ends, and the counters are the numbers of elements and bytes.
\<close>

theorem recording_holds_received_elements:
  fixes received :: "u8 list option list"
  assumes recv: "rec_has_receiver r"
    and alg: "is_compressor (rec_compression_algorithm r) \<or> rec_compression_algorithm r = ''None''"
    and can: "can_open env (rec_output_file r)"
      "reliable env (rec_output_file r) (rec_stream_buffer_size r) (rec_use_o_direct r)"
    and closed: "\<not> w_is_open (rec_buffered_writer r)"
    and pre: "\<And>bs. length (emitted env (rec_compression_algorithm r) bs) \<le> length (encode env (rec_compression_algorithm r) bs)"
  defines "xs \<equiv> received_elements received"
  shows "\<exists>r1 r2. conf_rec env r = Inr r1 \<and> do_work env received (start_rec r1) = Inr r2 \<and>
           (rec_compression_algorithm r = ''None'' \<longrightarrow> rec_disk r2 (rec_output_file r) = Some (concat xs)) \<and>
           rec_disk (scrap_rec env (stop_rec r2)) (rec_output_file r) =
             Some (filter_out env (rec_compression_algorithm r) (concat xs)) \<and>
           rec_packets_processed r2 = of_nat (length xs) \<and> rec_bytes_processed r2 = of_nat (length (concat xs))"
proof -
  obtain r1 where r1: "conf_rec env r = Inr r1" "w_is_open (rec_buffered_writer r1)" "rec_has_receiver r1"
      "\<not> w_bad (rec_buffered_writer r1)" "w_buffer_size (rec_buffered_writer r1) = rec_stream_buffer_size r"
      "w_use_o_direct (rec_buffered_writer r1) = rec_use_o_direct r"
      "w_stream (rec_buffered_writer r1) = []" "w_filename (rec_buffered_writer r1) = rec_output_file r"
      "w_algorithm (rec_buffered_writer r1) = rec_compression_algorithm r" "rec_disk r1 (rec_output_file r) = Some []"
    using assms by (auto simp: conf_rec_def open_w_def Let_def create_file_def old_bytes_def)
  have wl: "work_loop env received (start_rec r1) =
      Inr (start_rec r1\<lparr>rec_buffered_writer := (rec_buffered_writer r1)\<lparr>w_stream := concat xs\<rparr>,
             rec_packets_processed := of_nat (length xs), rec_bytes_processed := of_nat (length (concat xs))\<rparr>)"
    using work_loop_records [of "start_rec r1" env received] r1 can(2) by (simp add: start_rec_def xs_def)
  let ?shown = "if is_compressor (rec_compression_algorithm r) then emitted env (rec_compression_algorithm r) (concat xs) else concat xs"
  have takes: "device_takes env w" if "w_filename w = rec_output_file r" "w_buffer_size w = rec_stream_buffer_size r"
      "w_use_o_direct w = rec_use_o_direct r" for w
    using can(2) that by (simp add: reliable_def)
  obtain r2 where r2: "do_work env received (start_rec r1) = Inr r2" "rec_disk r2 (rec_output_file r) = Some ?shown"
      "w_is_open (rec_buffered_writer r2)" "w_stream (rec_buffered_writer r2) = concat xs"
      "w_filename (rec_buffered_writer r2) = rec_output_file r" "w_algorithm (rec_buffered_writer r2) = rec_compression_algorithm r"
      "\<not> w_bad (rec_buffered_writer r2)" "w_buffer_size (rec_buffered_writer r2) = rec_stream_buffer_size r"
      "w_use_o_direct (rec_buffered_writer r2) = rec_use_o_direct r"
      "rec_packets_processed r2 = of_nat (length xs)" "rec_bytes_processed r2 = of_nat (length (concat xs))"
    using r1 wl takes by (auto simp: do_work_def flush_w_def put_file_def overlay_def start_rec_def Let_def)
  have "rec_disk (scrap_rec env (stop_rec r2)) (rec_output_file r) =
      Some (filter_out env (rec_compression_algorithm r) (concat xs))"
    using r2 pre [of "concat xs"] takes
    by (auto simp: scrap_rec_def stop_rec_def close_w_def put_file_def overlay_def filter_out_def Let_def)
  moreover have "rec_compression_algorithm r = ''None'' \<longrightarrow> rec_disk r2 (rec_output_file r) = Some (concat xs)"
    using r2(2) by (simp add: is_compressor_def)
  ultimately show ?thesis using r1(1) r2 by blast
qed

definition sample_recorder :: recorder where
  "sample_recorder = (new_recorder [''out'' \<mapsto> [9, 9, 9, 9, 9]] False True)
     \<lparr>rec_has_receiver := True, rec_output_file := ''out'', rec_stream_buffer_size := 4096, rec_compression_algorithm := ''None''\<rparr>"

theorem recording_holds_received_elements_witness:
  "\<exists>r1 r2. conf_rec sample_file_env sample_recorder = Inr r1 \<and>
     do_work sample_file_env [Some [1, 2], None, Some [3]] (start_rec r1) = Inr r2 \<and>
     rec_disk r2 ''out'' = Some [1, 2, 3] \<and> rec_packets_processed r2 = 2 \<and> rec_bytes_processed r2 = 3"
  using recording_holds_received_elements [of sample_recorder sample_file_env "[Some [1, 2], None, Some [3]]"]
  by (auto simp: sample_recorder_def sample_reliable new_recorder_def closed_writer_def)

section \<open>Subscriber\<close>

record subscriber =
  sub_has_sender :: bool
  sub_has_receiver :: bool
  sub_has_callback :: bool
  sub_packets :: u64
  sub_sum_packets :: u64
  sub_dropped_packets :: u64

definition new_subscriber :: subscriber where
  "new_subscriber = \<lparr>sub_has_sender = False, sub_has_receiver = False, sub_has_callback = False,
     sub_packets = 0, sub_sum_packets = 0, sub_dropped_packets = 0\<rparr>"

definition init_sub :: "(string \<Rightarrow> bool) \<Rightarrow> string list \<Rightarrow> string list \<Rightarrow> subscriber \<Rightarrow> fault + subscriber" where
  "init_sub iom_ok outputs inputs s =
     (if length outputs \<noteq> 1 then Inl InitializationError
      else if \<not> iom_ok (hd outputs) then Inl ConnectionNotFound
      else let s = s\<lparr>sub_has_sender := True\<rparr>
           in if length inputs \<noteq> 1 then Inl InitializationError
              else if \<not> iom_ok (hd inputs) then Inl ConnectionNotFound
              else Inr (s\<lparr>sub_has_receiver := True\<rparr>))"

definition start_sub :: "subscriber \<Rightarrow> fault + subscriber" where
  "start_sub s =
     (if \<not> sub_has_receiver s then Inl NullDeref
      else Inr (s\<lparr>sub_packets := 0, sub_sum_packets := 0, sub_dropped_packets := 0, sub_has_callback := True\<rparr>))"

definition stop_sub :: "subscriber \<Rightarrow> fault + subscriber" where
  "stop_sub s = (if \<not> sub_has_receiver s then Inl NullDeref else Inr (s\<lparr>sub_has_callback := False\<rparr>))"

text \<open>\<open>sent\<close> is the result of \<open>try_send\<close>.\<close>

definition handle_payload :: "bool \<Rightarrow> subscriber \<Rightarrow> bool \<times> subscriber" where
  "handle_payload sent s =
     (let s = s\<lparr>sub_packets := sub_packets s + 1, sub_sum_packets := sub_sum_packets s + 1\<rparr>
      in (True, if sent then s else s\<lparr>sub_dropped_packets := sub_dropped_packets s + 1\<rparr>))"

record subscriber_info =
  si_num_packets :: u64
  si_sum_packets :: u64
  si_num_dropped_packets :: u64

definition opmon_sub :: "subscriber \<Rightarrow> subscriber_info \<times> subscriber" where
  "opmon_sub s =
     (\<lparr>si_num_packets = sub_packets s, si_sum_packets = sub_sum_packets s, si_num_dropped_packets = sub_dropped_packets s\<rparr>,
      s\<lparr>sub_packets := 0, sub_dropped_packets := 0\<rparr>)"

text \<open>Payloads and monitoring in any order; the published data is collected.\<close>

datatype sub_op = Payload bool | Monitor

fun sub_run :: "sub_op list \<Rightarrow> subscriber_info list \<times> subscriber \<Rightarrow> subscriber_info list \<times> subscriber" where
  "sub_run [] x = x"
| "sub_run (Payload sent # ops) (infos, s) = sub_run ops (infos, snd (handle_payload sent s))"
| "sub_run (Monitor # ops) (infos, s) = (case opmon_sub s of (i, s) \<Rightarrow> sub_run ops (infos @ [i], s))"

definition payloads :: "sub_op list \<Rightarrow> bool list" where
  "payloads ops = List.map_filter (\<lambda>x. case x of Payload b \<Rightarrow> Some b | Monitor \<Rightarrow> None) ops"

lemma payloads_simps [simp]:
  "payloads [] = []" "payloads (Payload b # ops) = b # payloads ops" "payloads (Monitor # ops) = payloads ops"
  by (simp_all add: payloads_def map_filter_simps)

lemma sub_run_accounts:
  assumes "sub_run ops (infos, s) = (infos', s')"
  shows "sub_sum_packets s' = sub_sum_packets s + of_nat (length (payloads ops)) \<and>
         sum_list (map si_num_packets infos') + sub_packets s' =
           sum_list (map si_num_packets infos) + sub_packets s + of_nat (length (payloads ops)) \<and>
         sum_list (map si_num_dropped_packets infos') + sub_dropped_packets s' =
           sum_list (map si_num_dropped_packets infos) + sub_dropped_packets s +
           of_nat (length (filter Not (payloads ops)))"
  using assms
  by (induction ops "(infos, s)" arbitrary: infos s rule: sub_run.induct)
    (auto simp: handle_payload_def opmon_sub_def Let_def algebra_simps split: if_splits)

text \<open>
  From a start on, however payloads and monitoring calls are interleaved, the subscriber accounts
  for every payload (modulo \<open>2 ^ 64\<close>): the sum counter is their number, and the published numbers
  of packets and of dropped packets, together with what is still counted, add up to the payloads
  received and to those the sender refused.
\<close>

theorem subscriber_accounts_for_payloads:
  assumes start: "start_sub s0 = Inr s" and run: "sub_run ops ([], s) = (infos, s')"
  shows "sub_sum_packets s' = of_nat (length (payloads ops)) \<and>
         sum_list (map si_num_packets infos) + sub_packets s' = of_nat (length (payloads ops)) \<and>
         sum_list (map si_num_dropped_packets infos) + sub_dropped_packets s' =
           of_nat (length (filter Not (payloads ops)))"
  using sub_run_accounts [OF run] start by (auto simp: start_sub_def split: if_splits)

theorem subscriber_accounts_for_payloads_witness:
  "\<exists>infos s s'. start_sub (new_subscriber\<lparr>sub_has_receiver := True\<rparr>) = Inr s \<and>
     sub_run [Payload True, Payload False, Monitor, Payload True] ([], s) = (infos, s') \<and>
     sub_sum_packets s' = 3 \<and> sum_list (map si_num_dropped_packets infos) + sub_dropped_packets s' = 1"
proof -
  obtain s where s: "start_sub (new_subscriber\<lparr>sub_has_receiver := True\<rparr>) = Inr s"
    by (simp add: start_sub_def new_subscriber_def)
  obtain infos s' where r: "sub_run [Payload True, Payload False, Monitor, Payload True] ([], s) = (infos, s')"
    by (metis surj_pair)
  show ?thesis using subscriber_accounts_for_payloads [OF s r] s r by auto
qed

end
