(* ===== verification/Source_Emulator.thy ===== *)
theory Source_Emulator
  imports Complex_Main Readout_Types Buffered_Files Utilities
begin

text \<open>
  The source emulator (models/SourceEmulatorModel.hpp and its detail file): it replays the elements
  of a file with made-up timestamps, drops frames at random, adds error bits and hits, and sends
  them at a limited rate. Random numbers, the clock and the sender are arguments; what a readout
  type does to fake a field is the record \<open>emulated_type\<close>.
\<close>

section \<open>Pattern generator\<close>

record pattern_generator =
  pg_channel :: "nat list"
  pg_index :: nat

definition new_pattern_generator :: pattern_generator where
  "new_pattern_generator = \<lparr>pg_channel = [], pg_index = 0\<rparr>"

text \<open>\<open>rand\<close> is the sequence of random numbers of the seed made from the source id.\<close>

definition generate_pattern :: "(nat \<Rightarrow> nat) \<Rightarrow> nat \<Rightarrow> pattern_generator \<Rightarrow> pattern_generator" where
  "generate_pattern rand sz g = g\<lparr>pg_channel := pg_channel g @ map (\<lambda>i. rand i mod 64) [0..<sz]\<rparr>"

definition get_channel_number :: "pattern_generator \<Rightarrow> fault + (nat \<times> pattern_generator)" where
  "get_channel_number g =
     (let index = (if pg_index g = length (pg_channel g) then 0 else pg_index g)
      in if index < length (pg_channel g) then Inr (pg_channel g ! index, g\<lparr>pg_index := index + 1\<rparr>)
         else Inl InvalidAccess)"

section \<open>State\<close>

text \<open>
  \<open>of_bytes\<close> reads a readout type from memory. \<open>fake_adc_pattern\<close> may throw; the exception is
  caught, so it is a function on the payload like the others.
\<close>

record 'a emulated_type =
  sizeof_rdt :: nat
  of_bytes :: "u8 list \<Rightarrow> 'a"
  fake_timestamps :: "u64 \<Rightarrow> u64 \<Rightarrow> 'a \<Rightarrow> 'a"
  fake_geoid :: "int \<Rightarrow> int \<Rightarrow> int \<Rightarrow> 'a \<Rightarrow> 'a"
  fake_frame_errors :: "u16 list \<Rightarrow> 'a \<Rightarrow> 'a"
  fake_adc_pattern :: "nat \<Rightarrow> 'a \<Rightarrow> 'a"

datatype 'a emu_event = PacketSent 'a | PacketNotSent 'a

record 'a source_emulator =
  se_time_tick_diff :: u64
  se_dropout_rate :: rat
  se_packet_count :: atomic_int
  se_packet_count_tot :: atomic_int
  se_sender :: "string option"
  se_sender_is_set :: bool
  se_rate_limiter :: "rate_limiter option"
  se_file_source :: "file_source option"
  se_error_bit_generator :: error_bit_generator
  se_is_configured :: bool
  se_frames_per_tick :: u16
  se_dropouts :: "bool list"
  se_sourceid :: u32
  se_crateid :: int
  se_slotid :: int
  se_linkid :: int
  se_t0_now :: bool
  se_generate_periodic_adc_pattern :: bool
  se_pattern_generator :: pattern_generator
  se_pattern_generator_previous_ts :: u64
  se_time_to_wait :: u32
  se_running :: bool
  se_events :: "'a emu_event list"

text \<open>\<open>no_bits\<close> is the error bit generator before it is filled, \<open>unset_ts\<close> the uninitialised timestamp.\<close>

definition new_source_emulator :: "error_bit_generator \<Rightarrow> u64 \<Rightarrow> u64 \<Rightarrow> rat \<Rightarrow> u16 \<Rightarrow> 'a source_emulator" where
  "new_source_emulator no_bits unset_ts time_tick_diff dropout_rate frames_per_tick =
     \<lparr>se_time_tick_diff = time_tick_diff, se_dropout_rate = dropout_rate, se_packet_count = 0, se_packet_count_tot = 0,
      se_sender = None, se_sender_is_set = False, se_rate_limiter = None, se_file_source = None,
      se_error_bit_generator = no_bits, se_is_configured = False, se_frames_per_tick = frames_per_tick,
      se_dropouts = [], se_sourceid = 0, se_crateid = 0, se_slotid = 0, se_linkid = 0, se_t0_now = False,
      se_generate_periodic_adc_pattern = False, se_pattern_generator = new_pattern_generator,
      se_pattern_generator_previous_ts = unset_ts, se_time_to_wait = 9768, se_running = False, se_events = []\<rparr>"

section \<open>Configuration and run control\<close>

definition set_sender :: "string \<Rightarrow> 'a source_emulator \<Rightarrow> 'a source_emulator" where
  "set_sender conn_name e =
     (if se_sender_is_set e then e else e\<lparr>se_sender := Some conn_name, se_sender_is_set := True\<rparr>)"

record detector_stream =
  ds_source_id :: u32
  ds_crate_id :: int
  ds_slot_id :: int
  ds_stream_id :: int

text \<open>
  \<open>divided_by_tp_rate\<close> is the division of the waiting time by the rate of trigger primitives per
  channel, when that rate is not 0.
\<close>

record emulation_conf =
  ec_set_t0 :: bool
  ec_input_file_size_limit :: int
  ec_data_file_name :: string
  ec_random_population_size :: nat
  ec_generate_periodic_adc_pattern :: bool
  ec_divided_by_tp_rate :: "(u32 \<Rightarrow> u32) option"

text \<open>
  The random numbers: drawn for the dropouts (between 0 and 1), for the error bit generator and for
  the pattern generator (by source id).
\<close>

record emu_random =
  draw_dropout :: "nat \<Rightarrow> rat"
  draw_bits :: "nat \<Rightarrow> u16"
  draw_errors :: "nat \<Rightarrow> int"
  draw_no_errors :: "nat \<Rightarrow> int"
  draw_channel :: "u32 \<Rightarrow> nat \<Rightarrow> nat"

definition conf_dropouts :: "emu_random \<Rightarrow> nat \<Rightarrow> rat \<Rightarrow> bool list" where
  "conf_dropouts rnd population rate =
     map (\<lambda>i. draw_dropout rnd i \<ge> rate) [0..<(if rate = 0 then 1 else population)]"

definition conf_pattern :: "emu_random \<Rightarrow> emulation_conf \<Rightarrow> 'a source_emulator \<Rightarrow> 'a source_emulator" where
  "conf_pattern rnd emu e =
     (let e = e\<lparr>se_generate_periodic_adc_pattern := ec_generate_periodic_adc_pattern emu\<rparr>
      in if se_generate_periodic_adc_pattern e
         then let e = e\<lparr>se_pattern_generator := generate_pattern (draw_channel rnd (se_sourceid e))
                          (ec_random_population_size emu) (se_pattern_generator e)\<rparr>
              in case ec_divided_by_tp_rate emu of
                   None \<Rightarrow> e
                 | Some d \<Rightarrow> e\<lparr>se_time_to_wait := d (se_time_to_wait e)\<rparr>
         else e)"

definition conf_emulator ::
  "'a emulated_type \<Rightarrow> emu_random \<Rightarrow> error_bit_generator \<Rightarrow> file_env \<Rightarrow> files \<Rightarrow> detector_stream \<Rightarrow> emulation_conf \<Rightarrow>
   'a source_emulator \<Rightarrow> fault + 'a source_emulator" where
  "conf_emulator T rnd no_bits env fs link emu e =
     (if se_is_configured e then Inr e
      else let e = e\<lparr>se_sourceid := ds_source_id link, se_crateid := ds_crate_id link, se_slotid := ds_slot_id link,
                     se_linkid := ds_stream_id link, se_t0_now := ec_set_t0 emu\<rparr>
           in case read_source env fs (ec_data_file_name emu)
                     (make_file_source (ec_input_file_size_limit emu) (int (sizeof_rdt T))) of
                Inl _ \<Rightarrow> Inl ConfigurationError
              | Inr (_, src) \<Rightarrow>
                  let e = e\<lparr>se_file_source := Some src,
                            se_dropouts := conf_dropouts rnd (ec_random_population_size emu) (se_dropout_rate e),
                            se_error_bit_generator :=
                              generate_eb (draw_bits rnd) (draw_errors rnd) (draw_no_errors rnd) no_bits\<rparr>;
                      e = conf_pattern rnd emu e
                  in Inr (e\<lparr>se_is_configured := True\<rparr>))"

definition scrap_emulator :: "'a source_emulator \<Rightarrow> 'a source_emulator" where
  "scrap_emulator e = e\<lparr>se_file_source := None, se_is_configured := False\<rparr>"

definition start_emulator :: "u64 \<Rightarrow> u64 \<Rightarrow> 'a source_emulator \<Rightarrow> 'a source_emulator" where
  "start_emulator period now e =
     e\<lparr>se_packet_count_tot := 0, se_rate_limiter := Some (make_rl period now), se_running := True\<rparr>"

definition stop_emulator :: "'a source_emulator \<Rightarrow> 'a source_emulator" where
  "stop_emulator e = e\<lparr>se_running := False\<rparr>"

record data_source_info =
  dsi_sum_packets :: int
  dsi_num_packets :: int

definition opmon_emulator :: "'a source_emulator \<Rightarrow> data_source_info \<times> 'a source_emulator" where
  "opmon_emulator e =
     (\<lparr>dsi_sum_packets = sint (se_packet_count_tot e), dsi_num_packets = sint (se_packet_count e)\<rparr>,
      e\<lparr>se_packet_count := 0\<rparr>)"

section \<open>The producer thread\<close>

record produce_locals =
  pl_offset :: u32
  pl_num_elem :: u32
  pl_timestamp :: u64
  pl_dropout_index :: nat

text \<open>\<open>memcpy\<close> from the source buffer into a payload, and the access through \<open>rptr\<close>.\<close>

definition source_element :: "'a emulated_type \<Rightarrow> u8 list \<Rightarrow> nat \<Rightarrow> fault + 'a" where
  "source_element T src offset =
     (if (offset + 1) * sizeof_rdt T \<le> length src
      then Inr (of_bytes T (take (sizeof_rdt T) (drop (offset * sizeof_rdt T) src)))
      else Inl InvalidAccess)"

text \<open>\<open>clock_us\<close> is the wall clock time in microseconds.\<close>

definition produce_begin ::
  "'a readout_ops \<Rightarrow> 'a emulated_type \<Rightarrow> u64 \<Rightarrow> 'a source_emulator \<Rightarrow> fault + produce_locals" where
  "produce_begin R T clock_us e =
     (case se_file_source e of
        None \<Rightarrow> Inl NullDeref
      | Some b \<Rightarrow>
          bindE (source_element T (fs_input_buffer b) 0) (\<lambda>rptr.
            let ts_0 = (if se_t0_now e then 625 * clock_us div 10 else get_timestamp R rptr)
            in Inr \<lparr>pl_offset = 0, pl_num_elem = fs_element_count b, pl_timestamp = ts_0, pl_dropout_index = 0\<rparr>))"

fun next_error_bits :: "nat \<Rightarrow> error_bit_generator \<Rightarrow> u16 list \<times> error_bit_generator" where
  "next_error_bits 0 g = ([], g)"
| "next_error_bits (Suc n) g =
     (case next_eb g of (b, g) \<Rightarrow> case next_error_bits n g of (bs, g) \<Rightarrow> (b # bs, g))"

text \<open>A hit in a channel when the waiting time since the previous one has passed.\<close>

definition add_pattern :: "'a emulated_type \<Rightarrow> u64 \<Rightarrow> 'a \<times> 'a source_emulator \<Rightarrow> fault + ('a \<times> 'a source_emulator)" where
  "add_pattern T tick_ts = (\<lambda>(payload, e).
     if se_generate_periodic_adc_pattern e \<and>
        tick_ts - se_pattern_generator_previous_ts e > ucast (se_time_to_wait e)
     then bindE (get_channel_number (se_pattern_generator e)) (\<lambda>(channel, g).
            Inr (fake_adc_pattern T channel payload,
                 e\<lparr>se_pattern_generator := g, se_pattern_generator_previous_ts := tick_ts\<rparr>))
     else Inr (payload, e))"

definition send_packet :: "('a \<Rightarrow> bool) \<Rightarrow> 'a \<Rightarrow> 'a source_emulator \<Rightarrow> fault + 'a source_emulator" where
  "send_packet send_ok payload e =
     (if se_sender e = None then Inl NullDeref
      else let ev = (if send_ok payload then PacketSent payload else PacketNotSent payload)
           in Inr (e\<lparr>se_events := se_events e @ [ev], se_packet_count := se_packet_count e + 1,
                     se_packet_count_tot := se_packet_count_tot e + 1\<rparr>))"

text \<open>One frame of a tick.\<close>

definition wrap_offset :: "'a emulated_type \<Rightarrow> u8 list \<Rightarrow> produce_locals \<Rightarrow> u32" where
  "wrap_offset T src l =
     (if pl_offset l = pl_num_elem l \<or> unat (pl_offset l + 1) * sizeof_rdt T > length src then 0 else pl_offset l)"

definition produce_frame ::
  "'a readout_ops \<Rightarrow> 'a emulated_type \<Rightarrow> ('a \<Rightarrow> bool) \<Rightarrow> u8 list \<Rightarrow> produce_locals \<times> 'a source_emulator \<Rightarrow>
   fault + (produce_locals \<times> 'a source_emulator)" where
  "produce_frame R T send_ok src = (\<lambda>(l, e).
     let l = l\<lparr>pl_offset := wrap_offset T src l\<rparr>
     in if length (se_dropouts e) \<le> pl_dropout_index l then Inl InvalidAccess
        else let create_frame = se_dropouts e ! pl_dropout_index l;
                 l = l\<lparr>pl_dropout_index := (pl_dropout_index l + 1) mod length (se_dropouts e)\<rparr>
             in if \<not> create_frame then Inr (l, e)
                else bindE (source_element T src 0) (\<lambda>rptr.
                     bindE (source_element T src (unat (pl_offset l))) (\<lambda>payload.
                       let payload = fake_timestamps T (pl_timestamp l) (se_time_tick_diff e) payload;
                           payload = fake_geoid T (se_crateid e) (se_slotid e) (se_linkid e) payload
                       in case next_error_bits (unat (get_num_frames R rptr)) (se_error_bit_generator e) of
                            (frame_errs, g) \<Rightarrow>
                              let payload = fake_frame_errors T frame_errs payload
                              in bindE (add_pattern T (pl_timestamp l) (payload, e\<lparr>se_error_bit_generator := g\<rparr>))
                                   (\<lambda>(payload, e).
                                 bindE (send_packet send_ok payload e) (\<lambda>e.
                                   Inr (l\<lparr>pl_offset := pl_offset l + 1\<rparr>, e))))))"

fun produce_frames ::
  "'a readout_ops \<Rightarrow> 'a emulated_type \<Rightarrow> ('a \<Rightarrow> bool) \<Rightarrow> u8 list \<Rightarrow> nat \<Rightarrow> produce_locals \<times> 'a source_emulator \<Rightarrow>
   fault + (produce_locals \<times> 'a source_emulator)" where
  "produce_frames R T send_ok src 0 le = Inr le"
| "produce_frames R T send_ok src (Suc n) le = bindE (produce_frame R T send_ok src le) (produce_frames R T send_ok src n)"

text \<open>One tick; \<open>clock\<close> is what the rate limiter reads. A limiter that does not return is \<open>None\<close>.\<close>

definition produce_round ::
  "'a readout_ops \<Rightarrow> 'a emulated_type \<Rightarrow> ('a \<Rightarrow> bool) \<Rightarrow> u8 list \<Rightarrow> u64 list \<Rightarrow> produce_locals \<times> 'a source_emulator \<Rightarrow>
   (fault + (produce_locals \<times> 'a source_emulator)) option" where
  "produce_round R T send_ok src clock le =
     (case produce_frames R T send_ok src (unat (se_frames_per_tick (snd le))) le of
        Inl f \<Rightarrow> Some (Inl f)
      | Inr (l, e) \<Rightarrow>
          case source_element T src 0 of
            Inl f \<Rightarrow> Some (Inl f)
          | Inr rptr \<Rightarrow>
              let l = l\<lparr>pl_timestamp := pl_timestamp l + se_time_tick_diff e * get_num_frames R rptr\<rparr>
              in case se_rate_limiter e of
                   None \<Rightarrow> Some (Inl NullDeref)
                 | Some rl \<Rightarrow>
                     (case limit_rl clock rl of
                        None \<Rightarrow> None
                      | Some (rl, _) \<Rightarrow> Some (Inr (l, e\<lparr>se_rate_limiter := Some rl\<rparr>))))"

section \<open>What is replayed\<close>

text \<open>
  The frame slots of a run are numbered from 0, \<open>k\<close> of them per tick. A slot produces a packet when
  the population of dropouts, read cyclically, says so; the packets go through the elements of the
  file cyclically, and carry the timestamp of their tick.
\<close>

definition slot_used :: "bool list \<Rightarrow> nat \<Rightarrow> bool" where
  "slot_used ds i \<longleftrightarrow> ds ! (i mod length ds)"

definition used_slots :: "bool list \<Rightarrow> nat \<Rightarrow> nat list" where
  "used_slots ds i = filter (slot_used ds) [0..<i]"

definition expected_packets :: "bool list \<Rightarrow> nat \<Rightarrow> nat \<Rightarrow> u64 \<Rightarrow> u64 \<Rightarrow> nat \<Rightarrow> (nat \<times> u64) list" where
  "expected_packets ds ne k dt ts0 i =
     map (\<lambda>(m, j). (m mod ne, ts0 + of_nat (j div k) * dt)) (enumerate 0 (used_slots ds i))"

fun packet_of :: "'a emu_event \<Rightarrow> 'a" where
  "packet_of (PacketSent p) = p"
| "packet_of (PacketNotSent p) = p"

text \<open>An element of the file with everything the emulator fakes.\<close>

definition dressed :: "'a emulated_type \<Rightarrow> 'a source_emulator \<Rightarrow> u8 list \<Rightarrow> nat \<Rightarrow> u64 \<Rightarrow> 'a \<Rightarrow> bool" where
  "dressed T e src m t p \<longleftrightarrow>
     (let q = fake_geoid T (se_crateid e) (se_slotid e) (se_linkid e)
                (fake_timestamps T t (se_time_tick_diff e)
                  (of_bytes T (take (sizeof_rdt T) (drop (m * sizeof_rdt T) src))))
      in \<exists>errs. p = fake_frame_errors T errs q \<or> (\<exists>ch. p = fake_adc_pattern T ch (fake_frame_errors T errs q)))"

definition pattern_ok :: "'a source_emulator \<Rightarrow> bool" where
  "pattern_ok e \<longleftrightarrow>
     se_generate_periodic_adc_pattern e \<longrightarrow>
       pg_channel (se_pattern_generator e) \<noteq> [] \<and>
       pg_index (se_pattern_generator e) \<le> length (pg_channel (se_pattern_generator e))"

definition emu_config :: "'a source_emulator \<Rightarrow> bool list \<times> u64 \<times> int \<times> int \<times> int \<times> u16 \<times> string option" where
  "emu_config e = (se_dropouts e, se_time_tick_diff e, se_crateid e, se_slotid e, se_linkid e,
                   se_frames_per_tick e, se_sender e)"

definition replaying ::
  "'a emulated_type \<Rightarrow> u8 list \<Rightarrow> u32 \<Rightarrow> u64 \<Rightarrow> u64 \<Rightarrow> 'a source_emulator \<Rightarrow> nat \<Rightarrow> produce_locals \<times> 'a source_emulator \<Rightarrow> bool"
where
  "replaying T src ne dt ts0 e0 i = (\<lambda>(l, e).
     emu_config e = emu_config e0 \<and> pattern_ok e \<and> pl_num_elem l = ne \<and>
     pl_dropout_index l = i mod length (se_dropouts e0) \<and> unat (pl_offset l) \<le> unat ne \<and>
     unat (pl_offset l) mod unat ne = length (used_slots (se_dropouts e0) i) mod unat ne \<and>
     (\<exists>evs. se_events e = se_events e0 @ evs \<and> se_packet_count e = se_packet_count e0 + of_nat (length evs) \<and>
        se_packet_count_tot e = se_packet_count_tot e0 + of_nat (length evs) \<and>
        list_all2 (\<lambda>(m, t) ev. dressed T e0 src m t (packet_of ev))
          (expected_packets (se_dropouts e0) (unat ne) (unat (se_frames_per_tick e0)) dt ts0 i) evs))"

lemma used_slots_Suc: "used_slots ds (Suc i) = used_slots ds i @ (if slot_used ds i then [i] else [])"
  by (simp add: used_slots_def)

lemma expected_packets_Suc:
  "expected_packets ds ne k dt ts0 (Suc i) = expected_packets ds ne k dt ts0 i @
     (if slot_used ds i then [(length (used_slots ds i) mod ne, ts0 + of_nat (i div k) * dt)] else [])"
  by (simp add: expected_packets_def used_slots_Suc enumerate_append_eq)

lemma add_pattern_ok:
  assumes "pattern_ok e"
  shows "\<exists>p' e'. add_pattern T t (p, e) = Inr (p', e') \<and> pattern_ok e' \<and> emu_config e' = emu_config e \<and>
           se_events e' = se_events e \<and> (p' = p \<or> (\<exists>ch. p' = fake_adc_pattern T ch p))"
  using assms
  by (cases "se_pattern_generator e")
    (auto simp: add_pattern_def pattern_ok_def get_channel_number_def emu_config_def Let_def)

lemma wrap_offset_mod:
  assumes "0 < unat ne" and "unat ne * sizeof_rdt T \<le> length src" and "pl_num_elem l = ne"
    and "unat (pl_offset l) \<le> unat ne"
  shows "unat (wrap_offset T src l) = unat (pl_offset l) mod unat ne" and "unat (wrap_offset T src l) < unat ne"
proof -
  have "unat (wrap_offset T src l) = (if pl_offset l = ne then 0 else unat (pl_offset l))"
  proof (cases "pl_offset l = ne")
    case False
    then have less: "unat (pl_offset l) < unat ne" using assms(4) by (metis le_neq_implies_less word_unat_eq_iff)
    then have suc: "unat (pl_offset l + 1) = unat (pl_offset l) + 1"
      using unat_u32_less [of ne] by (intro unat_plus_one) simp
    have "(unat (pl_offset l) + 1) * sizeof_rdt T \<le> unat ne * sizeof_rdt T" using less by (intro mult_le_mono1) simp
    then show ?thesis using assms(2,3) False suc by (auto simp: wrap_offset_def)
  qed (simp add: wrap_offset_def assms(3))
  then show "unat (wrap_offset T src l) = unat (pl_offset l) mod unat ne" "unat (wrap_offset T src l) < unat ne"
    using assms(1,4) by (auto simp: le_neq_implies_less word_unat_eq_iff)
qed

lemma source_element_ok:
  assumes "m < n" and "n * sizeof_rdt T \<le> length src"
  shows "source_element T src m = Inr (of_bytes T (take (sizeof_rdt T) (drop (m * sizeof_rdt T) src)))"
proof -
  have "(m + 1) * sizeof_rdt T \<le> n * sizeof_rdt T" using assms(1) by (intro mult_le_mono1) simp
  then have "(m + 1) * sizeof_rdt T \<le> length src" using assms(2) by (rule le_trans)
  then show ?thesis by (simp add: source_element_def)
qed

text \<open>One frame slot keeps the invariant and produces what the slot stands for.\<close>

lemma produce_frame_replays:
  assumes rep: "replaying T src ne dt ts0 e0 i (l, e)"
    and ne: "0 < unat ne" "unat ne * sizeof_rdt T \<le> length src"
    and ds: "se_dropouts e0 \<noteq> []" and snd: "se_sender e0 \<noteq> None"
    and ts: "pl_timestamp l = ts0 + of_nat (i div unat (se_frames_per_tick e0)) * dt"
  shows "\<exists>l' e'. produce_frame R T send_ok src (l, e) = Inr (l', e') \<and> replaying T src ne dt ts0 e0 (Suc i) (l', e') \<and>
           pl_timestamp l' = pl_timestamp l \<and> se_rate_limiter e' = se_rate_limiter e"
proof -
  let ?ds = "se_dropouts e0" and ?w = "wrap_offset T src l" and ?c = "length (used_slots (se_dropouts e0) i)"
  obtain evs where r: "emu_config e = emu_config e0" "pattern_ok e" "pl_num_elem l = ne"
      "pl_dropout_index l = i mod length ?ds" "unat (pl_offset l) \<le> unat ne" "unat (pl_offset l) mod unat ne = ?c mod unat ne"
      "se_events e = se_events e0 @ evs"
      "list_all2 (\<lambda>(m, t) ev. dressed T e0 src m t (packet_of ev))
         (expected_packets ?ds (unat ne) (unat (se_frames_per_tick e0)) dt ts0 i) evs"
      "se_packet_count e = se_packet_count e0 + of_nat (length evs)"
      "se_packet_count_tot e = se_packet_count_tot e0 + of_nat (length evs)"
    using rep by (auto simp: replaying_def)
  have cfg: "se_dropouts e = ?ds" "se_time_tick_diff e = se_time_tick_diff e0" "se_crateid e = se_crateid e0"
      "se_slotid e = se_slotid e0" "se_linkid e = se_linkid e0" "se_sender e \<noteq> None"
    using r(1) snd by (auto simp: emu_config_def)
  have w: "unat ?w = ?c mod unat ne" "unat ?w < unat ne"
    using wrap_offset_mod [OF ne r(3,5)] r(6) by simp_all
  have di: "pl_dropout_index l < length ?ds" using r(4) ds by simp
  have next_di: "(i mod length ?ds + 1) mod length ?ds = Suc i mod length ?ds" by (simp add: mod_Suc_eq)
  show ?thesis
  proof (cases "slot_used ?ds i")
    case False
    then show ?thesis
      using r cfg di w next_di
      by (auto simp: produce_frame_def Let_def slot_used_def replaying_def used_slots_Suc expected_packets_Suc)
  next
    case True
    let ?n = "unat (get_num_frames R (of_bytes T (take (sizeof_rdt T) src)))"
    obtain errs g where eb: "next_error_bits ?n (se_error_bit_generator e) = (errs, g)" by fastforce
    let ?q = "of_bytes T (take (sizeof_rdt T) (drop (unat ?w * sizeof_rdt T) src))"
    let ?p = "fake_frame_errors T errs (fake_geoid T (se_crateid e0) (se_slotid e0) (se_linkid e0)
                (fake_timestamps T (pl_timestamp l) (se_time_tick_diff e0) ?q))"
    let ?e = "e\<lparr>se_error_bit_generator := g\<rparr>"
    have rp: "source_element T src 0 = Inr (of_bytes T (take (sizeof_rdt T) src))"
      using source_element_ok [OF ne] by simp
    have pl: "source_element T src (unat ?w) = Inr ?q" by (rule source_element_ok [OF w(2) ne(2)])
    have "pattern_ok ?e" using r(2) by (simp add: pattern_ok_def)
    from add_pattern_ok [OF this, of T "pl_timestamp l" "?p"] obtain p' e' where
      ap: "add_pattern T (pl_timestamp l) (?p, ?e) = Inr (p', e')" "pattern_ok e'"
        "emu_config e' = emu_config ?e" "se_events e' = se_events ?e"
        "p' = ?p \<or> (\<exists>ch. p' = fake_adc_pattern T ch ?p)"
      by blast
    have rl: "se_rate_limiter e' = se_rate_limiter e" "se_packet_count e' = se_packet_count e"
        "se_packet_count_tot e' = se_packet_count_tot e"
      using ap(1) by (auto simp: add_pattern_def bindE_eq_Inr_iff split: if_splits)
    have cfg': "emu_config e' = emu_config e0" using ap(3) r(1) by (simp add: emu_config_def)
    then have snd': "se_sender e' \<noteq> None" using snd by (simp add: emu_config_def)
    have dr: "dressed T e0 src (?c mod unat ne) (pl_timestamp l) p'"
      unfolding dressed_def Let_def w(1) [symmetric] using ap(5) by blast
    let ?ev = "if send_ok p' then PacketSent p' else PacketNotSent p'"
    let ?l' = "l\<lparr>pl_offset := ?w + 1, pl_dropout_index := (pl_dropout_index l + 1) mod length ?ds\<rparr>"
    let ?e' = "e'\<lparr>se_events := se_events e' @ [?ev], se_packet_count := se_packet_count e' + 1,
                  se_packet_count_tot := se_packet_count_tot e' + 1\<rparr>"
    have run: "produce_frame R T send_ok src (l, e) = Inr (?l', ?e')"
      using di True cfg rp pl eb ap(1) snd' r(4)
      by (simp add: produce_frame_def Let_def slot_used_def send_packet_def)
    have suc: "unat (?w + 1) = unat ?w + 1"
      using w(2) unat_u32_less [of ne] by (intro unat_plus_one) simp
    have "unat (?w + 1) mod unat ne = Suc ?c mod unat ne" using suc w(1) by (simp add: mod_Suc_eq)
    then have "replaying T src ne dt ts0 e0 (Suc i) (?l', ?e')"
      using r cfg' ap(2,4) True suc w dr ts next_di rl(2,3)
      by (auto simp: replaying_def used_slots_Suc expected_packets_Suc emu_config_def pattern_ok_def
          intro!: list_all2_appendI)
    then show ?thesis using run rl by auto
  qed
qed

lemma produce_frames_replay:
  "replaying T src ne dt ts0 e0 i (l, e) \<Longrightarrow> 0 < unat ne \<Longrightarrow> unat ne * sizeof_rdt T \<le> length src \<Longrightarrow>
   se_dropouts e0 \<noteq> [] \<Longrightarrow> se_sender e0 \<noteq> None \<Longrightarrow> pl_timestamp l = ts0 + of_nat \<tau> * dt \<Longrightarrow>
   \<tau> * k \<le> i \<Longrightarrow> i + n \<le> (\<tau> + 1) * k \<Longrightarrow> k = unat (se_frames_per_tick e0) \<Longrightarrow>
   \<exists>l' e'. produce_frames R T send_ok src n (l, e) = Inr (l', e') \<and> replaying T src ne dt ts0 e0 (i + n) (l', e') \<and>
           pl_timestamp l' = pl_timestamp l \<and> se_rate_limiter e' = se_rate_limiter e"
proof (induction n arbitrary: i l e)
  case (Suc n)
  have lo: "\<tau> * k \<le> i" and hi: "i < (\<tau> + 1) * k" using Suc.prems(7,8) by linarith+
  have "i div k = \<tau>" by (rule div_nat_eqI) (use lo hi in \<open>simp_all add: mult.commute\<close>)
  then have ts: "pl_timestamp l = ts0 + of_nat (i div unat (se_frames_per_tick e0)) * dt"
    using Suc.prems(6,9) by simp
  obtain l1 e1 where s1: "produce_frame R T send_ok src (l, e) = Inr (l1, e1)" "replaying T src ne dt ts0 e0 (Suc i) (l1, e1)"
      "pl_timestamp l1 = pl_timestamp l" "se_rate_limiter e1 = se_rate_limiter e"
    using produce_frame_replays [OF Suc.prems(1-5) ts] by blast
  have "pl_timestamp l1 = ts0 + of_nat \<tau> * dt" "\<tau> * k \<le> Suc i" "Suc i + n \<le> (\<tau> + 1) * k"
    using s1(3) Suc.prems(6-8) by simp_all
  from Suc.IH [OF s1(2) Suc.prems(2-5) this Suc.prems(9)] show ?case using s1 by auto
qed simp

text \<open>The thread's loop over a list of ticks, given what the rate limiter reads in each.\<close>

fun produce_rounds ::
  "'a readout_ops \<Rightarrow> 'a emulated_type \<Rightarrow> ('a \<Rightarrow> bool) \<Rightarrow> u8 list \<Rightarrow> u64 list list \<Rightarrow> produce_locals \<times> 'a source_emulator \<Rightarrow>
   (fault + (produce_locals \<times> 'a source_emulator)) option" where
  "produce_rounds R T send_ok src [] le = Some (Inr le)"
| "produce_rounds R T send_ok src (c # cs) le =
     (case produce_round R T send_ok src c le of
        None \<Rightarrow> None
      | Some (Inl f) \<Rightarrow> Some (Inl f)
      | Some (Inr le) \<Rightarrow> produce_rounds R T send_ok src cs le)"

text \<open>A clock that passes every deadline.\<close>

definition passes_deadlines :: "u64 list \<Rightarrow> bool" where
  "passes_deadlines clock \<longleftrightarrow> (\<forall>rl. limit_rl clock rl \<noteq> None)"

lemma produce_rounds_replay:
  assumes ne: "0 < unat ne" "unat ne * sizeof_rdt T \<le> length src"
    and ds: "se_dropouts e0 \<noteq> []" and snd: "se_sender e0 \<noteq> None" and k: "k = unat (se_frames_per_tick e0)"
    and dt: "dt = se_time_tick_diff e0 * get_num_frames R (of_bytes T (take (sizeof_rdt T) src))"
  shows "replaying T src ne dt ts0 e0 (\<tau> * k) (l, e) \<Longrightarrow> pl_timestamp l = ts0 + of_nat \<tau> * dt \<Longrightarrow>
    se_rate_limiter e \<noteq> None \<Longrightarrow> \<forall>c \<in> set clocks. passes_deadlines c \<Longrightarrow>
    \<exists>l' e'. produce_rounds R T send_ok src clocks (l, e) = Some (Inr (l', e')) \<and>
            replaying T src ne dt ts0 e0 ((\<tau> + length clocks) * k) (l', e')"
proof (induction clocks arbitrary: \<tau> l e)
  case (Cons c cs)
  have cfg: "emu_config e = emu_config e0" using Cons.prems(1) by (simp add: replaying_def)
  have "\<tau> * k \<le> \<tau> * k" "\<tau> * k + k \<le> (\<tau> + 1) * k" by (simp_all add: algebra_simps)
  from produce_frames_replay [OF Cons.prems(1) ne ds snd Cons.prems(2) this k]
  obtain l1 e1 where s1: "produce_frames R T send_ok src k (l, e) = Inr (l1, e1)"
      "replaying T src ne dt ts0 e0 (\<tau> * k + k) (l1, e1)" "pl_timestamp l1 = pl_timestamp l"
      "se_rate_limiter e1 = se_rate_limiter e"
    by blast
  obtain rl where rl: "se_rate_limiter e1 = Some rl" using Cons.prems(3) s1(4) by auto
  obtain rl' rest where lim: "limit_rl c rl = Some (rl', rest)"
    using Cons.prems(4) by (fastforce simp: passes_deadlines_def)
  have cfg1: "emu_config e1 = emu_config e0" using s1(2) by (simp add: replaying_def)
  let ?l2 = "l1\<lparr>pl_timestamp := pl_timestamp l1 + dt\<rparr>" and ?e2 = "e1\<lparr>se_rate_limiter := Some rl'\<rparr>"
  have round: "produce_round R T send_ok src c (l, e) = Some (Inr (?l2, ?e2))"
    using s1(1-3) rl lim cfg cfg1 k dt source_element_ok [OF ne]
    by (simp add: produce_round_def emu_config_def Let_def)
  have "replaying T src ne dt ts0 e0 ((\<tau> + 1) * k) (?l2, ?e2)"
    using s1(2) by (simp add: replaying_def emu_config_def pattern_ok_def add.commute)
  moreover have "pl_timestamp ?l2 = ts0 + of_nat (\<tau> + 1) * dt"
    using s1(3) Cons.prems(2) by (simp add: algebra_simps)
  ultimately show ?case
    using Cons.IH [of "\<tau> + 1" ?l2 ?e2] Cons.prems(4) round by auto
qed auto

text \<open>
  C29. With a loaded file of at least one complete element, a sender, a rate limiter, a non-empty
  population, channels for the pattern if one is generated (\<open>pattern_ok\<close>), and a clock
  that passes every deadline, the producer thread never reads outside the file and after any
  number of ticks has handed to the sender exactly the expected packets, in order: \<open>m_frames_per_tick\<close> frame slots
  per tick, the slots that the population of dropouts selects each carrying the next element of
  the file, cyclically, with the timestamp of its tick, and ticks one element span apart. Both
  packet counters have grown by the number of these packets (as 32-bit values), whether the sender took
  them or timed out.
\<close>

theorem emulator_replays_file:
  fixes R :: "'a readout_ops" and T :: "'a emulated_type" and clock_us :: u64
  assumes src: "se_file_source e = Some b" "0 < unat (fs_element_count b)"
      "unat (fs_element_count b) * sizeof_rdt T \<le> length (fs_input_buffer b)"
    and ds: "se_dropouts e \<noteq> []" and snd: "se_sender e \<noteq> None" and pat: "pattern_ok e"
    and rl: "se_rate_limiter e \<noteq> None" and clocks: "\<forall>c \<in> set clocks. passes_deadlines c"
  defines "first \<equiv> of_bytes T (take (sizeof_rdt T) (fs_input_buffer b))"
  defines "ts0 \<equiv> (if se_t0_now e then 625 * clock_us div 10 else get_timestamp R first)"
  shows "\<exists>l l' e' evs. produce_begin R T clock_us e = Inr l \<and>
           produce_rounds R T send_ok (fs_input_buffer b) clocks (l, e) = Some (Inr (l', e')) \<and>
           se_events e' = se_events e @ evs \<and>
           se_packet_count e' = se_packet_count e + of_nat (length evs) \<and>
           se_packet_count_tot e' = se_packet_count_tot e + of_nat (length evs) \<and>
           list_all2 (\<lambda>(m, t) ev. dressed T e (fs_input_buffer b) m t (packet_of ev))
             (expected_packets (se_dropouts e) (unat (fs_element_count b)) (unat (se_frames_per_tick e))
                (se_time_tick_diff e * get_num_frames R first) ts0 (length clocks * unat (se_frames_per_tick e))) evs"
proof -
  let ?l = "\<lparr>pl_offset = 0, pl_num_elem = fs_element_count b, pl_timestamp = ts0, pl_dropout_index = 0\<rparr>"
  have l: "produce_begin R T clock_us e = Inr ?l"
    using src source_element_ok [OF src(2,3)] by (simp add: produce_begin_def ts0_def first_def)
  have "replaying T (fs_input_buffer b) (fs_element_count b) (se_time_tick_diff e * get_num_frames R first) ts0 e
          (0 * unat (se_frames_per_tick e)) (?l, e)"
    using pat by (simp add: replaying_def used_slots_def expected_packets_def)
  from produce_rounds_replay [OF src(2,3) ds snd refl _ this, where R = R and send_ok = send_ok and clocks = clocks]
  show ?thesis using l rl clocks by (auto simp: first_def replaying_def)
qed

text \<open>One-byte elements whose byte is the timestamp, and a file of two of them.\<close>

definition byte_type :: "dummy_frame emulated_type" where
  "byte_type =
     \<lparr>sizeof_rdt = 1, of_bytes = (\<lambda>bs. \<lparr>timestamp = ucast (hd bs), another_key = 0, frame_data = []\<rparr>),
      fake_timestamps = (\<lambda>t _ p. p\<lparr>timestamp := t\<rparr>), fake_geoid = (\<lambda>_ _ _ p. p),
      fake_frame_errors = (\<lambda>_ p. p), fake_adc_pattern = (\<lambda>_ p. p)\<rparr>"

definition two_bytes :: file_source where
  "two_bytes = (make_file_source 100 1)\<lparr>fs_element_count := 2, fs_input_buffer := [10, 20]\<rparr>"

definition sample_emulator :: "dummy_frame source_emulator" where
  "sample_emulator = (new_source_emulator
      \<lparr>eb_error_bits = [], eb_error_occurrences = [], eb_no_error_occurrences = [], eb_error_bits_index = 0,
       eb_error_occurrences_index = 0, eb_no_error_occurrences_index = 0, eb_current_occurrence = 0,
       eb_occurrence_count = 0, eb_set_error_bits = True\<rparr> 0 16 (1/2) 1)
     \<lparr>se_sender := Some ''raw'', se_rate_limiter := Some (make_rl 5 0), se_file_source := Some two_bytes,
      se_dropouts := [True, False]\<rparr>"

lemma sample_emulator_sel [simp]:
  "se_sender sample_emulator = Some ''raw''" "se_rate_limiter sample_emulator = Some (make_rl 5 0)"
  "se_file_source sample_emulator = Some two_bytes" "se_dropouts sample_emulator = [True, False]"
  "pattern_ok sample_emulator" "se_frames_per_tick sample_emulator = 1" "se_time_tick_diff sample_emulator = 16"
  "se_t0_now sample_emulator = False" "se_events sample_emulator = []"
  "se_packet_count sample_emulator = 0" "se_packet_count_tot sample_emulator = 0"
  by (simp_all add: sample_emulator_def new_source_emulator_def pattern_ok_def)

lemma late_clock_passes: "passes_deadlines [0, - 1]"
proof -
  have "wait_until d [- 1] \<noteq> None" for d :: u64 by (simp add: not_less)
  then show ?thesis by (auto simp: passes_deadlines_def limit_rl_def Let_def split: option.splits)
qed

theorem emulator_replays_file_witness:
  "\<exists>l l' e' p1 p2. produce_begin (dummy_ops 16) byte_type 0 sample_emulator = Inr l \<and>
     produce_rounds (dummy_ops 16) byte_type (\<lambda>_. True) [10, 20] (replicate 3 [0, - 1]) (l, sample_emulator) =
       Some (Inr (l', e')) \<and>
     map packet_of (se_events e') = [p1, p2] \<and> timestamp p1 = 10 \<and> timestamp p2 = 42 \<and>
     se_packet_count e' = 2 \<and> se_packet_count_tot e' = 2"
proof -
  have two: "fs_element_count two_bytes = 2" "fs_input_buffer two_bytes = [10, 20]" "sizeof_rdt byte_type = 1"
    by (simp_all add: two_bytes_def byte_type_def)
  have first: "of_bytes byte_type [10] = \<lparr>timestamp = 10, another_key = 0, frame_data = []\<rparr>"
    by (simp add: byte_type_def)
  have ex: "expected_packets [True, False] 2 1 16 10 3 = [(0, 10), (1, 42)]"
    by (simp add: expected_packets_def used_slots_def slot_used_def upt_rec)
  have d: "dressed byte_type sample_emulator [10, 20] m t p \<Longrightarrow> timestamp p = t" for m t p
    by (auto simp: dressed_def byte_type_def Let_def)
  show ?thesis
    using emulator_replays_file [of sample_emulator two_bytes byte_type "replicate 3 [0, - 1]" "dummy_ops 16" 0 "\<lambda>_. True"]
      two first ex late_clock_passes
    by (fastforce simp: list_all2_Cons1 dest: d)
qed

section \<open>Configuring again\<close>

text \<open>
  \<open>scrap\<close> does not undo what \<open>conf\<close> derived: configuring an emulator again with the same
  parameters divides the waiting time between hits by the trigger primitive rate a second time
  and appends a second population of channels, so the emulated rate changes with every
  reconfiguration.
\<close>

theorem reconfiguration_rescales_wait:
  assumes conf: "conf_emulator T rnd no_bits env fs link emu e = Inr e1" and new: "\<not> se_is_configured e"
    and pat: "ec_generate_periodic_adc_pattern emu" "ec_divided_by_tp_rate emu = Some d"
  defines "cs \<equiv> map (\<lambda>i. draw_channel rnd (ds_source_id link) i mod 64) [0..<ec_random_population_size emu]"
  shows "\<exists>e2. conf_emulator T rnd no_bits env fs link emu (scrap_emulator e1) = Inr e2 \<and>
           se_time_to_wait e1 = d (se_time_to_wait e) \<and> se_time_to_wait e2 = d (d (se_time_to_wait e)) \<and>
           pg_channel (se_pattern_generator e2) = pg_channel (se_pattern_generator e) @ cs @ cs"
  using assms
  by (auto simp: conf_emulator_def scrap_emulator_def conf_pattern_def generate_pattern_def Let_def
      split: sum.splits)

definition sample_emulation_conf :: emulation_conf where
  "sample_emulation_conf =
     \<lparr>ec_set_t0 = False, ec_input_file_size_limit = 100, ec_data_file_name = ''frames.bin'',
      ec_random_population_size = 2, ec_generate_periodic_adc_pattern = True,
      ec_divided_by_tp_rate = Some (\<lambda>w. w div 2)\<rparr>"

definition sample_random :: emu_random where
  "sample_random = \<lparr>draw_dropout = (\<lambda>_. 1/2), draw_bits = (\<lambda>_. 0), draw_errors = (\<lambda>_. 0), draw_no_errors = (\<lambda>_. 0),
     draw_channel = (\<lambda>_ i. i)\<rparr>"

theorem reconfiguration_rescales_wait_witness:
  "\<exists>e1 e2. conf_emulator byte_type sample_random (se_error_bit_generator sample_emulator)
        sample_file_env
        [''frames.bin'' \<mapsto> [10, 20]] \<lparr>ds_source_id = 1, ds_crate_id = 0, ds_slot_id = 0, ds_stream_id = 0\<rparr>
        sample_emulation_conf sample_emulator = Inr e1 \<and>
      conf_emulator byte_type sample_random (se_error_bit_generator sample_emulator)
        sample_file_env
        [''frames.bin'' \<mapsto> [10, 20]] \<lparr>ds_source_id = 1, ds_crate_id = 0, ds_slot_id = 0, ds_stream_id = 0\<rparr>
        sample_emulation_conf (scrap_emulator e1) = Inr e2 \<and>
      se_time_to_wait e1 = 4884 \<and> se_time_to_wait e2 = 2442 \<and> pg_channel (se_pattern_generator e2) = [0, 1, 0, 1]"
proof -
  let ?link = "\<lparr>ds_source_id = 1, ds_crate_id = 0, ds_slot_id = 0, ds_stream_id = 0\<rparr>"
  let ?conf = "conf_emulator byte_type sample_random (se_error_bit_generator sample_emulator) sample_file_env
      [''frames.bin'' \<mapsto> [10, 20]] ?link sample_emulation_conf"
  have s: "\<not> se_is_configured sample_emulator" "se_time_to_wait sample_emulator = 9768"
      "pg_channel (se_pattern_generator sample_emulator) = []"
    by (simp_all add: sample_emulator_def new_source_emulator_def new_pattern_generator_def)
  obtain e1 where e1: "?conf sample_emulator = Inr e1"
    by (simp add: conf_emulator_def s read_source_def sample_file_env_def sample_emulation_conf_def make_file_source_def Let_def)
  have c: "ec_generate_periodic_adc_pattern sample_emulation_conf"
      "ec_divided_by_tp_rate sample_emulation_conf = Some (\<lambda>w. w div 2)"
      "ec_random_population_size sample_emulation_conf = 2"
    by (simp_all add: sample_emulation_conf_def)
  show ?thesis
    using reconfiguration_rescales_wait [OF e1 s(1) c(1,2)] e1 s(2,3) c(3)
    by (auto simp: sample_random_def upt_rec)
qed

end
