(* ===== verification/Module_Control.thy ===== *)
theory Module_Control
  imports Data_Contract Source_Emulator
begin

text \<open>
  The two module bases that run commands on the models. \<open>FakeCardReaderBase\<close> (FakeCardReaderBase.hpp
  and its detail file) owns a map of source emulators, one per output queue;
  \<open>RawDataHandlerBase\<close> (RawDataHandlerBase.hpp and its detail file) owns one data handling model.
  Both call their models through a concept: the records \<open>emulator_ops\<close> and \<open>handling_ops\<close>. A command
  that throws keeps what it did before, so commands return the fault, if any, and the new state.
\<close>

section \<open>The source emulator concept\<close>

record 'e emulator_ops =
  emu_set_sender :: "string \<Rightarrow> 'e \<Rightarrow> 'e"
  emu_conf :: "detector_stream option \<Rightarrow> emulation_conf \<Rightarrow> 'e \<Rightarrow> fault option \<times> 'e"
  emu_is_configured :: "'e \<Rightarrow> bool"
  emu_start :: "'e \<Rightarrow> 'e"
  emu_stop :: "'e \<Rightarrow> 'e"
  emu_scrap :: "'e \<Rightarrow> 'e"

text \<open>What the reader relies on: only \<open>conf\<close> and \<open>scrap\<close> change whether an emulator is configured.\<close>

locale emulator_concept =
  fixes C :: "'e emulator_ops"
  assumes set_sender_configured: "emu_is_configured C (emu_set_sender C q e) = emu_is_configured C e"
    and start_configured: "emu_is_configured C (emu_start C e) = emu_is_configured C e"
    and stop_configured: "emu_is_configured C (emu_stop C e) = emu_is_configured C e"
    and scrap_configured: "\<not> emu_is_configured C (emu_scrap C e)"
    and conf_configures: "emu_conf C st p e = (None, e') \<Longrightarrow> emu_is_configured C e'"
    and conf_failed: "emu_conf C st p e = (Some f, e') \<Longrightarrow> emu_is_configured C e' = emu_is_configured C e"

text \<open>
  The source emulator. What a failed configuration has set already is set again by the next one,
  so the emulator is left as it was. A missing stream is a null pointer.
\<close>

definition SourceEmulatorModel ::
  "'a emulated_type \<Rightarrow> emu_random \<Rightarrow> error_bit_generator \<Rightarrow> file_env \<Rightarrow> files \<Rightarrow> u64 \<Rightarrow> u64 \<Rightarrow>
   'a source_emulator emulator_ops" where
  "SourceEmulatorModel T rnd no_bits env fs period now =
     \<lparr>emu_set_sender = set_sender,
      emu_conf = (\<lambda>stream p e.
        if se_is_configured e then (None, e)
        else case stream of
               None \<Rightarrow> (Some NullDeref, e)
             | Some link \<Rightarrow>
                 (case conf_emulator T rnd no_bits env fs link p e of
                    Inl f \<Rightarrow> (Some f, e)
                  | Inr e' \<Rightarrow> (None, e'))),
      emu_is_configured = se_is_configured, emu_start = start_emulator period now, emu_stop = stop_emulator,
      emu_scrap = scrap_emulator\<rparr>"

lemma conf_emulator_configured: "conf_emulator T rnd no_bits env fs link p e = Inr e' \<Longrightarrow> se_is_configured e'"
  by (auto simp: conf_emulator_def Let_def split: sum.splits if_splits)

interpretation emulator: emulator_concept "SourceEmulatorModel T rnd no_bits env fs period now"
  by unfold_locales
    (auto simp: SourceEmulatorModel_def set_sender_def start_emulator_def stop_emulator_def scrap_emulator_def
      split: if_splits option.splits sum.splits dest: conf_emulator_configured)

section \<open>The fake card reader\<close>

text \<open>\<open>std::map\<close> from queue names to emulators, in the order of the names; \<open>None\<close> is a null pointer.\<close>

type_synonym 'e emulator_map = "(string \<times> 'e option) list"

definition put_emulator :: "string \<Rightarrow> 'e option \<Rightarrow> 'e emulator_map \<Rightarrow> 'e emulator_map" where
  "put_emulator k v m =
     (if map_of m k = None then insort_key fst (k, v) m else map (\<lambda>p. if fst p = k then (k, v) else p) m)"

record 'e card_reader =
  cr_configured :: bool
  cr_source_emus :: "'e emulator_map"
  cr_run_marker :: bool

definition new_card_reader :: "'e card_reader" where
  "new_card_reader = \<lparr>cr_configured = False, cr_source_emus = [], cr_run_marker = False\<rparr>"

text \<open>
  \<open>init\<close> in emulation mode creates an emulator per output, with \<open>create\<close>, which the final module
  implements; every issue becomes a \<open>ResourceQueueError\<close>.
\<close>

fun init_emulators ::
  "'e emulator_ops \<Rightarrow> (string \<Rightarrow> 'e option) \<Rightarrow> string list \<Rightarrow> 'e emulator_map \<Rightarrow> fault option \<times> 'e emulator_map" where
  "init_emulators C create [] m = (None, m)"
| "init_emulators C create (q # qs) m =
     (if map_of m q \<noteq> None then (Some ResourceQueueError, m)
      else case create q of
             None \<Rightarrow> (Some ResourceQueueError, put_emulator q None m)
           | Some e \<Rightarrow> init_emulators C create qs (put_emulator q (Some (emu_set_sender C q e)) m))"

definition init_reader ::
  "'e emulator_ops \<Rightarrow> (string \<Rightarrow> 'e option) \<Rightarrow> bool \<Rightarrow> string list \<Rightarrow> 'e card_reader \<Rightarrow> fault option \<times> 'e card_reader" where
  "init_reader C create emulation_mode outputs r =
     (if \<not> emulation_mode then (None, r)
      else case init_emulators C create outputs (cr_source_emus r) of (f, m) \<Rightarrow> (f, r\<lparr>cr_source_emus := m\<rparr>))"

text \<open>
  An output is its name and source id, or \<open>None\<close> when it is not a queue with a source id. The
  streams of all connections by source id.
\<close>

record reader_conf =
  rdc_streams :: "detector_stream list"
  rdc_outputs :: "(string \<times> u32) option list"
  rdc_emulation :: emulation_conf

definition find_stream :: "detector_stream list \<Rightarrow> u32 \<Rightarrow> detector_stream option" where
  "find_stream streams sid = find (\<lambda>st. ds_source_id st = sid) (rev streams)"

fun conf_outputs ::
  "'e emulator_ops \<Rightarrow> reader_conf \<Rightarrow> (string \<times> u32) option list \<Rightarrow> 'e emulator_map \<Rightarrow> fault option \<times> 'e emulator_map" where
  "conf_outputs C cfg [] m = (None, m)"
| "conf_outputs C cfg (None # os) m = (Some FailedFakeCardInitialization, m)"
| "conf_outputs C cfg (Some (q, sid) # os) m =
     (case map_of m q of
        None \<Rightarrow> (Some GenericConfigurationError, m)
      | Some None \<Rightarrow> (Some NullDeref, m)
      | Some (Some e) \<Rightarrow>
          if emu_is_configured C e then (Some GenericConfigurationError, m)
          else case emu_conf C (find_stream (rdc_streams cfg) sid) (rdc_emulation cfg) e of
                 (Some f, e') \<Rightarrow> (Some f, put_emulator q (Some e') m)
               | (None, e') \<Rightarrow> conf_outputs C cfg os (put_emulator q (Some e') m))"

text \<open>The check after the loop, in the order of the map.\<close>

fun check_configured :: "'e emulator_ops \<Rightarrow> 'e emulator_map \<Rightarrow> fault option" where
  "check_configured C [] = None"
| "check_configured C ((k, None) # m) = Some NullDeref"
| "check_configured C ((k, Some e) # m) =
     (if \<not> emu_is_configured C e then Some GenericConfigurationError else check_configured C m)"

definition conf_reader :: "'e emulator_ops \<Rightarrow> reader_conf \<Rightarrow> 'e card_reader \<Rightarrow> fault option \<times> 'e card_reader" where
  "conf_reader C cfg r =
     (if cr_configured r then (None, r)
      else case conf_outputs C cfg (rdc_outputs cfg) (cr_source_emus r) of
             (Some f, m) \<Rightarrow> (Some f, r\<lparr>cr_source_emus := m\<rparr>)
           | (None, m) \<Rightarrow>
               case check_configured C m of
                 Some f \<Rightarrow> (Some f, r\<lparr>cr_source_emus := m\<rparr>)
               | None \<Rightarrow> (None, r\<lparr>cr_source_emus := m, cr_configured := True\<rparr>))"

text \<open>Calling every emulator; a null pointer ends the loop.\<close>

fun for_emulators :: "('e \<Rightarrow> 'e) \<Rightarrow> 'e emulator_map \<Rightarrow> fault option \<times> 'e emulator_map" where
  "for_emulators f [] = (None, [])"
| "for_emulators f ((k, None) # m) = (Some NullDeref, (k, None) # m)"
| "for_emulators f ((k, Some e) # m) = (case for_emulators f m of (r, m') \<Rightarrow> (r, (k, Some (f e)) # m'))"

definition scrap_reader :: "'e emulator_ops \<Rightarrow> 'e card_reader \<Rightarrow> fault option \<times> 'e card_reader" where
  "scrap_reader C r =
     (case for_emulators (emu_scrap C) (cr_source_emus r) of
        (Some f, m) \<Rightarrow> (Some f, r\<lparr>cr_source_emus := m\<rparr>)
      | (None, m) \<Rightarrow> (None, r\<lparr>cr_source_emus := m, cr_configured := False\<rparr>))"

definition start_reader :: "'e emulator_ops \<Rightarrow> 'e card_reader \<Rightarrow> fault option \<times> 'e card_reader" where
  "start_reader C r =
     (case for_emulators (emu_start C) (cr_source_emus r) of
        (f, m) \<Rightarrow> (f, r\<lparr>cr_source_emus := m, cr_run_marker := True\<rparr>))"

definition stop_reader :: "'e emulator_ops \<Rightarrow> 'e card_reader \<Rightarrow> fault option \<times> 'e card_reader" where
  "stop_reader C r =
     (case for_emulators (emu_stop C) (cr_source_emus r) of
        (f, m) \<Rightarrow> (f, r\<lparr>cr_source_emus := m, cr_run_marker := False\<rparr>))"

section \<open>The data handler module\<close>

text \<open>
  The data handling concept: the commands of the model behind the module. Commands take the JSON
  arguments (\<open>'g\<close>).
\<close>

record ('m, 'g) handling_ops =
  dhc_conf :: "'g \<Rightarrow> 'm \<Rightarrow> fault + 'm"
  dhc_scrap :: "'g \<Rightarrow> 'm \<Rightarrow> fault + 'm"
  dhc_start :: "'g \<Rightarrow> 'm \<Rightarrow> fault + 'm"
  dhc_stop :: "'g \<Rightarrow> 'm \<Rightarrow> fault + 'm"
  dhc_record :: "'g \<Rightarrow> 'm \<Rightarrow> fault + 'm"

record 'm raw_data_handler =
  rdh_configured :: bool
  rdh_run_number :: u32
  rdh_readout_impl :: "'m option"
  rdh_run_marker :: bool

definition new_raw_data_handler :: "u32 \<Rightarrow> 'm raw_data_handler" where
  "new_raw_data_handler unset_run =
     \<lparr>rdh_configured = False, rdh_run_number = unset_run, rdh_readout_impl = None, rdh_run_marker = False\<rparr>"

text \<open>\<open>modconf\<close> is the module's configuration, if there is one, \<open>create\<close> what the final module implements.\<close>

definition init_rdh :: "'k option \<Rightarrow> ('k \<Rightarrow> 'm option) \<Rightarrow> 'm raw_data_handler \<Rightarrow> fault option \<times> 'm raw_data_handler" where
  "init_rdh modconf create r =
     (case modconf of
        None \<Rightarrow> (Some FailedReadoutInitialization, r)
      | Some k \<Rightarrow>
          let r = r\<lparr>rdh_readout_impl := create k\<rparr>
          in if rdh_readout_impl r = None then (Some FailedReadoutInitialization, r) else (None, r))"

text \<open>A call of the model: its exceptions pass through, and so does the null pointer before \<open>init\<close>.\<close>

definition call_impl :: "('m \<Rightarrow> fault + 'm) \<Rightarrow> 'm raw_data_handler \<Rightarrow> fault option \<times> 'm raw_data_handler" where
  "call_impl f r =
     (case rdh_readout_impl r of
        None \<Rightarrow> (Some NullDeref, r)
      | Some m \<Rightarrow> (case f m of Inl e \<Rightarrow> (Some e, r) | Inr m' \<Rightarrow> (None, r\<lparr>rdh_readout_impl := Some m'\<rparr>)))"

definition do_conf_rdh :: "('m, 'g) handling_ops \<Rightarrow> 'g \<Rightarrow> 'm raw_data_handler \<Rightarrow> fault option \<times> 'm raw_data_handler" where
  "do_conf_rdh C args r =
     (case call_impl (dhc_conf C args) r of
        (None, r) \<Rightarrow> (None, r\<lparr>rdh_configured := True\<rparr>)
      | (Some f, r) \<Rightarrow> (Some f, r))"

definition do_scrap_rdh :: "('m, 'g) handling_ops \<Rightarrow> 'g \<Rightarrow> 'm raw_data_handler \<Rightarrow> fault option \<times> 'm raw_data_handler" where
  "do_scrap_rdh C args r =
     (case call_impl (dhc_scrap C args) r of
        (None, r) \<Rightarrow> (None, r\<lparr>rdh_configured := False\<rparr>)
      | (Some f, r) \<Rightarrow> (Some f, r))"

text \<open>\<open>start_params\<close> reads the run number from the arguments, with generated code that may throw.\<close>

definition do_start_rdh ::
  "('m, 'g) handling_ops \<Rightarrow> ('g \<Rightarrow> u32 option) \<Rightarrow> 'g \<Rightarrow> 'm raw_data_handler \<Rightarrow> fault option \<times> 'm raw_data_handler" where
  "do_start_rdh C start_params args r =
     (case call_impl (dhc_start C args) (r\<lparr>rdh_run_marker := True\<rparr>) of
        (Some f, r) \<Rightarrow> (Some f, r)
      | (None, r) \<Rightarrow>
          (case start_params args of
             None \<Rightarrow> (Some StartParametersMissing, r)
           | Some run \<Rightarrow> (None, r\<lparr>rdh_run_number := run\<rparr>)))"

definition do_stop_rdh :: "('m, 'g) handling_ops \<Rightarrow> 'g \<Rightarrow> 'm raw_data_handler \<Rightarrow> fault option \<times> 'm raw_data_handler" where
  "do_stop_rdh C args r = call_impl (dhc_stop C args) (r\<lparr>rdh_run_marker := False\<rparr>)"

definition do_record_rdh :: "('m, 'g) handling_ops \<Rightarrow> 'g \<Rightarrow> 'm raw_data_handler \<Rightarrow> fault option \<times> 'm raw_data_handler" where
  "do_record_rdh C args r = call_impl (dhc_record C args) r"

text \<open>
  The data handling model behind the concept. Its arguments are the run number, if given (1
  otherwise), and the time of the command.
\<close>

definition record_dh :: "('b, 'q, 'a, 'f) data_handler \<Rightarrow> ('b, 'q, 'a, 'f) data_handler" where
  "record_dh s = s\<lparr>request_handler_impl := record_command (request_handler_impl s)\<rparr>"

definition DataHandlingModel ::
  "('b, 'a, 'i) lb_ops \<Rightarrow> ('q, 'a option) pcq_ops \<Rightarrow> file_env \<Rightarrow> ('b \<Rightarrow> fault + 'b) \<Rightarrow> (('b, 'q, 'a, 'f) data_handler, u32 option \<times> int) handling_ops"
where
  "DataHandlingModel L P fenv scrap_buffer =
     \<lparr>dhc_conf = (\<lambda>_ m. Inr m),
      dhc_scrap = (\<lambda>_. scrap_dh fenv scrap_buffer),
      dhc_start = (\<lambda>(run, now). start_dh (case run of None \<Rightarrow> 1 | Some n \<Rightarrow> n) now),
      dhc_stop = (\<lambda>_. stop_dh L P),
      dhc_record = (\<lambda>_ m. Inr (record_dh m))\<rparr>"

end
