(* ===== verification/Concurrent_Access.thy ===== *)
theory Concurrent_Access
  imports Latency_Buffer
begin

text \<open>
  Buffers that other threads change while a reader holds an iterator: receiving data appends
  elements, cleanup removes the oldest. The contracts say where an iterator stands afterwards
  (models/IterableQueueModel.hpp, \<open>Iterator\<close>); the ring buffer meets them.
\<close>

section \<open>Contracts\<close>

text \<open>
  An iterator keeps its position when elements are appended, so that one behind the newest element
  comes to stand at the first appended element, unless it is the end iterator, which stays the end.
\<close>

locale growing_buffer = fifo_buffer L lb_inv elements lb_pos
  for L :: "('b, 'a, 'i) lb_ops" and lb_inv elements lb_pos +
  assumes write_pos: "lb_inv b \<Longrightarrow> lb_pos b i k \<Longrightarrow> lb_write L x b = Inr (ok, b') \<Longrightarrow>
      lb_pos b' i k \<or> i = lb_end L b'"
    and end_same: "lb_end L b' = lb_end L b"

text \<open>
  Removing the oldest element moves every iterator one place; an iterator at that element then
  stands before the beginning: it is not good, and advancing it gives the end.
\<close>

locale concurrent_buffer = growing_buffer L lb_inv elements lb_pos
  for L :: "('b, 'a, 'i) lb_ops" and lb_inv elements lb_pos +
  fixes lb_before :: "'b \<Rightarrow> 'i \<Rightarrow> bool"
  assumes pop_pos: "lb_inv b \<Longrightarrow> lb_pos b i k \<Longrightarrow> elements b \<noteq> [] \<Longrightarrow> lb_pop L 1 b = Inr b' \<Longrightarrow>
      (if k = 0 then lb_before b' i else lb_pos b' i (k - 1))"
    and write_before: "lb_inv b \<Longrightarrow> lb_before b i \<Longrightarrow> lb_write L x b = Inr (ok, b') \<Longrightarrow> lb_before b' i"
    and before_not_good: "lb_inv b \<Longrightarrow> lb_before b i \<Longrightarrow> \<not> it_good L b i"
    and before_next: "lb_inv b \<Longrightarrow> lb_before b i \<Longrightarrow> it_next L b i = lb_end L b"

section \<open>The ring buffer\<close>

definition queue_before :: "'a iterable_queue \<Rightarrow> u32 \<Rightarrow> bool" where
  "queue_before q i \<longleftrightarrow> i < qsize q \<and> next_index (qsize q) i = readIndex q"

lemma write_q_indices:
  assumes "write_q x q = Inr (ok, q')"
  shows "readIndex q' = readIndex q" "qsize q' = qsize q"
  using assms by (auto simp: write_q_def Let_def bindE_eq_Inr_iff split: if_splits)

lemma popFront_indices:
  assumes "popFront q = Inr q'"
  shows "readIndex q' = next_index (qsize q) (readIndex q)" "qsize q' = qsize q"
  using assms by (auto simp: popFront_def Let_def bindE_eq_Inr_iff split: if_splits)

lemma queue_before_not_good:
  assumes "queue_inv q" and "queue_before q i"
  shows "\<not> good q i"
proof -
  have b: "i < qsize q" "readIndex q < qsize q" "writeIndex q < qsize q"
    using assms queue_bounds(1) [OF assms(1)]
    by (auto simp: queue_before_def word_less_nat_alt elim!: queue_inv_rep dest!: ring_repD (9))
  have "(unat i + 1) mod unat (qsize q) = unat (readIndex q)"
    using assms(2) unat_next_index [OF b(1)] by (simp add: queue_before_def)
  then show ?thesis using b
    by (auto simp: good_def Let_def word_less_nat_alt word_le_nat_alt mod_if split: if_splits)
qed

lemma queue_write_pos:
  assumes inv: "queue_inv q" and pos: "queue_pos q i k" and w: "write_q x q = Inr (ok, q')"
  shows "queue_pos q' i k \<or> i = end_iter"
proof -
  have "contents q' = (if ok then contents q @ [x] else contents q)" using queue_write_elements [OF inv, of x] w by auto
  then have "stored q \<le> stored q'" by (metis length_append le_add1 length_contents order_refl)
  then show ?thesis using pos write_q_indices [OF w] by (auto simp: queue_pos_def at_pos_def ring_slot_def)
qed

lemma queue_pop_pos:
  assumes inv: "queue_inv q" and pos: "queue_pos q i k" and ne: "contents q \<noteq> []" and p: "popFront q = Inr q'"
  shows "if k = 0 then queue_before q' i else queue_pos q' i (k - 1)"
proof -
  note bd = queue_bounds [OF inv]
  have r: "readIndex q < qsize q" using bd(1) by (simp add: word_less_nat_alt)
  note ix = popFront_indices [OF p]
  have "contents q' = tl (contents q)" using popFront_spec [OF inv ne] p by auto
  then have st: "stored q' = stored q - 1" by (metis length_contents length_tl)
  have c: "0 < stored q" using ne by (simp flip: length_contents)
  have slot: "ring_slot q' (k - 1) = ring_slot q k" if "k \<noteq> 0"
    using that unat_next_index [OF r] ix by (cases k) (simp_all add: ring_slot_def mod_simps)
  consider "at_pos q i k" | "i = end_iter" "k = stored q" using pos by (auto simp: queue_pos_def)
  then show ?thesis
  proof cases
    case 1
    then have "i = readIndex q" if "k = 0" using that bd(1) by (simp add: at_pos_def ring_slot_def word_unat_eq_iff)
    then show ?thesis using 1 slot st ix r by (auto simp: queue_before_def queue_pos_def at_pos_def)
  next
    case 2
    then show ?thesis using st c by (auto simp: queue_pos_def)
  qed
qed

interpretation concurrent_queue: concurrent_buffer "queue_lb_ops search" queue_inv contents queue_pos queue_before
proof (unfold_locales, goal_cases)
  case (1 b i k x ok b')
  then show ?case using queue_write_pos [of b i k x ok b'] by (auto simp: queue_lb_ops_def)
next
  case (2 b' b)
  then show ?case by (simp add: queue_lb_ops_def)
next
  case (3 b i k b')
  then have "popFront b = Inr b'" by (auto simp: queue_lb_ops_def bindE_eq_Inr_iff)
  then show ?case using queue_pop_pos [of b i k b'] 3 by simp
next
  case (4 b i x ok b')
  then show ?case using write_q_indices [of x b ok b'] by (auto simp: queue_lb_ops_def queue_before_def)
next
  case (5 b i)
  then show ?case using queue_before_not_good by (simp add: queue_lb_ops_def)
next
  case (6 b i)
  then show ?case using queue_before_not_good [of b i] by (simp add: queue_lb_ops_def iter_next_def)
qed

end
