(* ===== verification/Recording_Steps.thy ===== *)
theory Recording_Steps
  imports Recording_Contract Concurrent_Access
begin

text \<open>
  The recording task of the default request handler step by step
  (models/detail/DefaultRequestHandlerModel.hxx, \<open>record\<close>): reading the front, the search, the test of
  the iterator with the write of an element, and the advance of the iterator are steps between which
  data arrives and cleanup removes elements. Only the search excludes cleanup, which waits for it.
  Cleanup may remove the element under the iterator as soon as it is written; the round then ends.
\<close>

section \<open>Steps\<close>

text \<open>Where the task is, with the iterator and the number of elements written in the round.\<close>

datatype 'i rec_pc = Outside | Looking | At 'i nat | Past 'i nat

definition record_front :: "'a readout_ops \<Rightarrow> ('b, 'a, 'i) lb_ops \<Rightarrow> 'b \<Rightarrow> 'f request_handler \<Rightarrow> fault + 'f request_handler" where
  "record_front R L b h =
     (if next_timestamp_to_record h = 0
      then bindE (lb_front L b) (\<lambda>p. Inr (h\<lparr>next_timestamp_to_record := (case p of None \<Rightarrow> 0 | Some x \<Rightarrow> get_timestamp R x)\<rparr>))
      else Inr h)"

definition round_continues :: "('b, 'a, 'i) lb_ops \<Rightarrow> 'b \<Rightarrow> 'i \<Rightarrow> nat \<Rightarrow> bool" where
  "round_continues L b i n \<longleftrightarrow> i \<noteq> lb_end L b \<and> it_good L b i \<and> n < 1000"

inductive task_step ::
  "'a readout_ops \<Rightarrow> ('b, 'a, 'i) lb_ops \<Rightarrow> ('a, 'f) daq_env \<Rightarrow> file_env \<Rightarrow> 'b \<Rightarrow>
   'f request_handler \<times> 'i rec_pc \<Rightarrow> 'f request_handler \<times> 'i rec_pc \<Rightarrow> bool"
  for R L D fenv b where
  Front: "\<not> cleanup_requested h \<or> next_timestamp_to_record h = 0 \<Longrightarrow> record_front R L b h = Inr h' \<Longrightarrow>
     task_step R L D fenv b (h, Outside) (h', Looking)"
| Search: "lb_lower_bound L (set_timestamp R (next_timestamp_to_record h) (uninit_element R)) True b = Some (Inr i) \<Longrightarrow>
     task_step R L D fenv b (h, Looking) (h, At i 0)"
| Leave: "\<not> round_continues L b i n \<Longrightarrow> task_step R L D fenv b (h, At i n) (h, Outside)"
| Write: "round_continues L b i n \<Longrightarrow> it_deref L b i = Inr x \<Longrightarrow> next_timestamp_to_record h \<le> get_timestamp R x \<Longrightarrow>
     task_step R L D fenv b (h, At i n) (record_chunk R D fenv x h, Past i (n + 1))"
| Skip: "round_continues L b i n \<Longrightarrow> it_deref L b i = Inr x \<Longrightarrow> get_timestamp R x < next_timestamp_to_record h \<Longrightarrow>
     task_step R L D fenv b (h, At i n) (h, Past i n)"
| Advance: "task_step R L D fenv b (h, Past i n) (h, At (it_next L b i) n)"

inductive rec_small ::
  "'a readout_ops \<Rightarrow> ('b, 'a, 'i) lb_ops \<Rightarrow> ('a, 'f) daq_env \<Rightarrow> file_env \<Rightarrow>
   ('b \<times> 'f request_handler \<times> 'a list) \<times> 'i rec_pc \<Rightarrow> ('b \<times> 'f request_handler \<times> 'a list) \<times> 'i rec_pc \<Rightarrow> bool"
  for R L D fenv where
  ByOthers: "others_step R L (b, h, xs) (b', h', xs') \<Longrightarrow> rec_small R L D fenv ((b, h, xs), pc) ((b', h', xs'), pc)"
| ByTask: "task_step R L D fenv b (h, pc) (h', pc') \<Longrightarrow> rec_small R L D fenv ((b, h, xs), pc) ((b, h', xs), pc')"

inductive_cases rec_smallE: "rec_small R L D fenv ((b, h, xs), pc) ((b', h', xs'), pc')"

lemmas rec_small_cases = rec_smallE [consumes 1, case_names ByOthers ByTask]

inductive_cases task_stepE: "task_step R L D fenv b (h, pc) (h', pc')"

lemmas task_step_cases = task_stepE [consumes 1, case_names Front Search Leave Write Skip Advance]

lemmas rec_small_induct =
  rtranclp_induct [of _ "((ax, ay, az), apc)" "((bx, b1, bz), bpc)", split_rule, consumes 1, case_names refl step]

text \<open>A round of the task is a sequence of its steps.\<close>

lemma record_loop_steps:
  fixes h' :: "'f request_handler"
  assumes run: "record_loop R L D fenv b i n h = Some (Inr h')"
  shows "rtranclp (task_step R L D fenv b) (h, At i n) (h', Outside)"
proof -
  have "(R, L, D, fenv, b) = (R, L, D, fenv, b) \<longrightarrow> Inr h' = (Inr h' :: fault + 'f request_handler) \<longrightarrow>
        rtranclp (task_step R L D fenv b) (h, At i n) (h', Outside)"
  proof (rule record_loop.raw_induct [where P = "\<lambda>R' L' D' fenv' b' i n h y. (R', L', D', fenv', b') = (R, L, D, fenv, b) \<longrightarrow>
        y = Inr h' \<longrightarrow> rtranclp (task_step R L D fenv b) (h, At i n) (h', Outside)", OF _ run], intro impI)
    fix f R' L' D' fenv' b' i n h y
    assume IH: "\<And>R' L' D' fenv' b' i n h y. f R' L' D' fenv' b' i n h = Some y \<Longrightarrow> (R', L', D', fenv', b') = (R, L, D, fenv, b) \<longrightarrow>
          y = Inr h' \<longrightarrow> rtranclp (task_step R L D fenv b) (h, At i n) (h', Outside)"
      and body: "(if i = lb_end L' b' \<or> \<not> it_good L' b' i \<or> 1000 \<le> n then Some (Inr h)
         else case it_deref L' b' i of Inl f \<Rightarrow> Some (Inl f)
              | Inr x \<Rightarrow> if next_timestamp_to_record h \<le> get_timestamp R' x
                  then f R' L' D' fenv' b' (it_next L' b' i) (n + 1) (record_chunk R' D' fenv' x h)
                  else f R' L' D' fenv' b' (it_next L' b' i) n h) = Some y"
      and eq: "(R', L', D', fenv', b') = (R, L, D, fenv, b)" and y: "y = Inr h'"
    have onward: "rtranclp (task_step R L D fenv b) (h1, Past i n1) (h', Outside)"
      if "f R L D fenv b (it_next L b i) n1 h1 = Some y" for n1 h1
      using converse_rtranclp_into_rtranclp [of "task_step R L D fenv b", OF Advance] IH [OF that] y by simp
    show "rtranclp (task_step R L D fenv b) (h, At i n) (h', Outside)"
    proof (cases "round_continues L b i n")
      case True
      then obtain x where x: "it_deref L b i = Inr x" using body eq y by (cases "it_deref L b i") (auto simp: round_continues_def)
      show ?thesis
      proof (cases "next_timestamp_to_record h \<le> get_timestamp R x")
        case le: True
        then have "f R L D fenv b (it_next L b i) (n + 1) (record_chunk R D fenv x h) = Some y"
          using body eq x True by (simp add: round_continues_def)
        from onward [OF this] show ?thesis using Write [OF True x le] by (rule converse_rtranclp_into_rtranclp [rotated])
      next
        case False
        then have "f R L D fenv b (it_next L b i) n h = Some y" using body eq x True by (simp add: round_continues_def)
        from onward [OF this] show ?thesis
          using converse_rtranclp_into_rtranclp [of "task_step R L D fenv b", OF Skip [OF True x]] False by simp
      qed
    next
      case False
      then have "h = h'" using body eq y by (auto simp: round_continues_def split: if_splits)
      then show ?thesis using Leave [OF False, of R D fenv h] by blast
    qed
  qed
  then show ?thesis by simp
qed

lemma record_round_steps:
  assumes run: "record_round R L D fenv b h = Some (Inr h')" and idle: "\<not> cleanup_requested h"
  shows "rtranclp (task_step R L D fenv b) (h, Outside) (h', Outside)"
proof -
  obtain h1 where front: "record_front R L b h = Inr h1" 
    and looked: "(case lb_lower_bound L (set_timestamp R (next_timestamp_to_record h1) (uninit_element R)) True b of
        None \<Rightarrow> None | Some (Inl f) \<Rightarrow> Some (Inl f) | Some (Inr i) \<Rightarrow> record_loop R L D fenv b i 0 h1) = Some (Inr h')"
    using run idle by (auto simp: record_round_def record_front_def Let_def bindE_def split: if_splits sum.splits)
  then obtain i where i: "lb_lower_bound L (set_timestamp R (next_timestamp_to_record h1) (uninit_element R)) True b = Some (Inr i)"
      "record_loop R L D fenv b i 0 h1 = Some (Inr h')" by (auto split: option.splits sum.splits)
  show ?thesis
    using Front [of h R L b h1 D fenv] Search [OF i(1), of D fenv] record_loop_steps [OF i(2)] front idle
    by (meson converse_rtranclp_into_rtranclp)
qed

section \<open>Iterators while others work\<close>

context concurrent_buffer
begin

lemma pop_loop_pos:
  "pop_loop R L t n popped b = Inr (count, b') \<Longrightarrow> lb_inv b \<Longrightarrow>
   \<exists>j \<le> length (elements b). elements b' = drop j (elements b) \<and> lb_inv b' \<and> (j = 0 \<longrightarrow> b' = b) \<and>
     (\<forall>i k. lb_pos b i k \<longrightarrow> (j \<le> k \<longrightarrow> lb_pos b' i (k - j)) \<and> (j = k + 1 \<longrightarrow> lb_before b' i))"
proof (induction n arbitrary: b popped)
  case (Suc n)
  show ?case
  proof (cases "elements b")
    case (Cons x xs)
    then have ft: "front_timestamp R L b = Inr (get_timestamp R x)"
      using front_elements [OF Suc.prems(2)] by (simp add: front_timestamp_def)
    obtain b1 where b1: "lb_pop L 1 b = Inr b1" "lb_inv b1" "elements b1 = xs"
      using pop_elements [OF Suc.prems(2), of 1] Cons by auto
    show ?thesis
    proof (cases "get_timestamp R x < t")
      case True
      then have "pop_loop R L t n (popped + 1) b1 = Inr (count, b')" using Suc.prems(1) ft b1(1) by simp
      from Suc.IH [OF this b1(2)] obtain j where j: "j \<le> length xs" "elements b' = drop j xs" "lb_inv b'" "j = 0 \<longrightarrow> b' = b1"
          "\<forall>i k. lb_pos b1 i k \<longrightarrow> (j \<le> k \<longrightarrow> lb_pos b' i (k - j)) \<and> (j = k + 1 \<longrightarrow> lb_before b' i)"
        using b1(3) by auto
      have "(Suc j \<le> k \<longrightarrow> lb_pos b' i (k - Suc j)) \<and> (Suc j = k + 1 \<longrightarrow> lb_before b' i)" if "lb_pos b i k" for i k
        using pop_pos [OF Suc.prems(2) that _ b1(1)] Cons j(4,5) by (cases k) auto
      then show ?thesis using Cons j by (intro exI [of _ "Suc j"]) simp
    next
      case False
      then show ?thesis using Suc.prems ft by (intro exI [of _ 0]) simp
    qed
  qed (use Suc.prems front_elements [OF Suc.prems(2)] in \<open>simp add: front_timestamp_def\<close>)
qed (intro exI [of _ 0], simp)

text \<open>Where an iterator stands after a step of the others that has removed \<open>j\<close> elements.\<close>

lemma others_pos:
  assumes step: "others_step R L (b, h, xs) (b', h', xs')" and inv: "lb_inv b" and idle: "\<not> cleanup_requested h"
    and els: "elements b = drop p xs" "elements b' = drop (p + j) xs'" and p: "p + j \<le> length xs"
    and pos: "lb_pos b i k"
  shows "j \<le> k \<Longrightarrow> lb_pos b' i (k - j) \<or> i = lb_end L b'"
    and "j = k + 1 \<Longrightarrow> lb_before b' i"
proof -
  have "(j \<le> k \<longrightarrow> lb_pos b' i (k - j) \<or> i = lb_end L b') \<and>
        (j = k + 1 \<longrightarrow> lb_before b' i)"
    using step
  proof (cases rule: others_step_cases)
    case (Stored x)
    then have "elements b' = elements b @ [x]" using write_elements [OF inv, of x] by auto
    then have "length (drop (p + j) (xs @ [x])) = length (drop p (xs @ [x]))" using els Stored p by simp
    then have "j = 0" using p by auto
    then show ?thesis using write_pos [OF inv pos Stored(1)] by simp
  next
    case (Refused x)
    then have "elements b' = elements b" using write_elements [OF inv, of x] by auto
    then have "length (drop (p + j) xs) = length (drop p xs)" using els Refused by simp
    then have "j = 0" using p by auto
    then show ?thesis using write_pos [OF inv pos Refused(1)] by simp
  next
    case CleanedUp
    show ?thesis
    proof (cases "lb_occupancy L b > ucast (pop_limit_size h)")
      case True
      obtain n count where "pop_loop R L (next_timestamp_to_record h) n 0 b = Inr (count, b')"
        using CleanedUp(2) idle True by (auto simp: cleanup_check_def cleanup_rh_def Let_def bindE_def split: sum.splits)
      from pop_loop_pos [OF this inv] obtain l where l: "l \<le> length (elements b)" "elements b' = drop l (elements b)"
          "\<forall>i k. lb_pos b i k \<longrightarrow> (l \<le> k \<longrightarrow> lb_pos b' i (k - l)) \<and> (l = k + 1 \<longrightarrow> lb_before b' i)" by blast
      have "length (drop (p + j) xs) = length (drop (p + l) xs)" using l(2) els CleanedUp(1) by (simp add: add.commute)
      then have "l = j" using l(1) els(1) p by auto
      then show ?thesis using l(3) pos by auto
    next
      case False
      then have "b' = b" using CleanedUp(2) by (simp add: cleanup_check_def)
      then have "length (drop (p + j) xs) = length (drop p xs)" using els CleanedUp(1) by simp
      then have "j = 0" using p by auto
      then show ?thesis using \<open>b' = b\<close> pos by simp
    qed
  qed
  then show "j \<le> k \<Longrightarrow> lb_pos b' i (k - j) \<or> i = lb_end L b'"
      "j = k + 1 \<Longrightarrow> lb_before b' i" by blast+
qed

lemma others_before:
  assumes step: "others_step R L (b, h, xs) (b', h', xs')" and inv: "lb_inv b" and idle: "\<not> cleanup_requested h"
    and els: "length (elements b) \<le> length (elements b')" and before: "lb_before b i"
  shows "lb_before b' i"
  using step
proof (cases rule: others_step_cases)
  case CleanedUp
  show ?thesis
  proof (cases "lb_occupancy L b > ucast (pop_limit_size h)")
    case True
    obtain n count where "pop_loop R L (next_timestamp_to_record h) n 0 b = Inr (count, b')"
      using CleanedUp(2) idle True by (auto simp: cleanup_check_def cleanup_rh_def Let_def bindE_def split: sum.splits)
    from pop_loop_pos [OF this inv] obtain l where "l \<le> length (elements b)" "elements b' = drop l (elements b)" "l = 0 \<longrightarrow> b' = b"
      by blast
    then show ?thesis using els before by auto
  next
    case False
    then show ?thesis using CleanedUp(2) before by (simp add: cleanup_check_def)
  qed
qed (use write_before [OF inv before] in blast)+

end

section \<open>What the task knows\<close>

text \<open>
  The iterator stands at the first element that is not written or is the end; after a write it
  stands at the element just written, which cleanup may have removed.
\<close>

fun at_work :: "('b, 'a, 'i) lb_ops \<Rightarrow> ('b \<Rightarrow> 'i \<Rightarrow> nat \<Rightarrow> bool) \<Rightarrow> ('b \<Rightarrow> 'i \<Rightarrow> bool) \<Rightarrow> nat \<Rightarrow> nat \<Rightarrow> 'b \<Rightarrow> 'i rec_pc \<Rightarrow> bool" where
  "at_work L lb_pos lb_before p m b (At i n) \<longleftrightarrow> i = lb_end L b \<or> (\<exists>k. lb_pos b i k \<and> p + k = m)"
| "at_work L lb_pos lb_before p m b (Past i n) \<longleftrightarrow> (\<exists>k. lb_pos b i k \<and> p + k + 1 = m) \<or> lb_before b i \<and> p = m"
| "at_work L lb_pos lb_before p m b _ \<longleftrightarrow> True"

locale concurrent_recordable =
  recordable_buffer L lb_inv elements lb_pos R search_ready + concurrent_buffer L lb_inv elements lb_pos lb_before
  for L :: "('b, 'a, 'i) lb_ops" and lb_inv elements lb_pos and R :: "'a readout_ops" and search_ready lb_before +
  assumes below_end: "lb_inv b \<Longrightarrow> search_ready True (elements b) \<Longrightarrow> elements b \<noteq> [] \<Longrightarrow>
      get_timestamp R e < get_timestamp R (hd (elements b)) \<Longrightarrow> lb_lower_bound L e True b = Some (Inr (lb_end L b))"
begin

abbreviation working where
  "working D h0 p m s pc \<equiv> following lb_inv elements R D h0 p m s \<and> at_work L lb_pos lb_before p m (fst s) pc"

lemma working_others:
  assumes step: "others_step R L (b, h, xs) (b', h', xs')" and work: "working D h0 p m (b, h, xs) pc" and gap: "gapless R xs"
  shows "\<exists>p. working D h0 p m (b', h', xs') pc"
proof -
  have fol: "following lb_inv elements R D h0 p m (b, h, xs)" and at: "at_work L lb_pos lb_before p m b pc" using work by simp_all
  have held: "held lb_inv elements p m b xs" and idle: "\<not> cleanup_requested h" and rec: "recorded R D h0 m h xs"
    using fol by (auto simp: following_def recorded_def)
  have prot: "j < m" if "j < length xs" "get_timestamp R (xs ! j) < next_timestamp_to_record h" for j
    using following_next [OF fol gap that(1)] that(2) by simp
  note kept = others_held [OF step held prot idle]
  obtain p' where p': "p \<le> p'" "held lb_inv elements p' m b' xs'" using kept(3) by blast
  obtain ys where ys: "xs' = xs @ ys" using kept(2) by blast
  have "recorded R D h0 m h' xs'"
    using rec kept(1) ys by (auto simp: recorded_def same_recording_def stream_next_append writable_def same_sink_def)
  then have fol': "following lb_inv elements R D h0 p' m (b', h', xs')" using p'(2) by (simp add: following_def)
  obtain j where j: "p' = p + j" using p'(1) le_Suc_ex by blast
  have els: "elements b = drop p xs" "elements b' = drop (p + j) xs'" "p + j \<le> length xs" "p + j \<le> m" and inv: "lb_inv b"
    using held p'(2) j by (auto simp: held_def)
  note pos = others_pos [OF step inv idle els(1-3)]
  have "at_work L lb_pos lb_before p' m b' pc"
  proof (cases pc)
    case (At i n)
    then consider "i = lb_end L b" | k where "lb_pos b i k" "p + k = m" using at by auto
    then show ?thesis
    proof cases
      case 1
      then show ?thesis using At end_same by simp
    next
      case 2
      then have "lb_pos b' i (k - j) \<or> i = lb_end L b'" using pos(1) [OF 2(1)] els(4) by simp
      then show ?thesis using At 2(2) j els(4) by auto
    qed
  next
    case (Past i n)
    then consider k where "lb_pos b i k" "p + k + 1 = m" | "lb_before b i" "p = m" using at by auto
    then show ?thesis
    proof cases
      case 1
      have "k < length (elements b)" using 1(2) held els(1) by (auto simp: held_def)
      then have "i \<noteq> lb_end L b'" using good_pos [OF inv 1(1)] end_not_good end_same [of b' b] by auto
      then have "j \<le> k \<Longrightarrow> lb_pos b' i (k - j)" using pos(1) [OF 1(1)] by blast
      moreover have "j = k + 1 \<Longrightarrow> lb_before b' i" using pos(2) [OF 1(1)] .
      moreover have "j \<le> k \<or> j = k + 1" using 1(2) els(4) by linarith
      ultimately show ?thesis using Past 1(2) j by auto
    next
      case 2
      then have "length (elements b) \<le> length (elements b')" using els ys by simp
      then show ?thesis using Past 2 others_before [OF step inv idle _ 2(1)] els(4) j by simp
    qed
  qed simp_all
  then show ?thesis using fol' by auto
qed

text \<open>The search ends at the first element that is not written.\<close>

lemma working_search:
  assumes fol: "following lb_inv elements R D h0 p m (b, h, xs)" and gap: "gapless R xs" and keys: "keys_least R xs"
  shows "\<exists>i. lb_lower_bound L (set_timestamp R (next_timestamp_to_record h) (uninit_element R)) True b = Some (Inr i) \<and>
           (i = lb_end L b \<or> (\<exists>k. lb_pos b i k \<and> p + k = m))"
proof -
  let ?n = "next_timestamp_to_record h"
  let ?e = "set_timestamp R ?n (uninit_element R)"
  have inv: "lb_inv b" and els: "elements b = drop p xs" and p: "p \<le> m" "m \<le> length xs" "xs \<noteq> [] \<Longrightarrow> p < length xs"
    and rec: "recorded R D h0 m h xs" using fol by (auto simp: following_def held_def)
  have ready: "search_ready True (elements b)"
    using ready_with_errors [OF gapless_ts_sorted [OF gapless_drop [OF gap, of p]]] els by simp
  have ts: "get_timestamp R ?e = ?n" by (rule get_set_timestamp)
  show ?thesis
  proof (cases "xs = []")
    case True
    then show ?thesis using lower_bound_empty [OF inv, of ?e] els p by auto
  next
    case ne: False
    then have els_ne: "elements b \<noteq> []" and hd: "hd (elements b) = xs ! p" using els p hd_drop_conv_nth [of p xs] by auto
    show ?thesis
    proof (cases "?n = stream_next R xs m")
      case True
      note found = next_found [OF gap keys p(1) p(3) [OF ne] p(2)]
      obtain i where i: "lb_lower_bound L ?e True b = Some (Inr i)" "lb_pos b i (m - p)"
        using lower_bound_pos [OF inv ready els_ne, of ?e] found True ts els by auto
      have "\<exists>k. lb_pos b i k \<and> p + k = m" using i(2) p(1) by (intro exI [of _ "m - p"]) simp
      then show ?thesis using i(1) by blast
    next
      case False
      then have z: "m = 0" "?n = 0" using rec by (auto simp: recorded_def)
      then have "0 < get_timestamp R (hd (elements b))" using False hd p by (simp add: stream_next_def word_gt_0)
      then show ?thesis using below_end [OF inv ready els_ne, of ?e] ts z by simp
    qed
  qed
qed

text \<open>An element the task reads is the first that is not written.\<close>

lemma working_reads:
  assumes "at_work L lb_pos lb_before p m b (At i n)" and "round_continues L b i n" and x: "it_deref L b i = Inr x"
    and fol: "following lb_inv elements R D h0 p m (b, h, xs)"
  shows "x = xs ! m" and "m < length xs" and "\<exists>k. lb_pos b i k \<and> p + k = m"
proof -
  have inv: "lb_inv b" and els: "elements b = drop p xs" using fol by (auto simp: following_def held_def)
  obtain k where k: "lb_pos b i k" "p + k = m" using assms(1,2) by (auto simp: round_continues_def)
  then have "k < length (elements b)" using good_pos [OF inv k(1)] assms(2) by (simp add: round_continues_def)
  then show "x = xs ! m" "m < length xs" using deref_pos [OF inv k(1)] x els k(2) by auto
  show "\<exists>k. lb_pos b i k \<and> p + k = m" using k by blast
qed

lemma working_task:
  assumes step: "task_step R L D fenv b (h, pc) (h', pc')" and work: "working D h0 p m (b, h, xs) pc"
    and gap: "gapless R xs" and keys: "keys_least R xs" and takes: "sink_takes fenv h0"
  shows "\<exists>m. working D h0 p m (b, h', xs) pc'"
proof -
  have fol: "following lb_inv elements R D h0 p m (b, h, xs)" and at: "at_work L lb_pos lb_before p m b pc" using work by simp_all
  have inv: "lb_inv b" and els: "elements b = drop p xs" and p: "p \<le> m" "m \<le> length xs" "xs \<noteq> [] \<Longrightarrow> p < length xs"
    and rec: "recorded R D h0 m h xs" using fol by (auto simp: following_def held_def)
  show ?thesis
    using step
  proof (cases rule: task_step_cases)
    case Front
    then have "h' = h \<or> next_timestamp_to_record h = 0 \<and>
        h' = h\<lparr>next_timestamp_to_record := (if elements b = [] then 0 else get_timestamp R (hd (elements b)))\<rparr>"
      using front_elements [OF inv] by (auto simp: record_front_def split: if_splits)
    moreover have "m = 0" if "next_timestamp_to_record h = 0" "xs \<noteq> []"
      using following_next [OF fol gap, of 0] that by (cases m) auto
    ultimately have "recorded R D h0 m h' xs"
      using rec els p hd_drop_conv_nth [of p xs] by (auto simp: recorded_def stream_next_def writable_def same_sink_def)
    then show ?thesis using fol Front by (auto simp: following_def)
  next
    case (Search i)
    then show ?thesis using working_search [OF fol gap keys] fol by auto
  next
    case (Leave i n)
    then show ?thesis using work by auto
  next
    case (Write i n x)
    note reads = working_reads [OF at [unfolded Write(1)] Write(2,3) fol]
    have "recorded R D h0 (m + 1) h' xs"
      using rec record_chunk_writes [of h fenv h' R D x] reads(1,2) Write(5) sink_takes_same [OF _ takes, of h]
      by (auto simp: recorded_def stream_next_def take_Suc_conv_app_nth same_sink_def)
    moreover have "held lb_inv elements p (m + 1) b xs" using fol reads(2) by (auto simp: following_def held_def)
    moreover have "at_work L lb_pos lb_before p (m + 1) b pc'" using reads(3) Write(6) by auto
    ultimately show ?thesis by (auto simp: following_def)
  next
    case (Skip i n x)
    note reads = working_reads [OF at [unfolded Skip(1)] Skip(2,3) fol]
    then show ?thesis using Skip(4) following_next [OF fol gap reads(2)] by simp
  next
    case (Advance i n)
    then consider k where "lb_pos b i k" "p + k + 1 = m" | "lb_before b i" "p = m" using at by auto
    then have "at_work L lb_pos lb_before p m b pc'"
    proof cases
      case 1
      then have "k < length (elements b)" using els p by simp
      then show ?thesis using next_pos [OF inv 1(1)] 1(2) Advance by auto
    next
      case 2
      then show ?thesis using before_next [OF inv 2(1)] Advance by simp
    qed
    then show ?thesis using fol Advance by auto
  qed
qed

lemma small_steps_extend: "rtranclp (rec_small R L D fenv) ((b, h, xs), pc) ((b', h', xs'), pc') \<Longrightarrow> \<exists>ys. xs' = xs @ ys"
proof (induction rule: rec_small_induct)
  case (step b1 h1 xs1 pc1 b2 h2 xs2 pc2)
  then show ?case by (auto elim!: rec_smallE others_stepE)
qed simp

lemma working_steps:
  assumes "rtranclp (rec_small R L D fenv) ((b, h, xs), pc) ((b', h', xs'), pc')"
    and "working D h0 p m (b, h, xs) pc" and "gapless R xs'" and "keys_least R xs'"
    and "sink_takes fenv h0"
  shows "\<exists>p m. working D h0 p m (b', h', xs') pc'"
  using assms
proof (induction rule: rec_small_induct)
  case (step b1 h1 xs1 pc1 b2 h2 xs2 pc2)
  obtain ys where "xs2 = xs1 @ ys" using small_steps_extend [of D fenv b1 h1 xs1 pc1 b2 h2 xs2 pc2] step.hyps(2) by blast
  then have ok: "gapless R xs1" "keys_least R xs1"
    using step.prems(2,3) gapless_append [of R xs1 ys] by (auto simp: keys_least_def)
  then obtain p1 m1 where work: "working D h0 p1 m1 (b1, h1, xs1) pc1" using step.IH step.prems(1,4) by blast
  show ?case using step.hyps(2)
  proof (cases rule: rec_small_cases)
    case ByOthers
    then show ?thesis using working_others [OF ByOthers(2) work ok(1)] by auto
  next
    case ByTask
    then show ?thesis using working_task [OF ByTask(1) _ ok step.prems(4), of p1 m1] work by auto
  qed
qed blast

text \<open>The task never stops halfway.\<close>

lemma working_enabled:
  assumes work: "working D h0 p m (b, h, xs) pc" and gap: "gapless R xs" and keys: "keys_least R xs"
  shows "\<exists>s. task_step R L D fenv b (h, pc) s"
proof -
  have fol: "following lb_inv elements R D h0 p m (b, h, xs)" and at: "at_work L lb_pos lb_before p m b pc" using work by simp_all
  have inv: "lb_inv b" and rec: "recorded R D h0 m h xs" using fol by (auto simp: following_def held_def)
  show ?thesis
  proof (cases pc)
    case Outside
    obtain h' where "record_front R L b h = Inr h'" using front_elements [OF inv] by (fastforce simp: record_front_def)
    moreover have "\<not> cleanup_requested h" using rec by (simp add: recorded_def)
    ultimately show ?thesis using Outside Front [of h R L b h' D fenv] by blast
  next
    case Looking
    then show ?thesis using working_search [OF fol gap keys] Search [of L R h b _ D fenv] by blast
  next
    case (At i n)
    show ?thesis
    proof (cases "round_continues L b i n")
      case True
      then obtain k where k: "lb_pos b i k" "k < length (elements b)"
        using at At good_pos [OF inv] by (auto simp: round_continues_def)
      then obtain x where x: "it_deref L b i = Inr x" using deref_pos [OF inv k] by blast
      show ?thesis
        using At Write [OF True x, of h R D fenv] Skip [OF True x, of R h D fenv] by (meson linorder_le_less_linear)
    qed (use At Leave [of L b i n R D fenv h] in blast)
  next
    case (Past i n)
    then show ?thesis using Advance [of R L D fenv b h i n] by blast
  qed
qed

end

section \<open>The queue models\<close>

lemma queue_search_below:
  assumes ord: "readout_order R" and q: "queue_inv q" "ts_sorted R (contents q)"
    and less: "get_timestamp R e < get_timestamp R (hd (contents q))"
  shows "bs_lower_bound R e we q = Some (Inr end_iter)"
  using readout_order.bs_lower_bound_correct [OF ord q, of e we] readout_order.ts_imp_less [OF ord less] by simp

lemma binary_search_concurrent:
  assumes "readout_order R"
  shows "concurrent_recordable (BinarySearchQueueModel R) queue_inv contents queue_pos R (\<lambda>_. ts_sorted R) queue_before"
proof (intro concurrent_recordable.intro concurrent_recordable_axioms.intro)
  show "recordable_buffer (BinarySearchQueueModel R) queue_inv contents queue_pos R (\<lambda>_. ts_sorted R)"
    by (rule binary_search_records [OF assms])
  show "concurrent_buffer (BinarySearchQueueModel R) queue_inv contents queue_pos queue_before"
    unfolding BinarySearchQueueModel_def by (rule concurrent_queue.concurrent_buffer_axioms)
qed (simp add: BinarySearchQueueModel_def queue_lb_ops_def queue_search_below [OF assms])

lemma fixed_rate_concurrent:
  assumes "readout_order R"
  shows "concurrent_recordable (FixedRateQueueModel R) queue_inv contents queue_pos R (fixed_rate_ready R) queue_before"
proof (intro concurrent_recordable.intro concurrent_recordable_axioms.intro)
  show "recordable_buffer (FixedRateQueueModel R) queue_inv contents queue_pos R (fixed_rate_ready R)"
    by (rule fixed_rate_records [OF assms])
  show "concurrent_buffer (FixedRateQueueModel R) queue_inv contents queue_pos queue_before"
    unfolding FixedRateQueueModel_def by (rule concurrent_queue.concurrent_buffer_axioms)
qed (simp add: FixedRateQueueModel_def queue_lb_ops_def fr_lower_bound_def fixed_rate_ready_def queue_search_below [OF assms])

interpretation dummy_steps: concurrent_recordable "BinarySearchQueueModel (dummy_ops tick)" queue_inv contents queue_pos
  "dummy_ops tick" "\<lambda>_. ts_sorted (dummy_ops tick)" queue_before
  by (rule binary_search_concurrent [OF dummy.readout_order_axioms])

lemma queue_models_concurrent:
  assumes "readout_order R" and "L \<in> {BinarySearchQueueModel R, FixedRateQueueModel R}"
  obtains ready where "concurrent_recordable L queue_inv contents queue_pos R ready queue_before"
  using assms binary_search_concurrent fixed_rate_concurrent by blast

section \<open>The property\<close>

text \<open>
  C8. A recording follows the stream even when other threads work between its steps: from its start
  on an open file whose device takes every write (\<open>sink_takes\<close>), in any sequence of stored and refused elements, cleanup checks, and single steps of
  the recording task (front, search, write of one element, advance of the iterator), and on both
  queue models, the file receives the payloads of a prefix of the stored stream, each element once
  and in order, each counted; cleanup never removes an element that is not yet written; the task's
  next step always exists and does not fault; and between rounds, a round without interruption ends and
  writes the next up to 1000 elements. This holds for streams without gaps, and when the search key of
  the recording sorts below no stored element of its timestamp (\<open>keys_least\<close>): the key is declared
  without an initialiser, so beside the timestamp it holds what was in memory, and for an order with a
  secondary key (the dummy frame with a nonzero \<open>another_key\<close>) a key that sorts below
  the oldest element finds nothing and nothing is recorded.
\<close>

theorem recording_steps_follow_stream:
  fixes h0 :: "'f request_handler"
  assumes ord: "readout_order R" and L: "L \<in> {BinarySearchQueueModel R, FixedRateQueueModel R}" and inv: "queue_inv q0"
    and start: "writable h0" "\<not> cleanup_requested h0" and takes: "sink_takes fenv h0"
    and steps: "rtranclp (rec_small R L D fenv) ((q0, record_begin h0, contents q0), Outside) ((q, h, xs), pc)"
    and stream: "gapless R xs" "keys_least R xs"
  defines "written n \<equiv> w_stream (buffered_writer h0) @ concat (map (recorded_bytes R D) (take n xs))"
  shows "\<exists>p m. contents q = drop p xs \<and> p \<le> m \<and> m \<le> length xs \<and>
           w_stream (buffered_writer h) = written m \<and> payloads_written h = payloads_written h0 + of_nat m \<and>
           (\<exists>s. task_step R L D fenv q (h, pc) s) \<and>
           (pc = Outside \<longrightarrow> (\<exists>h'. rtranclp (task_step R L D fenv q) (h, Outside) (h', Outside) \<and>
              w_stream (buffered_writer h') = written (m + 1000)))"
proof -
  obtain ready where c: "concurrent_recordable L queue_inv contents queue_pos R ready queue_before"
    using queue_models_concurrent [OF ord L] .
  note r = concurrent_recordable.axioms(1) [OF c]
  have "following queue_inv contents R D h0 0 0 (q0, record_begin h0, contents q0)"
    by (rule recordable_buffer.following_begin [OF r inv start])
  then obtain p m where fol: "following queue_inv contents R D h0 p m (q, h, xs)" "at_work L queue_pos queue_before p m q pc"
    using concurrent_recordable.working_steps [OF c steps _ stream takes, of 0 0] by auto
  have idle: "\<not> cleanup_requested h" using fol(1) by (simp add: following_def recorded_def)
  obtain h' where h': "record_round R L D fenv q h = Some (Inr h')"
      "following queue_inv contents R D h0 p (min (length xs) (m + 1000)) (q, h', xs)"
    using recordable_buffer.following_round [OF r fol(1) stream takes] by blast
  have "rtranclp (task_step R L D fenv q) (h, Outside) (h', Outside)"
    by (rule record_round_steps [OF h'(1) idle])
  moreover have "w_stream (buffered_writer h') = written (m + 1000)"
    using h'(2) by (auto simp: following_def recorded_def written_def min_def split: if_splits)
  moreover have "\<exists>s. task_step R L D fenv q (h, pc) s"
    using concurrent_recordable.working_enabled [OF c _ stream, of D h0 p m q h pc] fol by simp
  ultimately show ?thesis
    using fol(1) by (intro exI [of _ p] exI [of _ m]) (auto simp: following_def held_def recorded_def written_def)
qed

text \<open>A run: frame 164 arrives between the write of frame 100 and the advance of the iterator.\<close>

lemma interrupted_run:
  fixes h1 :: "plain_fragment request_handler"
  defines "R \<equiv> dummy_ops 16" and "h1 \<equiv> record_chunk (dummy_ops 16) recording_daq sample_file_env (frame_at 100)
      (recording_handler\<lparr>recording := True, next_timestamp_to_record := 100\<rparr>)"
  obtains i q where "rtranclp (rec_small R (BinarySearchQueueModel R) recording_daq sample_file_env)
      ((frames_queue, record_begin recording_handler, contents frames_queue), Outside)
      ((q, h1, map frame_at [100, 116, 132, 148, 164]), Past i 1)"
    and "contents q = map frame_at [100, 116, 132, 148, 164]"
proof -
  let ?L = "BinarySearchQueueModel R" and ?b = frames_queue and ?h = "record_begin recording_handler"
  let ?start = "recording_handler\<lparr>recording := True, next_timestamp_to_record := 100\<rparr>"
  let ?step = "rec_small R ?L recording_daq sample_file_env"
  have "lb_front ?L ?b = Inr (Some (frame_at 100))"
    using dummy_bs.front_elements [OF frames_queue_inv] by (simp add: R_def frames_queue_contents)
  then have front: "?step ((?b, ?h, contents ?b), Outside) ((?b, ?start, contents ?b), Looking)"
    by (intro ByTask Front) (simp_all add: record_begin_def record_front_def R_def)
  obtain i where i: "lb_lower_bound ?L (set_timestamp R 100 (uninit_element R)) True ?b = Some (Inr i)" "queue_pos ?b i 0"
    using dummy_bs.lower_bound_pos [OF frames_queue_inv frames_ts_sorted, of "set_timestamp R 100 (uninit_element R)" True]
    by (auto simp: R_def frames_queue_contents dummy_less_def dummy_uninit lb_index_def)
  have "round_continues ?L ?b i 0" "it_deref ?L ?b i = Inr (frame_at 100)"
    using dummy_bs.good_pos [OF frames_queue_inv i(2)] dummy_bs.deref_pos [OF frames_queue_inv i(2)]
      dummy_rec.end_not_good [of 16 ?b]
    by (auto simp: R_def frames_queue_contents round_continues_def)
  then have "?step ((?b, ?start, contents ?b), At i 0) ((?b, h1, contents ?b), Past i 1)"
    using Write [of ?L ?b i 0 "frame_at 100" ?start R recording_daq sample_file_env] by (intro ByTask) (simp add: R_def h1_def)
  moreover have "?step ((?b, ?start, contents ?b), Looking) ((?b, ?start, contents ?b), At i 0)"
    using Search [of ?L R ?start] i(1) by (intro ByTask) simp
  moreover obtain q where q: "write_q (frame_at 164) ?b = Inr (True, q)" by (rule frames_write)
  then have "?step ((?b, h1, contents ?b), Past i 1) ((q, h1, contents ?b @ [frame_at 164]), Past i 1)"
    by (intro ByOthers Stored) (simp add: BinarySearchQueueModel_def queue_lb_ops_def)
  ultimately have "rtranclp ?step ((?b, ?h, contents ?b), Outside) ((q, h1, contents ?b @ [frame_at 164]), Past i 1)"
    using front by (meson converse_rtranclp_into_rtranclp rtranclp.rtrancl_refl)
  moreover have "contents q = contents ?b @ [frame_at 164]" using queue_write_elements [OF frames_queue_inv, of "frame_at 164"] q by auto
  ultimately show ?thesis using that [of q i] by (simp only: frames_queue_contents list.map append.simps)
qed

theorem recording_steps_follow_stream_witness:
  "\<exists>i q h s. rtranclp (rec_small (dummy_ops 16) (BinarySearchQueueModel (dummy_ops 16)) recording_daq sample_file_env)
       ((frames_queue, record_begin recording_handler, contents frames_queue), Outside)
       ((q, h, map frame_at [100, 116, 132, 148, 164]), Past i 1) \<and>
     w_stream (buffered_writer h) = [100] \<and> contents q = map frame_at [100, 116, 132, 148, 164] \<and>
     task_step (dummy_ops 16) (BinarySearchQueueModel (dummy_ops 16)) recording_daq sample_file_env q (h, Past i 1) s"
proof -
  let ?h = "record_chunk (dummy_ops 16) recording_daq sample_file_env (frame_at 100)
      (recording_handler\<lparr>recording := True, next_timestamp_to_record := 100\<rparr>)"
  let ?xs = "map frame_at [100, 116, 132, 148, 164]"
  obtain i q where run: "rtranclp (rec_small (dummy_ops 16) (BinarySearchQueueModel (dummy_ops 16)) recording_daq sample_file_env)
       ((frames_queue, record_begin recording_handler, contents frames_queue), Outside) ((q, ?h, ?xs), Past i 1)" and q: "contents q = ?xs"
    by (rule interrupted_run)
  have gap: "gapless (dummy_ops 16) ?xs" by (simp add: gapless_def element_end_def)
  have w: "w_stream (buffered_writer ?h) = [100]"
    using record_chunk_writes(4) [OF _ _ refl, of "recording_handler\<lparr>recording := True, next_timestamp_to_record := 100\<rparr>"
        sample_file_env "dummy_ops 16" recording_daq "frame_at 100"] by simp
  obtain s where "task_step (dummy_ops 16) (BinarySearchQueueModel (dummy_ops 16)) recording_daq sample_file_env q (?h, Past i 1) s"
    using recording_steps_follow_stream [OF dummy.readout_order_axioms _ frames_queue_inv _ _ _ run gap frames_keys] by auto
  then show ?thesis using run w q by blast
qed

end
