(* ===== verification/Handler_Typing.thy ===== *)
theory Handler_Typing
  imports Data_Contract Recording_Steps
begin

text \<open>
  A data handler is well-formed when its buffer is, every post-processor has its queue, threads run
  and callbacks are installed only where the configuration has what they need, and no request is
  left counted as reading. Every operation of every thread keeps it so, from \<open>init\<close> on.
\<close>

section \<open>Well-formed handlers\<close>

definition rh_ok :: "'f request_handler \<Rightarrow> bool" where
  "rh_ok h \<longleftrightarrow> requests_running h = 0 \<and> \<not> cleanup_requested h"

definition dh_ok :: "('q \<Rightarrow> bool) \<Rightarrow> ('a iterable_queue, 'q, 'a, 'f) data_handler \<Rightarrow> bool" where
  "dh_ok pcq_inv s \<longleftrightarrow>
     queue_inv (latency_buffer_impl s) \<and> rp_ok pcq_inv (raw_processor_impl s) \<and> rh_ok (request_handler_impl s) \<and>
     (has_request_callback s \<longrightarrow> has_data_request_receiver s) \<and> (consumer_running s \<longrightarrow> \<not> callback_mode s) \<and>
     (timesync_running s \<longrightarrow> generate_timesync s)"

section \<open>The operations of all threads\<close>

text \<open>
  The steps that neither receive data nor empty the buffer: those of the request handler's threads,
  of the post-processing and time synchronisation threads and of monitoring, and the start. A
  recording begins with an accepted command, makes rounds and ends.
\<close>

inductive handler_step ::
  "'a readout_ops \<Rightarrow> ('b, 'a, 'i) lb_ops \<Rightarrow> ('q, 'a option) pcq_ops \<Rightarrow> ('a, 'f) daq_env \<Rightarrow> file_env \<Rightarrow>
   ('b, 'q, 'a, 'f) data_handler \<Rightarrow> ('b, 'q, 'a, 'f) data_handler \<Rightarrow> bool"
  for R L P D fenv where
  Start: "start_dh run now s = Inr s' \<Longrightarrow> handler_step R L P D fenv s s'"
| Dispatch: "has_request_callback s \<Longrightarrow> handler_step R L P D fenv s (dispatch_requests dr s)"
| RunTask: "posted (request_handler_impl s) = xs @ (dr, is_retry) # ys \<Longrightarrow>
     request_task R L D now took dr is_retry (latency_buffer_impl s) ((request_handler_impl s)\<lparr>posted := xs @ ys\<rparr>) =
       Some (Inr h') \<Longrightarrow> handler_step R L P D fenv s (s\<lparr>request_handler_impl := h'\<rparr>)"
| CheckWaiting: "check_waiting_requests R L now (latency_buffer_impl s) (request_handler_impl s) = Inr h' \<Longrightarrow>
     handler_step R L P D fenv s (s\<lparr>request_handler_impl := h'\<rparr>)"
| Cleanup: "cleanup_check R L (latency_buffer_impl s, request_handler_impl s) = Inr (b', h') \<Longrightarrow>
     handler_step R L P D fenv s (s\<lparr>latency_buffer_impl := b', request_handler_impl := h'\<rparr>)"
| RecordCommand: "handler_step R L P D fenv s (s\<lparr>request_handler_impl := record_command (request_handler_impl s)\<rparr>)"
| RecordEnd: "recording (request_handler_impl s) \<Longrightarrow>
     handler_step R L P D fenv s (s\<lparr>request_handler_impl := record_end fenv (request_handler_impl s)\<rparr>)"
| Record: "recording (request_handler_impl s) \<Longrightarrow> record_round R L D fenv (latency_buffer_impl s) (request_handler_impl s) = Some (Inr h') \<Longrightarrow>
     handler_step R L P D fenv s (s\<lparr>request_handler_impl := h'\<rparr>)"
| PostThread: "i < length (items_to_postprocess_queues (raw_processor_impl s)) \<Longrightarrow>
     handler_step R L P D fenv s (s\<lparr>raw_processor_impl := post_thread_round P i (raw_processor_impl s)\<rparr>)"
| TimeSyncRound: "timesync_running s \<Longrightarrow> timesync_round blank sent (t, s) = (t', s') \<Longrightarrow> handler_step R L P D fenv s s'"
| Monitor: "handler_step R L P D fenv s (snd (opmon_dh now s))"
| MonitorRequests: "handler_step R L P D fenv s
     (s\<lparr>request_handler_impl := snd (generate_opmon_data now (request_handler_impl s))\<rparr>)"

inductive dh_step ::
  "'a readout_ops \<Rightarrow> ('b, 'a, 'i) lb_ops \<Rightarrow> ('q, 'a option) pcq_ops \<Rightarrow> ('a, 'f) daq_env \<Rightarrow> file_env \<Rightarrow> ('b \<Rightarrow> fault + 'b) \<Rightarrow>
   ('b, 'q, 'a, 'f) data_handler \<Rightarrow> ('b, 'q, 'a, 'f) data_handler \<Rightarrow> bool"
  for R L P D fenv scrap_buffer where
  Stop: "rh_threads_done (request_handler_impl s) \<Longrightarrow> stop_dh L P s = Inr s' \<Longrightarrow> dh_step R L P D fenv scrap_buffer s s'"
| Scrap: "scrap_dh fenv scrap_buffer s = Inr s' \<Longrightarrow> dh_step R L P D fenv scrap_buffer s s'"
| Consume: "consumer_running s \<Longrightarrow> consume_round R L P now received (c, s) = Some (Inr (c', s')) \<Longrightarrow>
     dh_step R L P D fenv scrap_buffer s s'"
| Callback: "callback_mode s \<Longrightarrow> consume_payload R L P x s = Inr s' \<Longrightarrow> dh_step R L P D fenv scrap_buffer s s'"
| Handler: "handler_step R L P D fenv s s' \<Longrightarrow> dh_step R L P D fenv scrap_buffer s s'"

section \<open>The request handler\<close>

lemma rh_ok_updates [simp]:
  "rh_ok (h\<lparr>next_timestamp_to_record := n\<rparr>) = rh_ok h" "rh_ok (h\<lparr>waiting_requests := ws\<rparr>) = rh_ok h"
  "rh_ok (h\<lparr>posted := ps\<rparr>) = rh_ok h" "rh_ok (h\<lparr>error_registry := reg\<rparr>) = rh_ok h"
  "rh_ok (h\<lparr>warn_on_timeout := wt, warn_about_empty_buffer := we, periodic_data_transmission_ms := t\<rparr>) = rh_ok h"
  "rh_ok (h\<lparr>num_requests_bad := k, num_requests_timed_out := l\<rparr>) = rh_ok h"
  by (simp_all add: rh_ok_def)

lemma rh_ok_simps [simp]:
  "rh_ok (start_rh now h) = rh_ok h" "rh_ok (stop_rh h) = rh_ok h" "rh_ok (scrap_rh fenv h) = rh_ok h"
  "rh_ok (issue_request dr is_retry h) = rh_ok h" "rh_ok (emit ev h) = rh_ok h"
  "rh_ok (snd (generate_opmon_data now h)) = rh_ok h" "rh_ok (account_response took h) = rh_ok h"
  "rh_ok (respond D now dr is_retry r h) = rh_ok h" "rh_ok (record_chunk R D fenv x h) = rh_ok h"
  "rh_ok (record_command h) = rh_ok h" "rh_ok (record_end fenv h) = rh_ok h"
  by (auto simp: rh_ok_def start_rh_def stop_rh_def scrap_rh_def issue_request_def emit_def generate_opmon_data_def
      account_response_def respond_def record_chunk_def record_command_def record_accepted_def record_begin_def record_end_def
      Let_def split: prod.split)

lemma count_result_running [simp]:
  "requests_running (count_result rc h) = requests_running h" "cleanup_requested (count_result rc h) = cleanup_requested h"
  by (cases rc; simp)+

lemma conf_rh_ok:
  assumes "conf_rh D fenv c h = Inr h'" and "rh_ok h"
  shows "rh_ok h'"
proof -
  have outs: "rh_ok (fold conf_output os h)" if "rh_ok h" for os h
    using that by (induction os arbitrary: h) (auto simp: conf_output_def rh_ok_def)
  have recs: "rh_ok h'" if "conf_recorder fenv dr h = Inr h'" "rh_ok h" for dr h h'
    using that by (auto simp: conf_recorder_def rh_ok_def bindE_eq_Inr_iff Let_def split: if_split_asm option.split_asm)
  have pops: "rh_ok (conf_auto_pop h) = rh_ok h" for h
    by (simp add: conf_auto_pop_def rh_ok_def Let_def)
  obtain h0 h1 where "conf_recorder fenv (hc_data_recorder c) (fold conf_output (hc_outputs c) h0) = Inr h1" "rh_ok h0"
      "h' = conf_auto_pop (h1\<lparr>warn_on_timeout := hc_warn_on_timeout c, warn_about_empty_buffer := hc_warn_on_empty_buffer c,
         periodic_data_transmission_ms := hc_periodic_data_transmission_ms c\<rparr>)"
    using assms by (auto simp: conf_rh_def bindE_eq_Inr_iff Let_def rh_ok_def)
  then show ?thesis using recs [OF _ outs] by (simp add: pops)
qed

lemma request_task_ok:
  assumes "request_task R L D now took dr is_retry b h = Some (Inr h')" and "rh_ok h"
  shows "rh_ok h'"
  using assms
  by (auto simp: request_task_def data_request_def emit_def rh_ok_def respond_def account_response_def Let_def
      split: if_splits option.splits sum.splits)

lemma check_waiting_loop_ok:
  "check_waiting_loop now t ws h = (rest, h') \<Longrightarrow> rh_ok h \<Longrightarrow> rh_ok h'"
  by (induction ws arbitrary: h rest) (auto simp: Let_def split: if_splits prod.splits)

lemma check_waiting_ok: "check_waiting_requests R L now b h = Inr h' \<Longrightarrow> rh_ok h \<Longrightarrow> rh_ok h'"
  by (auto simp: check_waiting_requests_def bindE_def Let_def split: if_split_asm sum.split_asm prod.split_asm
      dest: check_waiting_loop_ok)

lemma cleanup_check_ok: "cleanup_check R L (b, h) = Inr (b', h') \<Longrightarrow> rh_ok h \<Longrightarrow> rh_ok h'"
  by (auto simp: cleanup_check_def cleanup_rh_def rh_ok_def bindE_eq_Inr_iff Let_def split: if_splits prod.splits)

lemma task_step_ok: "task_step R L D fenv b (h, pc) (h', pc') \<Longrightarrow> rh_ok h \<Longrightarrow> rh_ok h'"
  by (erule task_step_cases) (auto simp: record_front_def bindE_eq_Inr_iff split: if_splits)

lemma record_round_ok:
  assumes "record_round R L D fenv b h = Some (Inr h')" and "rh_ok h"
  shows "rh_ok h'"
proof -
  have "rtranclp (task_step R L D fenv b) (h, Outside) (h', Outside)"
    using record_round_steps [OF assms(1)] assms(2) by (simp add: rh_ok_def)
  moreover have "rh_ok (fst s')" if "rtranclp (task_step R L D fenv b) s s'" "rh_ok (fst s)" for s s'
    using that by (induction rule: rtranclp_induct) (auto dest: task_step_ok)
  ultimately show ?thesis using assms(2) by fastforce
qed

text \<open>A cleanup keeps the buffer well-formed.\<close>

lemma pop_loop_buffer_ok:
  "pop_loop R (queue_lb_ops search) t n popped b = Inr (count, b') \<Longrightarrow> queue_inv b \<Longrightarrow> queue_inv b'"
proof (induction n arbitrary: b popped)
  case (Suc n)
  have "queue_inv b1" if "lb_pop (queue_lb_ops search) 1 b = Inr b1" for b1
    using that queue.pop_elements [OF Suc.prems(2), of 1 search] queue.pop_too_many [OF Suc.prems(2), of 1 search]
    by (cases "1 \<le> length (contents b)") auto
  then show ?case using Suc by (auto simp: bindE_eq_Inr_iff split: if_split_asm)
qed simp

lemma cleanup_buffer_ok:
  "cleanup_check R (queue_lb_ops search) (b, h) = Inr (b', h') \<Longrightarrow> queue_inv b \<Longrightarrow> queue_inv b'"
  by (auto simp: cleanup_check_def cleanup_rh_def bindE_eq_Inr_iff Let_def split: if_split_asm prod.split_asm
      dest: pop_loop_buffer_ok)

section \<open>The data handler\<close>

text \<open>The queues of the post-processors hold element pointers.\<close>

locale pointer_queues = bounded_fifo P pcq_inv elems valid_size
  for P :: "('q, 'a option) pcq_ops" and pcq_inv elems valid_size
begin

lemma rp_ok_simps:
  "rp_ok pcq_inv p \<Longrightarrow> rp_ok pcq_inv (stop_rp P p)" "rp_ok pcq_inv p \<Longrightarrow> rp_ok pcq_inv (reset_last_daq_time p)"
  "rp_ok pcq_inv (scrap_rp p)" "start_rp p = Inr p' \<Longrightarrow> rp_ok pcq_inv p \<Longrightarrow> rp_ok pcq_inv p'"
  using stop_rp_spec(1)
  by (auto simp: rp_ok_def reset_last_daq_time_def scrap_rp_def start_rp_def split: if_splits)

lemma conf_rp_ok: "valid_size n \<Longrightarrow> items_to_postprocess_queues p = [] \<Longrightarrow> rp_ok pcq_inv (conf_rp P n sid p)"
  using new_empty by (auto simp: rp_ok_def conf_rp_def)

lemma postprocess_item_ok:
  assumes "rp_ok pcq_inv p"
  shows "rp_ok pcq_inv (postprocess_item P item p)"
proof -
  obtain qs ws where l: "post_loop P item 0 (items_to_postprocess_queues p) = (qs, ws)" by fastforce
  have "\<forall>q \<in> set (items_to_postprocess_queues p). pcq_inv q" using assms by (simp add: rp_ok_def)
  from post_loop_spec [OF this l] show ?thesis using assms l by (auto simp: rp_ok_def postprocess_item_def)
qed

lemma store_item_ok:
  assumes run: "store_item R (queue_lb_ops search) x s = Inr s'" and ok: "dh_ok pcq_inv s"
  shows "dh_ok pcq_inv s'"
proof -
  have inv: "queue_inv (latency_buffer_impl s)" using ok by (simp add: dh_ok_def)
  have "queue_inv b'" if "write_q y (latency_buffer_impl s) = Inr (c, b')" for y c b'
    using queue_write_elements [OF inv, of y] that by auto
  then show ?thesis
    using run ok
    by (auto simp: store_item_def queue_lb_ops_def dh_ok_def bindE_eq_Inr_iff dh_emit_def Let_def split: prod.split_asm if_splits)
qed

lemma store_item_returns:
  assumes "dh_ok pcq_inv s"
  shows "\<exists>s'. store_item R (queue_lb_ops search) x s = Inr s'"
  using store_item_queue [of s R search x] assms by (auto simp: dh_ok_def)

lemma post_counted_ok: "dh_ok pcq_inv s \<Longrightarrow> dh_ok pcq_inv (count_payload (post_pointer P ptr s))"
  by (simp add: dh_ok_def count_payload_def post_pointer_def postprocess_item_ok)

lemma back_returns: "dh_ok pcq_inv s \<Longrightarrow> \<exists>ptr. lb_back (queue_lb_ops search) (latency_buffer_impl s) = Inr ptr"
  using queue.back_elements by (auto simp: dh_ok_def)

lemma process_item_ok:
  assumes ok: "dh_ok pcq_inv s"
  shows "\<exists>s'. process_item R (queue_lb_ops search) P x s = Inr s' \<and> dh_ok pcq_inv s'"
    and "\<exists>s'. consume_payload R (queue_lb_ops search) P x s = Inr s' \<and> dh_ok pcq_inv s'"
proof -
  obtain s1 where s1: "store_item R (queue_lb_ops search) x s = Inr s1" "dh_ok pcq_inv s1"
    using store_item_returns [OF ok] store_item_ok [OF _ ok] by blast
  moreover obtain ptr where "lb_back (queue_lb_ops search) (latency_buffer_impl s1) = Inr ptr" using back_returns [OF s1(2)] by blast
  ultimately show "\<exists>s'. process_item R (queue_lb_ops search) P x s = Inr s' \<and> dh_ok pcq_inv s'"
      "\<exists>s'. consume_payload R (queue_lb_ops search) P x s = Inr s' \<and> dh_ok pcq_inv s'"
    using post_counted_ok [OF s1(2)] by (simp_all add: process_item_def consume_payload_def)
qed

lemma process_items_ok:
  "dh_ok pcq_inv s \<Longrightarrow> \<exists>s'. process_items R (queue_lb_ops search) P xs s = Inr s' \<and> dh_ok pcq_inv s'"
proof (induction xs arbitrary: s)
  case (Cons x xs)
  then show ?case using process_item_ok(1) [OF Cons.prems, of R search x] by auto
qed simp

text \<open>A range of post-processing hands over some elements one by one.\<close>

lemma post_range_all:
  assumes run: "post_range L P it end_it s = Some (Inr s')"
  shows "\<exists>xs. s' = post_all P xs s"
proof -
  have "(\<lambda>((((L', P'), it), e), s) y. P' = P \<longrightarrow> (\<forall>s'. y = Inr s' \<longrightarrow> (\<exists>xs. s' = post_all P xs s)))
      ((((L, P), it), end_it), s) (Inr s' :: fault + _)"
  proof (rule post_range.raw_induct [where Pa = "\<lambda>((((L', P'), it), e), s) y. P' = P \<longrightarrow>
        (\<forall>s'. y = Inr s' \<longrightarrow> (\<exists>xs. s' = post_all P xs s))", OF _ run], unfold split_conv, intro impI allI)
    fix f L' P' it end_it s y s'
    assume IH: "\<And>L P' it end_it s y. f L P' it end_it s = Some y \<Longrightarrow>
          P' = P \<longrightarrow> (\<forall>s'. y = Inr s' \<longrightarrow> (\<exists>xs. s' = post_all P xs s))"
      and body: "(if it = end_it then Some (Inr s)
         else case it_deref L' (latency_buffer_impl s) it of Inl f \<Rightarrow> Some (Inl f)
              | Inr x \<Rightarrow> f L' P' (it_next L' (latency_buffer_impl s) it) end_it (count_payload (post_pointer P' (Some x) s))) = Some y"
      and eq: "P' = P" and y: "y = Inr s'"
    show "\<exists>xs. s' = post_all P xs s"
    proof (cases "it = end_it")
      case True
      then show ?thesis using body y by (intro exI [of _ "[]"]) simp
    next
      case False
      then obtain x where
        "f L' P' (it_next L' (latency_buffer_impl s) it) end_it (count_payload (post_pointer P' (Some x) s)) = Some y"
        using body y by (auto split: sum.split_asm)
      from IH [OF this] obtain xs where "s' = post_all P xs (count_payload (post_pointer P (Some x) s))" using eq y by auto
      then show ?thesis by (intro exI [of _ "x # xs"]) simp
    qed
  qed
  then show ?thesis by simp
qed

lemma post_all_ok: "dh_ok pcq_inv s \<Longrightarrow> dh_ok pcq_inv (post_all P xs s)"
  by (induction xs arbitrary: s) (simp_all add: post_counted_ok)

lemma deferred_ok:
  assumes run: "deferred_postprocess R L P now (c, s) = Some (Inr (c', s'))" and ok: "dh_ok pcq_inv s"
  shows "dh_ok pcq_inv s'"
proof -
  have "s' = s \<or> (\<exists>i j. post_range L P i j s = Some (Inr s'))"
    using run by (auto simp: deferred_postprocess_def Let_def split: if_split_asm option.split_asm sum.split_asm)
  then show ?thesis
  proof (elim disjE exE)
    fix i j
    assume "post_range L P i j s = Some (Inr s')"
    then show ?thesis using post_range_all post_all_ok [OF ok] by metis
  qed (simp add: ok)
qed

lemma consume_round_ok:
  assumes run: "consume_round R (queue_lb_ops search) P now received (c, s) = Some (Inr (c', s'))" and ok: "dh_ok pcq_inv s"
  shows "dh_ok pcq_inv s'"
proof -
  obtain s1 where "deferred_postprocess R (queue_lb_ops search) P now (c, s1) = Some (Inr (c', s'))" "dh_ok pcq_inv s1"
  proof (cases received)
    case (Some items)
    then show ?thesis using that run process_items_ok [OF ok, of R search items]
      by (auto simp: consume_round_def split: if_split_asm sum.split_asm)
  next
    case None
    then show ?thesis using that [of "s\<lparr>rawq_timeout_count := rawq_timeout_count s + 1\<rparr>"] run ok
      by (auto simp: consume_round_def dh_ok_def split: if_split_asm)
  qed
  then show ?thesis using deferred_ok by blast
qed

lemma start_dh_ok:
  assumes "dh_ok pcq_inv s"
  shows "(\<exists>s'. start_dh run now s = Inr s') \<longleftrightarrow> has_data_request_receiver s"
    and "start_dh run now s = Inr s' \<Longrightarrow> dh_ok pcq_inv s'"
  using assms rp_ok_simps(4) by (auto simp: start_dh_def dh_ok_def start_rp_def rp_ok_def Let_def split: if_splits)

lemma stop_dh_ok:
  assumes "dh_ok pcq_inv s"
  shows "(\<exists>s'. stop_dh (queue_lb_ops search) P s = Inr s') \<longleftrightarrow> has_data_request_receiver s"
    and "stop_dh (queue_lb_ops search) P s = Inr s' \<Longrightarrow> dh_ok pcq_inv s'"
proof -
  have inv: "queue_inv (latency_buffer_impl s)" using assms by (simp add: dh_ok_def)
  obtain b where b: "lb_flush (queue_lb_ops search) (latency_buffer_impl s) = Inr b" "queue_inv b"
    using queue.flush_elements [OF inv] by blast
  show "(\<exists>s'. stop_dh (queue_lb_ops search) P s = Inr s') \<longleftrightarrow> has_data_request_receiver s"
    using b by (simp add: stop_dh_def Let_def)
  show "stop_dh (queue_lb_ops search) P s = Inr s' \<Longrightarrow> dh_ok pcq_inv s'"
    using b assms by (auto simp: stop_dh_def dh_ok_def rp_ok_simps Let_def split: if_splits)
qed

lemma handler_step_ok:
  assumes step: "handler_step R (queue_lb_ops search) P D fenv s s'" and ok: "dh_ok pcq_inv s"
  shows "dh_ok pcq_inv s'"
  using step
proof cases
  case (Start run now)
  then show ?thesis using start_dh_ok(2) [OF ok] by blast
next
  case (Dispatch dr)
  then show ?thesis using ok by (auto simp: dispatch_requests_def dh_emit_def count_request_def dh_ok_def)
next
  case (RunTask xs dr is_retry ys now took h')
  then show ?thesis using ok request_task_ok [OF RunTask(3)] by (auto simp: dh_ok_def)
next
  case (CheckWaiting now h')
  then show ?thesis using ok check_waiting_ok [OF CheckWaiting(2)] by (auto simp: dh_ok_def)
next
  case (Cleanup b' h')
  then show ?thesis using ok cleanup_check_ok [OF Cleanup(2)] cleanup_buffer_ok [OF Cleanup(2)] by (auto simp: dh_ok_def)
next
  case (Record h')
  then show ?thesis using ok record_round_ok [OF Record(3)] by (auto simp: dh_ok_def)
next
  case RecordCommand
  then show ?thesis using ok by (simp add: dh_ok_def)
next
  case RecordEnd
  then show ?thesis using ok by (simp add: dh_ok_def)
next
  case (PostThread i)
  then show ?thesis using ok post_thread_round_stream(1) by (auto simp: dh_ok_def)
next
  case (TimeSyncRound blank sent t t')
  then show ?thesis using ok
    by (auto simp: timesync_round_def dh_emit_def count_request_def dh_ok_def Let_def split: if_splits)
next
  case Monitor
  then show ?thesis using ok by (simp add: opmon_dh_def dh_ok_def)
next
  case MonitorRequests
  then show ?thesis using ok by (simp add: dh_ok_def)
qed

lemma dh_step_ok:
  assumes step: "dh_step R (queue_lb_ops search) P D fenv scrap_buffer s s'" and ok: "dh_ok pcq_inv s"
    and scrap: "\<And>b b'. scrap_buffer b = Inr b' \<Longrightarrow> queue_inv b'"
  shows "dh_ok pcq_inv s'"
  using step
proof cases
  case Stop
  then show ?thesis using stop_dh_ok(2) [OF ok] by blast
next
  case Scrap
  then show ?thesis using ok scrap rp_ok_simps(3)
    by (auto simp: scrap_dh_def dh_ok_def bindE_eq_Inr_iff Let_def)
next
  case (Consume now received c c')
  then show ?thesis using consume_round_ok [OF _ ok] by blast
next
  case (Callback x)
  then show ?thesis using process_item_ok(2) [OF ok, of R search x] by auto
next
  case Handler
  then show ?thesis by (rule handler_step_ok [OF _ ok])
qed

lemma dh_steps_ok:
  assumes "rtranclp (dh_step R (queue_lb_ops search) P D fenv scrap_buffer) s s'" and "dh_ok pcq_inv s"
    and "\<And>b b'. scrap_buffer b = Inr b' \<Longrightarrow> queue_inv b'"
  shows "dh_ok pcq_inv s'"
  using assms(1,2) by (induction rule: rtranclp_induct) (auto intro: dh_step_ok assms(3))

text \<open>\<open>init\<close> creates a well-formed handler, none of whose threads runs.\<close>

lemma init_inputs_flags:
  "init_inputs iom_ok inputs s = Inr s' \<Longrightarrow> has_request_callback s' = has_request_callback s \<and>
   consumer_running s' = consumer_running s \<and> timesync_running s' = timesync_running s"
proof (induction inputs arbitrary: s)
  case (Cons input inputs)
  show ?case
  proof (cases "conn_data_type input = ''DataRequest''")
    case True
    then show ?thesis using Cons.prems Cons.IH [of "s\<lparr>has_data_request_receiver := True\<rparr>"] by (simp split: if_split_asm)
  next
    case False
    obtain w ws where w: "split_words (conn_uid input) = w # ws"
      using Cons.prems False by (auto simp: Let_def simp del: split_words.simps split: list.split_asm)
    show ?thesis
      using Cons.prems False Cons.IH by (fastforce simp: w Let_def simp del: split_words.simps split: if_split_asm)
  qed
qed simp

lemma init_dh_ok:
  fixes s :: "('a iterable_queue, 'q, 'a, 'f) data_handler"
  assumes run: "init_dh P D fenv iom_ok inputs outputs (Inr b) broken processor n hconf delay s = Inr s'"
    and b: "queue_inv b" and p: "items_to_postprocess_queues processor = []" "valid_size n"
    and off: "\<not> has_request_callback s" "\<not> consumer_running s" "\<not> timesync_running s"
  shows "dh_ok pcq_inv s'"
proof -
  obtain s1 s2 where s1: "init_inputs iom_ok inputs s = Inr s1" and s2: "init_outputs iom_ok outputs s1 = Inr s2"
    using run by (auto simp: init_dh_def bindE_eq_Inr_iff)
  have "\<not> has_request_callback s2 \<and> \<not> consumer_running s2 \<and> \<not> timesync_running s2"
    using init_inputs_flags [OF s1] s2 off by (auto simp: init_outputs_def split: list.split_asm if_split_asm)
  moreover have "rh_ok h" if "conf_rh D fenv hconf (new_request_handler fs reg) = Inr h" for h fs reg
    by (rule conf_rh_ok [OF that]) (simp add: new_request_handler_def rh_ok_def)
  ultimately show ?thesis
    using run s1 s2 b conf_rp_ok [OF p(2,1)] by (auto simp: init_dh_def bindE_eq_Inr_iff Let_def dh_ok_def dh_emit_def split: if_splits)
qed

end

interpretation ring_pointers: pointer_queues "ring_pcq :: ('a option iterable_queue, 'a option) pcq_ops" queue_inv contents
  "\<lambda>n. 2 \<le> n \<and> unat n < 2 ^ 31"
  by (rule pointer_queues.intro) (rule ring.bounded_fifo_axioms)

section \<open>The property\<close>

lemma scrap_q_inv: "scrap_q env q = Inr q' \<Longrightarrow> alloc_succeeds env StdMalloc 2 \<Longrightarrow> queue_inv q'"
  using fresh_queue_inv (1) [of q' StdMalloc] by (auto simp: scrap_q_def bindE_eq_Inr_iff alloc_region_def)

text \<open>
  C10. A data handler stays well-formed: after an \<open>init\<close> with a well-formed buffer, in every sequence of
  starts, stops (once the tasks of the pool and a recording are over) and scraps, rounds of the consumer thread (with deferred post-processing) or received
  callbacks, dispatched requests, pool tasks, checks of waiting requests, cleanups, record commands with their rounds and ends,
  rounds of post-processing threads, time synchronisation and monitoring, the buffer keeps its
  invariant, each post-processor its well-formed queue, request callbacks and threads are there only
  when configured, and no request stays counted as reading. Items can always be received, and \<open>start\<close>
  and \<open>stop\<close> return exactly when there is a connection for data requests.
\<close>

theorem handler_stays_well_formed:
  fixes P :: "('q, 'a option) pcq_ops" and R :: "'a readout_ops"
  assumes queues: "bounded_fifo P pcq_inv elems valid_size" "valid_size n" "items_to_postprocess_queues processor = []"
    and b: "queue_inv b" and mem: "alloc_succeeds env StdMalloc 2"
    and init: "init_dh P D fenv iom_ok inputs outputs (Inr b) broken processor n hconf delay
        (new_data_handler pid unset_id unset_run unset_delay no_buffer no_processor no_handler unset_t0) = Inr s0"
    and steps: "rtranclp (dh_step R (queue_lb_ops search) P D fenv (scrap_q env)) s0 s"
  shows "dh_ok pcq_inv s \<and>
         (\<forall>items. \<exists>s'. process_items R (queue_lb_ops search) P items s = Inr s' \<and> dh_ok pcq_inv s') \<and>
         ((\<exists>s'. start_dh run now s = Inr s') \<longleftrightarrow> has_data_request_receiver s) \<and>
         ((\<exists>s'. stop_dh (queue_lb_ops search) P s = Inr s') \<longleftrightarrow> has_data_request_receiver s)"
proof -
  note q = pointer_queues.intro [OF queues(1)]
  have "dh_ok pcq_inv s0"
    by (rule pointer_queues.init_dh_ok [OF q init b queues(3,2)]) (simp_all add: new_data_handler_def)
  then have ok: "dh_ok pcq_inv s" using pointer_queues.dh_steps_ok [OF q steps] scrap_q_inv [OF _ mem] by blast
  show ?thesis
    using ok pointer_queues.process_items_ok [OF q ok] pointer_queues.start_dh_ok(1) [OF q ok]
      pointer_queues.stop_dh_ok(1) [OF q ok] by blast
qed

definition plain_conf :: request_handler_conf where
  "plain_conf =
     \<lparr>hc_source_id = 1, hc_detector_id = 3, hc_pop_limit_pct = \<lparr>numerator = 0, scale = 0\<rparr>,
      hc_pop_size_pct = \<lparr>numerator = 0, scale = 0\<rparr>, hc_buffer_size = 8, hc_handler_threads = 1, hc_request_timeout = 100,
      hc_outputs = [], hc_data_recorder = None, hc_warn_on_timeout = True, hc_warn_on_empty_buffer = True,
      hc_periodic_data_transmission_ms = 0\<rparr>"

theorem handler_stays_well_formed_witness:
  "\<exists>s0 s1. init_dh ring_pcq plain_daq sample_file_env (\<lambda>_. True)
       [\<lparr>conn_data_type = ''DataRequest'', conn_uid = ''requests''\<rparr>, \<lparr>conn_data_type = ''Frame'', conn_uid = ''raw_0''\<rparr>] []
       (Inr frames_queue) frames_queue (add_postprocess_task (new_raw_processor True)) 16 plain_conf 0
       (new_data_handler 1 \<lparr>subsystem = 0, source_id = 0\<rparr> 0 0 frames_queue (new_raw_processor True) sample_handler 0) = Inr s0 \<and>
     start_dh 5 0 s0 = Inr s1 \<and> consumer_running s1 \<and> dh_ok queue_inv s1 \<and>
     (\<exists>s'. process_items (dummy_ops 16) (BinarySearchQueueModel (dummy_ops 16)) ring_pcq [frame_at 164] s1 = Inr s')"
proof -
  let ?new = "new_data_handler 1 \<lparr>subsystem = 0, source_id = 0\<rparr> 0 0 frames_queue (new_raw_processor True) sample_handler 0"
  let ?p = "add_postprocess_task (new_raw_processor True)"
  let ?inputs = "[\<lparr>conn_data_type = ''DataRequest'', conn_uid = ''requests''\<rparr>,
      \<lparr>conn_data_type = ''Frame'', conn_uid = ''raw_0''\<rparr>]"
  obtain s0 where s0: "init_dh ring_pcq plain_daq sample_file_env (\<lambda>_. True) ?inputs [] (Inr frames_queue) frames_queue ?p 16
      plain_conf 0 ?new = Inr s0" "has_data_request_receiver s0" "\<not> callback_mode s0"
    by (simp add: init_dh_def init_outputs_def conf_rh_def conf_recorder_def plain_conf_def new_request_handler_def Let_def
        new_data_handler_def)
  have new: "items_to_postprocess_queues ?p = []" by (simp add: add_postprocess_task_def new_raw_processor_def)
  have mem: "alloc_succeeds plain_env StdMalloc 2" by (simp add: plain_env_def)
  have size: "2 \<le> (16::u64) \<and> unat (16::u64) < 2 ^ 31" by simp
  note ok = handler_stays_well_formed [OF ring.bounded_fifo_axioms size new frames_queue_inv mem s0(1), where R = "dummy_ops 16"
      and search = "bs_lower_bound (dummy_ops 16)"]
  obtain s1 where s1: "start_dh 5 0 s0 = Inr s1" using ok [OF rtranclp.rtrancl_refl] s0(2) by fastforce
  then have "rtranclp (dh_step (dummy_ops 16) (queue_lb_ops (bs_lower_bound (dummy_ops 16))) ring_pcq plain_daq sample_file_env
      (scrap_q plain_env)) s0 s1" by (blast intro: Start Handler)
  from ok [OF this] have typed: "dh_ok queue_inv s1 \<and> (\<exists>s'. process_items (dummy_ops 16) (queue_lb_ops (bs_lower_bound (dummy_ops 16)))
      ring_pcq [frame_at 164] s1 = Inr s')" by blast
  have "consumer_running s1" using s0(2,3) s1 by (auto simp: start_dh_def bindE_eq_Inr_iff Let_def)
  then show ?thesis using s0(1) s1 typed unfolding BinarySearchQueueModel_def by blast
qed

end
