(* ===== verification/Module_Contract.thy ===== *)
theory Module_Contract
  imports Module_Control Handler_Typing
begin

text \<open>
  What the module bases promise: a configured card reader has only configured emulators, a failed
  configuration has to be scrapped before the next attempt, and a run that is stopped and started
  again begins with an empty buffer and fresh counters.
\<close>

section \<open>The map of emulators\<close>

definition reader_map_inv :: "'e emulator_map \<Rightarrow> bool" where
  "reader_map_inv m \<longleftrightarrow> distinct (map fst m) \<and> None \<notin> snd ` set m"

definition configured_entry :: "'e emulator_ops \<Rightarrow> string \<times> 'e option \<Rightarrow> bool" where
  "configured_entry C p \<longleftrightarrow> (case snd p of None \<Rightarrow> False | Some e \<Rightarrow> emu_is_configured C e)"

lemma map_of_put_emulator: "map_of (put_emulator k v m) = (map_of m)(k \<mapsto> v)"
proof (cases "map_of m k = None")
  case True
  have "map_of (insort_key fst (k, v) m) = (map_of m)(k \<mapsto> v)"
    using True by (induction m) (auto simp: fun_eq_iff)
  then show ?thesis using True by (simp add: put_emulator_def)
next
  case False
  have "k \<in> fst ` set m \<Longrightarrow> map_of (map (\<lambda>p. if fst p = k then (k, v) else p) m) = (map_of m)(k \<mapsto> v)"
  proof (induction m)
    case (Cons p m)
    then show ?case
    proof (cases "k \<in> fst ` set m")
      case False
      then have "map (\<lambda>p. if fst p = k then (k, v) else p) m = m" by (induction m) auto
      then show ?thesis using Cons.prems False by (cases p) (auto simp: fun_eq_iff)
    qed (auto simp: fun_eq_iff)
  qed simp
  then show ?thesis using False by (simp add: put_emulator_def map_of_eq_None_iff)
qed

lemma keys_put_emulator:
  "map fst (put_emulator k v m) = (if map_of m k = None then insort k (map fst m) else map fst m)"
proof -
  have "map fst (insort_key fst (k, v) m) = insort k (map fst m)" by (induction m) auto
  moreover have "map fst (map (\<lambda>p. if fst p = k then (k, v) else p) m) = map fst m" by (induction m) auto
  ultimately show ?thesis by (simp add: put_emulator_def)
qed

lemma put_emulator_keys: "fst ` set (put_emulator k v m) = insert k (fst ` set m)"
proof -
  have "set (map fst (put_emulator k v m)) = insert k (set (map fst m))"
    unfolding keys_put_emulator by (auto simp: set_insort_key map_of_eq_None_iff)
  then show ?thesis by simp
qed

lemma distinct_put_emulator: "distinct (map fst m) \<Longrightarrow> distinct (map fst (put_emulator k v m))"
  by (simp add: keys_put_emulator distinct_insort map_of_eq_None_iff)

lemma reader_map_inv_put: "reader_map_inv m \<Longrightarrow> reader_map_inv (put_emulator k (Some e) m)"
  using distinct_put_emulator [of m k "Some e"]
  by (auto simp: reader_map_inv_def put_emulator_def set_insort_key split: if_splits)

lemma check_configured_iff: "check_configured C m = None \<longleftrightarrow> list_all (configured_entry C) m"
  by (induction C m rule: check_configured.induct) (auto simp: configured_entry_def)

lemma for_emulators_all:
  "None \<notin> snd ` set m \<Longrightarrow> for_emulators f m = (None, map (\<lambda>(k, e). (k, map_option f e)) m)"
  by (induction f m rule: for_emulators.induct) (auto split: prod.splits)

lemma reader_map_inv_map [simp]: "reader_map_inv (map (\<lambda>(k, e). (k, map_option f e)) m) = reader_map_inv m"
  by (auto simp: reader_map_inv_def comp_def case_prod_beta image_iff) (metis not_None_eq snd_conv)

lemma fst_image_map_option [simp]: "(\<lambda>x. fst (case x of (k, e) \<Rightarrow> (k, map_option f e))) ` A = fst ` A"
  by force

lemma conf_outputs_inv:
  "reader_map_inv m \<Longrightarrow> conf_outputs C cfg os m = (f, m') \<Longrightarrow>
   reader_map_inv m' \<and> set (map fst m') = set (map fst m)"
proof (induction C cfg os m rule: conf_outputs.induct)
  case (3 C cfg q sid os m)
  have keys: "fst ` set (put_emulator q v m) = fst ` set m" if "map_of m q \<noteq> None" for v
    using that by (auto simp: put_emulator_keys map_of_eq_None_iff)
  show ?case
    using 3 reader_map_inv_put [of m q] keys
    by (fastforce split: option.splits if_splits prod.splits)
qed auto

section \<open>The card reader\<close>

datatype reader_cmd = ConfReader reader_conf | ScrapReader | StartReader | StopReader

fun reader_run :: "'e emulator_ops \<Rightarrow> reader_cmd \<Rightarrow> 'e card_reader \<Rightarrow> 'e card_reader" where
  "reader_run C (ConfReader cfg) r = snd (conf_reader C cfg r)"
| "reader_run C ScrapReader r = snd (scrap_reader C r)"
| "reader_run C StartReader r = snd (start_reader C r)"
| "reader_run C StopReader r = snd (stop_reader C r)"

definition reader_inv :: "'e emulator_ops \<Rightarrow> string set \<Rightarrow> 'e card_reader \<Rightarrow> bool" where
  "reader_inv C qs r \<longleftrightarrow>
     reader_map_inv (cr_source_emus r) \<and> set (map fst (cr_source_emus r)) = qs \<and>
     (cr_configured r \<longrightarrow> list_all (configured_entry C) (cr_source_emus r))"

lemma init_emulators_inv:
  "reader_map_inv m \<Longrightarrow> init_emulators C create qs m = (None, m') \<Longrightarrow>
   reader_map_inv m' \<and> set (map fst m') = set (map fst m) \<union> set qs"
proof (induction C create qs m rule: init_emulators.induct)
  case (2 C create q qs m)
  then show ?case
    using reader_map_inv_put [of m q]
    by (fastforce simp: put_emulator_keys split: option.splits if_splits)
qed auto

context emulator_concept
begin

lemma configured_entry_kept:
  "(\<And>e. emu_is_configured C (f e) = emu_is_configured C e) \<Longrightarrow>
   configured_entry C (k, map_option f e) = configured_entry C (k, e)"
  by (cases e) (simp_all add: configured_entry_def)

lemma reader_run_inv: "reader_inv C qs r \<Longrightarrow> reader_inv C qs (reader_run C cmd r)"
proof (cases cmd)
  case (ConfReader cfg)
  assume inv: "reader_inv C qs r"
  obtain f m where co: "conf_outputs C cfg (rdc_outputs cfg) (cr_source_emus r) = (f, m)" by fastforce
  have "reader_map_inv m" "set (map fst m) = qs"
    using conf_outputs_inv [OF _ co] inv by (auto simp: reader_inv_def)
  then show ?thesis
    using inv co ConfReader
    by (auto simp: conf_reader_def reader_inv_def check_configured_iff split: option.splits)
next
  case ScrapReader
  assume inv: "reader_inv C qs r"
  then have none: "None \<notin> snd ` set (cr_source_emus r)" by (simp add: reader_inv_def reader_map_inv_def)
  show ?thesis
    using inv ScrapReader by (simp add: for_emulators_all [OF none] scrap_reader_def reader_inv_def)
next
  case StartReader
  assume inv: "reader_inv C qs r"
  then have none: "None \<notin> snd ` set (cr_source_emus r)" by (simp add: reader_inv_def reader_map_inv_def)
  show ?thesis
    using inv StartReader configured_entry_kept [OF start_configured]
    by (auto simp: for_emulators_all [OF none] start_reader_def reader_inv_def list_all_iff)
next
  case StopReader
  assume inv: "reader_inv C qs r"
  then have none: "None \<notin> snd ` set (cr_source_emus r)" by (simp add: reader_inv_def reader_map_inv_def)
  show ?thesis
    using inv StopReader configured_entry_kept [OF stop_configured]
    by (auto simp: for_emulators_all [OF none] stop_reader_def reader_inv_def list_all_iff)
qed

end

lemma reader_runs_inv:
  "emulator_concept C \<Longrightarrow> reader_inv C qs r \<Longrightarrow> reader_inv C qs (fold (reader_run C) cmds r)"
  by (induction cmds arbitrary: r) (simp_all add: emulator_concept.reader_run_inv)

text \<open>
  C25. After a successful \<open>init\<close>, whatever sequence of conf, scrap, start and stop commands runs,
  with whatever failures: the reader keeps exactly one emulator per output and no null pointer,
  and it is marked configured only while every emulator is configured.
\<close>

theorem configured_reader_has_configured_emulators:
  fixes cmds :: "reader_cmd list"
  assumes C: "emulator_concept C" and init: "init_reader C create True outputs new_card_reader = (None, r0)"
  defines "r \<equiv> fold (reader_run C) cmds r0"
  shows "distinct (map fst (cr_source_emus r)) \<and> set (map fst (cr_source_emus r)) = set outputs \<and>
         None \<notin> snd ` set (cr_source_emus r) \<and>
         (cr_configured r \<longrightarrow> list_all (configured_entry C) (cr_source_emus r))"
proof -
  obtain m where m: "init_emulators C create outputs [] = (None, m)" "r0 = new_card_reader\<lparr>cr_source_emus := m\<rparr>"
    using init by (auto simp: init_reader_def new_card_reader_def split: prod.splits)
  have "reader_inv C (set outputs) r0"
    using init_emulators_inv [OF _ m(1)] m(2) by (simp add: reader_inv_def reader_map_inv_def new_card_reader_def)
  then have "reader_inv C (set outputs) r" unfolding r_def by (rule reader_runs_inv [OF C])
  then show ?thesis by (simp add: reader_inv_def reader_map_inv_def)
qed

lemma conf_outputs_already_configured:
  "(Some (q, sid)) \<in> set os \<Longrightarrow> map_of m q = Some (Some e) \<Longrightarrow> emu_is_configured C e \<Longrightarrow>
   \<exists>f m'. conf_outputs C cfg os m = (Some f, m')"
proof (induction C cfg os m rule: conf_outputs.induct)
  case (3 C cfg q' sid' os m)
  show ?case
  proof (cases "q' = q")
    case True
    then show ?thesis using 3 by auto
  next
    case False
    then have rest: "Some (q, sid) \<in> set os" using 3 by auto
    have "map_of (put_emulator q' v m) q = Some (Some e)" for v
      using False 3 by (simp add: map_of_put_emulator)
    then show ?thesis
      using 3 rest by (fastforce split: option.splits if_splits prod.splits)
  qed
qed auto

text \<open>
  When a configuration has failed after some emulator was configured, every further \<open>do_conf\<close>
  that names its queue fails as well, however the configuration is corrected, until the reader is
  scrapped, which leaves no emulator configured.
\<close>

theorem failed_configuration_needs_scrap:
  assumes C: "emulator_concept C" and out: "Some (q, sid) \<in> set (rdc_outputs cfg)" and r: "\<not> cr_configured r"
    and e: "map_of (cr_source_emus r) q = Some (Some e)" "emu_is_configured C e"
    and null: "None \<notin> snd ` set (cr_source_emus r)"
  shows "(\<exists>f r'. conf_reader C cfg r = (Some f, r') \<and> \<not> cr_configured r') \<and>
         (\<exists>r'. scrap_reader C r = (None, r') \<and> list_all (\<lambda>p. \<not> configured_entry C p) (cr_source_emus r'))"
proof -
  obtain f m where "conf_outputs C cfg (rdc_outputs cfg) (cr_source_emus r) = (Some f, m)"
    using conf_outputs_already_configured [OF out e] by blast
  then have "\<exists>f r'. conf_reader C cfg r = (Some f, r') \<and> \<not> cr_configured r'" using r by (simp add: conf_reader_def)
  moreover have "\<not> configured_entry C (k, map_option (emu_scrap C) v)" for k v
    using emulator_concept.scrap_configured [OF C] by (cases v) (simp_all add: configured_entry_def)
  then have "\<exists>r'. scrap_reader C r = (None, r') \<and> list_all (\<lambda>p. \<not> configured_entry C p) (cr_source_emus r')"
    using for_emulators_all [OF null, of "emu_scrap C"] by (auto simp: scrap_reader_def list_all_iff)
  ultimately show ?thesis by blast
qed

text \<open>The concept on one-byte elements, and a reader with two of them, the first configured.\<close>

definition byte_emulators :: "dummy_frame source_emulator emulator_ops" where
  "byte_emulators =
     SourceEmulatorModel byte_type sample_random (se_error_bit_generator sample_emulator)
       sample_file_env
       [''frames.bin'' \<mapsto> [10, 20]] 5 0"

lemma byte_emulators_concept: "emulator_concept byte_emulators"
  unfolding byte_emulators_def by (rule emulator.emulator_concept_axioms)

definition half_configured :: "dummy_frame source_emulator card_reader" where
  "half_configured = new_card_reader\<lparr>cr_source_emus :=
     [(''a'', Some (sample_emulator\<lparr>se_is_configured := True\<rparr>)), (''b'', Some sample_emulator)]\<rparr>"

theorem configured_reader_has_configured_emulators_witness:
  "\<exists>r0. init_reader byte_emulators (\<lambda>_. Some sample_emulator) True [''b'', ''a''] new_card_reader = (None, r0) \<and>
        set (map fst (cr_source_emus (fold (reader_run byte_emulators) [ScrapReader, StartReader, StopReader] r0))) =
          {''a'', ''b''}"
proof -
  obtain r0 where r0: "init_reader byte_emulators (\<lambda>_. Some sample_emulator) True [''b'', ''a''] new_card_reader = (None, r0)"
    by (simp add: init_reader_def new_card_reader_def map_of_put_emulator)
  show ?thesis
    using configured_reader_has_configured_emulators [OF byte_emulators_concept r0, of "[ScrapReader, StartReader, StopReader]"] r0
    by auto
qed

theorem failed_configuration_needs_scrap_witness:
  "\<exists>f r'. conf_reader byte_emulators
           \<lparr>rdc_streams = [], rdc_outputs = [Some (''a'', 1)], rdc_emulation = sample_emulation_conf\<rparr> half_configured =
         (Some f, r') \<and> \<not> cr_configured r'"
  using failed_configuration_needs_scrap [OF byte_emulators_concept, of "''a''" 1
      "\<lparr>rdc_streams = [], rdc_outputs = [Some (''a'', 1)], rdc_emulation = sample_emulation_conf\<rparr>" half_configured
      "sample_emulator\<lparr>se_is_configured := True\<rparr>"]
  by (simp add: half_configured_def new_card_reader_def byte_emulators_def SourceEmulatorModel_def)

section \<open>The data handler module\<close>

lemma stop_dh_queue:
  assumes inv: "queue_inv (latency_buffer_impl m)" and recv: "has_data_request_receiver m"
  obtains b where "flush_q (latency_buffer_impl m) = Inr b" "queue_inv b" "contents b = []"
    "stop_dh (queue_lb_ops search) P m =
       Inr (m\<lparr>has_request_callback := False, request_handler_impl := stop_rh (request_handler_impl m),
              timesync_running := False, consumer_running := False, latency_buffer_impl := b,
              raw_processor_impl := reset_last_daq_time (stop_rp P (raw_processor_impl m))\<rparr>)"
proof -
  obtain b where "flush_q (latency_buffer_impl m) = Inr b" "queue_inv b" "contents b = []"
    using flush_q_spec [OF inv] by blast
  then show thesis using that recv by (simp add: stop_dh_def queue_lb_ops_def Let_def)
qed

text \<open>
  C32. Stopping a data handler module that runs and receives requests, with no recording in progress and no task of the request
  pool left (the state in which the waits of the request handler's \<open>stop\<close> are over), clears the run
  markers, stops both threads and the requests, and empties the latency buffer, while the requests that
  wait for data stay in the list. It returns only when the post-processing threads have emptied
  their queues: each post-processor has then processed all that was handed to it and not refused, in order,
  although the buffer that held these elements was flushed before. Starting again sets the new run
  number and begins with all counters at 0.
\<close>

theorem stopped_module_restarts_clean:
  fixes m :: "('a iterable_queue, 'q, 'a, 'f) data_handler" and fenv :: file_env and P :: "('q, 'a option) pcq_ops"
    and search :: "'a \<Rightarrow> bool \<Rightarrow> 'a iterable_queue \<Rightarrow> (fault + u32) option"
    and scrap_buffer :: "'a iterable_queue \<Rightarrow> fault + 'a iterable_queue"
  assumes queues: "bounded_fifo P pcq_inv elems valid_size"
    and impl: "rdh_readout_impl r = Some m" and ok: "dh_ok pcq_inv m" and recv: "has_data_request_receiver m"
    and running: "rp_run_marker (raw_processor_impl m)" and waited: "rh_threads_done (request_handler_impl m)"
  defines "C \<equiv> DataHandlingModel (queue_lb_ops search) P fenv scrap_buffer"
    and "n \<equiv> length (items_to_postprocess_queues (raw_processor_impl m))"
  shows "\<exists>r1 m1 r2 m2. do_stop_rdh C stop_args r = (None, r1) \<and> rdh_readout_impl r1 = Some m1 \<and>
           \<not> rdh_run_marker r1 \<and> dh_ok pcq_inv m1 \<and> contents (latency_buffer_impl m1) = [] \<and>
           \<not> has_request_callback m1 \<and> \<not> consumer_running m1 \<and> \<not> timesync_running m1 \<and>
           \<not> run_marker (request_handler_impl m1) \<and> rh_threads_done (request_handler_impl m1) \<and>
           waiting_requests (request_handler_impl m1) = waiting_requests (request_handler_impl m) \<and>
           \<not> rp_run_marker (raw_processor_impl m1) \<and>
           (\<forall>i < n. elems (items_to_postprocess_queues (raw_processor_impl m1) ! i) = [] \<and>
              post_process_functions (raw_processor_impl m1) ! i = stream_of elems (raw_processor_impl m) i) \<and>
           do_start_rdh C (\<lambda>_. Some run) (Some run, now) r1 = (None, r2) \<and> rdh_readout_impl r2 = Some m2 \<and>
           rdh_run_marker r2 \<and> rdh_run_number r2 = run \<and> dh_run_number m2 = run \<and> has_request_callback m2 \<and>
           [num_payloads m2, sum_payloads m2, num_requests m2, sum_requests m2, num_payloads_overwritten m2] = [0, 0, 0, 0, 0] \<and>
           contents (latency_buffer_impl m2) = []"
proof -
  note q = pointer_queues.intro [OF queues]
  let ?p = "reset_last_daq_time (stop_rp P (raw_processor_impl m))"
  have inv: "queue_inv (latency_buffer_impl m)" and rp: "rp_ok pcq_inv (raw_processor_impl m)" using ok by (simp_all add: dh_ok_def)
  obtain b where b: "contents b = []" "stop_dh (queue_lb_ops search) P m =
       Inr (m\<lparr>has_request_callback := False, request_handler_impl := stop_rh (request_handler_impl m),
              timesync_running := False, consumer_running := False, latency_buffer_impl := b, raw_processor_impl := ?p\<rparr>)"
    using stop_dh_queue [OF inv recv] by blast
  let ?m1 = "m\<lparr>has_request_callback := False, request_handler_impl := stop_rh (request_handler_impl m),
      timesync_running := False, consumer_running := False, latency_buffer_impl := b, raw_processor_impl := ?p\<rparr>"
  have ok1: "dh_ok pcq_inv ?m1" by (rule pointer_queues.stop_dh_ok(2) [OF q ok b(2)])
  obtain m2 where m2: "start_dh run now ?m1 = Inr m2" using pointer_queues.start_dh_ok(1) [OF q ok1] recv by auto
  have drained: "elems (items_to_postprocess_queues ?p ! i) = [] \<and>
      post_process_functions ?p ! i = stream_of elems (raw_processor_impl m) i" if "i < n" for i
    using bounded_fifo.stop_rp_spec(5) [OF queues rp running] that by (simp add: n_def reset_last_daq_time_def)
  have off: "\<not> rp_run_marker ?p" "\<not> run_marker (stop_rh (request_handler_impl m))" "rh_threads_done (stop_rh (request_handler_impl m))"
      "waiting_requests (stop_rh (request_handler_impl m)) = waiting_requests (request_handler_impl m)"
    using bounded_fifo.stop_rp_spec(2) [OF queues rp] waited by (simp_all add: reset_last_daq_time_def stop_rh_def rh_threads_done_def)
  have started: "dh_run_number m2 = run \<and> has_request_callback m2 \<and> latency_buffer_impl m2 = b \<and>
      [num_payloads m2, sum_payloads m2, num_requests m2, sum_requests m2, num_payloads_overwritten m2] = [0, 0, 0, 0, 0]"
    using m2 by (auto simp: start_dh_def bindE_eq_Inr_iff Let_def split: if_split_asm)
  have stop: "do_stop_rdh C stop_args r = (None, r\<lparr>rdh_run_marker := False, rdh_readout_impl := Some ?m1\<rparr>)"
    using impl b(2) by (simp add: C_def do_stop_rdh_def call_impl_def DataHandlingModel_def)
  have start: "do_start_rdh C (\<lambda>_. Some run) (Some run, now) (r\<lparr>rdh_run_marker := False, rdh_readout_impl := Some ?m1\<rparr>) =
      (None, r\<lparr>rdh_run_marker := True, rdh_readout_impl := Some m2, rdh_run_number := run\<rparr>)"
    using m2 by (simp add: C_def do_start_rdh_def call_impl_def DataHandlingModel_def)
  show ?thesis
    using stop start ok1 b(1) off drained started
    by (intro exI [of _ "r\<lparr>rdh_run_marker := False, rdh_readout_impl := Some ?m1\<rparr>"] exI [of _ ?m1]
        exI [of _ "r\<lparr>rdh_run_marker := True, rdh_readout_impl := Some m2, rdh_run_number := run\<rparr>"] exI [of _ m2]) simp
qed

text \<open>A running handler whose post-processor has taken one frame and still has one in its queue.\<close>

definition busy_dh ::
  "(dummy_frame iterable_queue, dummy_frame option iterable_queue, dummy_frame, plain_fragment) data_handler" where
  "busy_dh = (sample_dh frames_queue 0)\<lparr>raw_processor_impl :=
     fold (rp_step ring_pcq) [PostItem (Some (frame_at 100)), ThreadRound 0, PostItem (Some (frame_at 116))]
       ((conf_rp ring_pcq 8 1 (add_postprocess_task (new_raw_processor True)))\<lparr>rp_run_marker := True\<rparr>)\<rparr>"

theorem stopped_module_restarts_clean_witness:
  "\<exists>r1 m1 r2. do_stop_rdh (DataHandlingModel (queue_lb_ops (bs_lower_bound (dummy_ops 16))) ring_pcq sample_file_env Inr) (None, 0)
        ((new_raw_data_handler 0)\<lparr>rdh_readout_impl := Some busy_dh\<rparr>) = (None, r1) \<and>
      rdh_readout_impl r1 = Some m1 \<and> contents (latency_buffer_impl m1) = [] \<and>
      post_process_functions (raw_processor_impl m1) ! 0 = stream_of contents (raw_processor_impl busy_dh) 0 \<and>
      do_start_rdh (DataHandlingModel (queue_lb_ops (bs_lower_bound (dummy_ops 16))) ring_pcq sample_file_env Inr)
        (\<lambda>_. Some 7) (Some 7, 1) r1 = (None, r2) \<and> rdh_run_number r2 = 7"
proof -
  let ?r = "(new_raw_data_handler 0)\<lparr>rdh_readout_impl := Some busy_dh\<rparr>"
  let ?p = "(conf_rp ring_pcq 8 1 (add_postprocess_task (new_raw_processor True)))\<lparr>rp_run_marker := True\<rparr>
      :: (dummy_frame option iterable_queue, dummy_frame, dummy_frame option) raw_processor"
  have "queue_inv (pcq_new ring_pcq 8 :: dummy_frame option iterable_queue) \<and>
      contents (pcq_new ring_pcq 8) = ([] :: dummy_frame option list)"
    by (rule ring.new_empty) simp
  then have "rp_ok queue_inv ?p \<and> length (items_to_postprocess_queues ?p) = 1 \<and> rp_run_marker ?p"
    by (simp add: conf_rp_def add_postprocess_task_def new_raw_processor_def rp_ok_def)
  moreover have "raw_processor_impl busy_dh = fold (rp_step ring_pcq)
      [PostItem (Some (frame_at 100)), ThreadRound 0, PostItem (Some (frame_at 116))] ?p"
    by (simp add: busy_dh_def)
  ultimately obtain p ops where p: "rp_ok queue_inv p" "length (items_to_postprocess_queues p) = 1" "rp_run_marker p"
      and fold: "raw_processor_impl busy_dh = fold (rp_step ring_pcq) ops p" "\<forall>j. ThreadRound j \<in> set ops \<longrightarrow> j < 1"
    by (metis (no_types, lifting) rp_op.distinct(1) rp_op.inject(2) empty_iff empty_set less_one set_ConsD)
  have step: "rp_run_marker (rp_step ring_pcq x p') = rp_run_marker p'"
    for x and p' :: "(dummy_frame option iterable_queue, dummy_frame, dummy_frame option) raw_processor"
    by (cases x) (simp_all add: postprocess_item_def post_thread_round_def split: prod.split option.split)
  have "rp_run_marker (fold (rp_step ring_pcq) os p') = rp_run_marker p'"
    for os and p' :: "(dummy_frame option iterable_queue, dummy_frame, dummy_frame option) raw_processor"
    by (induction os arbitrary: p') (simp_all add: step)
  then have busy: "rp_ok queue_inv (raw_processor_impl busy_dh)" "rp_run_marker (raw_processor_impl busy_dh)"
      "length (items_to_postprocess_queues (raw_processor_impl busy_dh)) = 1"
    using ring.run_ops_stream [OF p(1), of 0 ops] p(2,3) fold by auto
  have ok: "dh_ok queue_inv busy_dh" "has_data_request_receiver busy_dh" "rh_threads_done (request_handler_impl busy_dh)"
    using busy(1) frames_queue_inv
    by (simp_all add: dh_ok_def busy_dh_def sample_dh_def rh_ok_def rh_threads_done_def sample_handler_def new_request_handler_def)
  have impl: "rdh_readout_impl ?r = Some busy_dh" by simp
  show ?thesis
    using stopped_module_restarts_clean [OF ring.bounded_fifo_axioms impl ok(1,2) busy(2) ok(3),
        where search = "bs_lower_bound (dummy_ops 16)" and fenv = sample_file_env
        and scrap_buffer = Inr and stop_args = "(None, 0)" and run = 7 and now = 1] busy(3)
    by fastforce
qed

end
