(* ===== verification/Zero_Copy_Recording.thy ===== *)
theory Zero_Copy_Recording
  imports Request_Contract
begin

text \<open>
  The request handler that records straight from the memory of the latency buffer
  (models/ZeroCopyRecordingRequestHandlerModel.hpp and its detail file). Addresses are numbers of
  bytes: the buffer lies at \<open>base\<close>, its slots are \<open>esz\<close> bytes apart (the size of the readout type), and
  element \<open>i\<close> has the address \<open>base + i * esz\<close>; \<open>fps\<close> is the constant \<open>fixed_payload_size\<close> of the readout type. \<open>::write\<close> is an argument that answers the number of bytes written or \<open>-1\<close>, and
  the file is the list of the writes that were made, as ranges of addresses.
\<close>

section \<open>State\<close>

datatype zc_event = BufferNotAligned | ChunkNotAligned | ZcRecordingStillRunning | DurationMissing | ZeroDuration | WriteFailed

record zc_write =
  zw_address :: nat
  zw_length :: nat
  zw_direct :: bool
  zw_result :: int

record 'f zero_copy_handler =
  zc_base :: "'f request_handler"
  zc_fd_open :: bool
  zc_direct :: bool
  zc_writes :: "zc_write list"
  zc_events :: "zc_event list"

definition zc_emit :: "zc_event \<Rightarrow> 'f zero_copy_handler \<Rightarrow> 'f zero_copy_handler" where
  "zc_emit ev z = z\<lparr>zc_events := zc_events z @ [ev]\<rparr>"

section \<open>Configuration\<close>

text \<open>
  \<open>id_string\<close> prints a source id. With an output file the old file is removed and the new one
  opened, with \<open>O_DIRECT\<close> when it is asked for; then the default configuration follows, which finds
  the recording configured and opens nothing.
\<close>

definition conf_zc ::
  "('a, 'f) daq_env \<Rightarrow> file_env \<Rightarrow> (SourceID \<Rightarrow> string) \<Rightarrow> nat \<Rightarrow> 'a iterable_queue \<Rightarrow> request_handler_conf \<Rightarrow>
   'f zero_copy_handler \<Rightarrow> fault + 'f zero_copy_handler" where
  "conf_zc D fenv id_string esz q c z =
     bindE
       (case hc_data_recorder c of
          None \<Rightarrow> Inr z
        | Some dr \<Rightarrow>
            if dr_output_file dr = [] then Inr z
            else let h = (zc_base z)\<lparr>sourceid := \<lparr>subsystem = rdt_subsystem D, source_id = hc_source_id c\<rparr>,
                                     stream_buffer_size := dr_streaming_buffer_size dr\<rparr>;
                     z = (if alignment_size q = 0 \<or> esz * unat (qsize q) mod 4096 \<noteq> 0 then zc_emit BufferNotAligned z else z);
                     z = (if stream_buffer_size h mod 4096 \<noteq> 0 then zc_emit ChunkNotAligned z else z);
                     file_full_path = dr_output_file dr @ id_string (sourceid h) @ ''.bin'';
                     h = h\<lparr>output_file := file_full_path, disk := (disk h)(file_full_path := None)\<rparr>
                 in if \<not> can_open fenv file_full_path then Inl ConfigurationError
                    else Inr (z\<lparr>zc_base := h\<lparr>disk := (disk h)(file_full_path \<mapsto> []), recording_configured := True\<rparr>,
                                zc_direct := dr_use_o_direct dr, zc_fd_open := True\<rparr>))
       (\<lambda>z. bindE (conf_rh D fenv c (zc_base z)) (\<lambda>h. Inr (z\<lparr>zc_base := h\<rparr>)))"

section \<open>Recording\<close>

text \<open>The checks of the command; the duration is in seconds, \<open>None\<close> when it is missing.\<close>

definition record_accepted_zc :: "int option \<Rightarrow> 'f zero_copy_handler \<Rightarrow> int option \<times> 'f zero_copy_handler" where
  "record_accepted_zc duration z =
     (if recording (zc_base z) then (None, zc_emit ZcRecordingStillRunning z)
      else let (recording_time_sec, z) = (case duration of Some d \<Rightarrow> (d, z) | None \<Rightarrow> (0, zc_emit DurationMissing z))
           in if recording_time_sec = 0 then (None, zc_emit ZeroDuration z)
              else (Some recording_time_sec, z))"

definition address_of :: "nat \<Rightarrow> nat \<Rightarrow> u32 \<Rightarrow> nat" where
  "address_of base esz i = base + unat i * esz"

definition start_of_buffer :: "nat \<Rightarrow> nat" where
  "start_of_buffer base = base"

definition end_of_buffer :: "nat \<Rightarrow> nat \<Rightarrow> 'a iterable_queue \<Rightarrow> nat" where
  "end_of_buffer base esz q = base + unat (qsize q) * esz"

text \<open>
  Skipping elements until one is aligned. At the end of the buffer the \<open>continue\<close> of the code goes on
  with this same loop, only the next timestamp is reset; the result is the iterator and whether the
  timestamp was reset.
\<close>

partial_function (option) skip_unaligned :: "nat \<Rightarrow> nat \<Rightarrow> nat \<Rightarrow> 'a iterable_queue \<Rightarrow> u32 \<Rightarrow> bool \<Rightarrow> (u32 \<times> bool) option"
where
  "skip_unaligned base esz align q it reset =
     (if address_of base esz it mod align = 0 then Some (it, reset)
      else let it = iter_next q it
           in skip_unaligned base esz align q it (reset \<or> \<not> good q it))"

record zc_locals =
  zl_current_write_pointer :: "nat option"
  zl_current_end_pointer :: nat
  zl_bytes_written :: u64
  zl_failed_writes :: u64

text \<open>One call of \<open>::write\<close>: the code takes a result other than 0 for success.\<close>

definition write_range ::
  "(nat \<Rightarrow> nat \<Rightarrow> int) \<Rightarrow> bool \<Rightarrow> nat \<Rightarrow> nat \<Rightarrow> zc_locals \<times> 'f zero_copy_handler \<Rightarrow> bool \<times> zc_locals \<times> 'f zero_copy_handler" where
  "write_range wr direct addr len = (\<lambda>(l, z).
     let res = (if zc_fd_open z then wr addr len else - 1);
         failed_write = (res = 0);
         z = z\<lparr>zc_writes := zc_writes z @ [\<lparr>zw_address = addr, zw_length = len, zw_direct = direct, zw_result = res\<rparr>]\<rparr>;
         l = (if failed_write then l else l\<lparr>zl_bytes_written := zl_bytes_written l + of_nat len\<rparr>)
     in (failed_write, l, z))"

text \<open>What is written next, and where the pointer goes: nothing when a whole chunk is not there yet.\<close>

definition next_range :: "nat \<Rightarrow> nat \<Rightarrow> nat \<Rightarrow> nat \<Rightarrow> nat \<Rightarrow> (nat \<times> bool) option \<times> nat" where
  "next_range start_buf end_buf chunk_size cwp cep =
     (if cwp + chunk_size < cep then (Some (chunk_size, True), cwp + chunk_size)
      else if cep < cwp
      then if cwp + chunk_size < end_buf then (Some (chunk_size, True), cwp + chunk_size)
           else (Some (end_buf - cwp, False), start_buf)
      else (None, cwp))"

text \<open>
  The timestamp of the element that the pointer stands in. The code computes where it begins with the
  constant \<open>fixed_payload_size\<close> of the readout type, \<open>fps\<close>; at an address where no slot begins there is
  no element to read.
\<close>

definition frame_begin :: "nat \<Rightarrow> nat \<Rightarrow> nat \<Rightarrow> nat" where
  "frame_begin base fps cwp = base + (cwp - base) div fps * fps"

definition timestamp_at :: "'a readout_ops \<Rightarrow> nat \<Rightarrow> nat \<Rightarrow> nat \<Rightarrow> 'a iterable_queue \<Rightarrow> nat \<Rightarrow> fault + u64" where
  "timestamp_at R base esz fps q cwp =
     (if fps = 0 then Inl DivisionByZero
      else let offset = frame_begin base fps cwp - base
           in if cwp < base \<or> offset mod esz \<noteq> 0 then Inl InvalidAccess
              else bindE (slot (records q) (offset div esz)) (\<lambda>x. Inr (get_timestamp R x)))"

text \<open>One pass of the inner loop.\<close>

definition chunk_pass ::
  "'a readout_ops \<Rightarrow> (nat \<Rightarrow> nat \<Rightarrow> int) \<Rightarrow> nat \<Rightarrow> nat \<Rightarrow> nat \<Rightarrow> 'a iterable_queue \<Rightarrow> nat \<Rightarrow> zc_locals \<times> 'f zero_copy_handler \<Rightarrow>
   fault + (zc_locals \<times> 'f zero_copy_handler)" where
  "chunk_pass R wr base esz fps q cwp = (\<lambda>(l, z).
     let end_buf = end_of_buffer base esz q
     in if alignment_size q = 0 then Inl DivisionByZero
        else case next_range (start_of_buffer base) end_buf (unat (stream_buffer_size (zc_base z))) cwp
                    (zl_current_end_pointer l) of
               (rng, cwp') \<Rightarrow>
                 let (failed_write, l, z) =
                       (case rng of
                          None \<Rightarrow> (False, l, z)
                        | Some (len, direct) \<Rightarrow> write_range wr (direct \<and> zc_direct z) cwp len (l, z));
                     cwp' = (if cwp' = end_buf then start_of_buffer base else cwp');
                     l = l\<lparr>zl_current_write_pointer := Some cwp'\<rparr>;
                     (l, z) = (if failed_write
                               then (l\<lparr>zl_failed_writes := zl_failed_writes l + 1\<rparr>, zc_emit WriteFailed z)
                               else (l, z))
                 in bindE (timestamp_at R base esz fps q cwp') (\<lambda>ts.
                      Inr (l, z\<lparr>zc_base := (zc_base z)\<lparr>next_timestamp_to_record := ts\<rparr>\<rparr>)))"

fun chunk_passes ::
  "'a readout_ops \<Rightarrow> (nat \<Rightarrow> nat \<Rightarrow> int) \<Rightarrow> nat \<Rightarrow> nat \<Rightarrow> nat \<Rightarrow> 'a iterable_queue \<Rightarrow> nat \<Rightarrow> zc_locals \<times> 'f zero_copy_handler \<Rightarrow>
   fault + (zc_locals \<times> 'f zero_copy_handler)" where
  "chunk_passes R wr base esz fps q 0 lz = Inr lz"
| "chunk_passes R wr base esz fps q (Suc n) (l, z) =
     (case zl_current_write_pointer l of
        None \<Rightarrow> Inl InvalidAccess
      | Some cwp \<Rightarrow> bindE (chunk_pass R wr base esz fps q cwp (l, z)) (chunk_passes R wr base esz fps q n))"

text \<open>
  One round of the outer loop with the buffer as it is then. With no timestamp to record yet, it
  looks for an aligned element to begin with; the pointer to the newest element is null for an
  empty buffer.
\<close>

definition record_round_zc ::
  "'a readout_ops \<Rightarrow> (nat \<Rightarrow> nat \<Rightarrow> int) \<Rightarrow> nat \<Rightarrow> nat \<Rightarrow> nat \<Rightarrow> 'a iterable_queue \<Rightarrow> zc_locals \<times> 'f zero_copy_handler \<Rightarrow>
   (fault + (zc_locals \<times> 'f zero_copy_handler)) option" where
  "record_round_zc R wr base esz fps q = (\<lambda>(l, z).
     let cep = (case back_q q of None \<Rightarrow> 0 | Some i \<Rightarrow> address_of base esz i)
     in if cleanup_requested (zc_base z) \<and> next_timestamp_to_record (zc_base z) \<noteq> 0 then Some (Inr (l, z))
        else if next_timestamp_to_record (zc_base z) = 0
        then let first = begin_iter q
             in if first = end_iter then Some (Inr (l, z))
                else case iter_deref q first of
                       Inl f \<Rightarrow> Some (Inl f)
                     | Inr x \<Rightarrow>
                         if alignment_size q = 0 then Some (Inl DivisionByZero)
                         else case skip_unaligned base esz (unat (alignment_size q)) q first False of
                                None \<Rightarrow> None
                              | Some (it, reset) \<Rightarrow>
                                  Some (chunk_passes R wr base esz fps q 100
                                    (l\<lparr>zl_current_write_pointer := Some (address_of base esz it), zl_current_end_pointer := cep\<rparr>,
                                     z\<lparr>zc_base := (zc_base z)\<lparr>next_timestamp_to_record := (if reset then 0 else get_timestamp R x)\<rparr>\<rparr>))
        else Some (chunk_passes R wr base esz fps q 100 (l\<lparr>zl_current_end_pointer := cep\<rparr>, z)))"

definition record_begin_zc :: "'f zero_copy_handler \<Rightarrow> zc_locals \<times> 'f zero_copy_handler" where
  "record_begin_zc z =
     (\<lparr>zl_current_write_pointer = None, zl_current_end_pointer = 0, zl_bytes_written = 0, zl_failed_writes = 0\<rparr>,
      z\<lparr>zc_base := (zc_base z)\<lparr>recording := True, next_timestamp_to_record := 0\<rparr>\<rparr>)"

text \<open>After the loop the element that the pointer stands in is completed and the file is closed.\<close>

definition record_end_zc ::
  "(nat \<Rightarrow> nat \<Rightarrow> int) \<Rightarrow> nat \<Rightarrow> nat \<Rightarrow> zc_locals \<times> 'f zero_copy_handler \<Rightarrow> zc_locals \<times> 'f zero_copy_handler" where
  "record_end_zc wr base fps = (\<lambda>(l, z).
     let (l, z) =
           (case zl_current_write_pointer l of
              None \<Rightarrow> (l, z)
            | Some cwp \<Rightarrow>
                let last_started_frame = frame_begin base fps cwp
                in if last_started_frame \<noteq> cwp
                   then case write_range wr False cwp (last_started_frame + fps - cwp) (l, z) of
                          (failed_write, l, z) \<Rightarrow> if failed_write then (l, zc_emit WriteFailed z) else (l, z)
                   else (l, z))
     in (l, z\<lparr>zc_fd_open := False,
              zc_base := (zc_base z)\<lparr>next_timestamp_to_record := UINT64_MAX, recording := False\<rparr>\<rparr>))"

end
