(* ===== verification/Zero_Copy_Contract.thy ===== *)
theory Zero_Copy_Contract
  imports Zero_Copy_Recording
begin

text \<open>
  What zero-copy recording promises: started at an aligned stored element, it copies the ring in
  order and without gaps, and only memory of stored elements. And where it fails: the search for
  an aligned element may never end, and a failed write is counted as written.
\<close>

section \<open>Live slots of a ring\<close>

definition live_slot :: "'a iterable_queue \<Rightarrow> nat \<Rightarrow> bool" where
  "live_slot q s \<longleftrightarrow> (\<exists>k < stored q. s = ring_slot q k)"

definition back_slot :: "'a iterable_queue \<Rightarrow> nat" where
  "back_slot q = ring_slot q (stored q - 1)"

lemma live_slot_arith:
  assumes "queue_inv q"
  defines "r \<equiv> unat (readIndex q)" and "n \<equiv> stored q" and "sz \<equiv> unat (qsize q)"
  shows "live_slot q s \<longleftrightarrow> (if r + n \<le> sz then r \<le> s \<and> s < r + n else (r \<le> s \<and> s < sz) \<or> s < r + n - sz)"
proof -
  have b: "r < sz" "n < sz" using queue_bounds [OF assms(1)] by (auto simp: r_def n_def sz_def)
  have mod: "(r + k) mod sz = (if r + k < sz then r + k else r + k - sz)" if "k < n" for k
    using add_mod_ring [OF b(1), of k] that b by simp
  have ex: "live_slot q s \<longleftrightarrow> (\<exists>k < n. s = (if r + k < sz then r + k else r + k - sz))"
    using mod by (auto simp: live_slot_def ring_slot_def r_def n_def sz_def)
  show ?thesis
  proof (cases "r \<le> s \<and> s < sz")
    case True
    then have "live_slot q s \<longleftrightarrow> s - r < n" unfolding ex using b by (auto intro!: exI [of _ "s - r"])
    then show ?thesis using True by auto
  next
    case False
    then have "live_slot q s \<longleftrightarrow> s + sz < r + n \<and> s < r" unfolding ex using b
      by (auto intro!: exI [of _ "s + sz - r"])
    then show ?thesis using False b by auto
  qed
qed

lemma back_slot_arith:
  assumes "queue_inv q" and "0 < stored q"
  shows "back_slot q = (if unat (readIndex q) + stored q \<le> unat (qsize q)
                        then unat (readIndex q) + stored q - 1
                        else unat (readIndex q) + stored q - 1 - unat (qsize q))"
  using queue_bounds [OF assms(1)] assms(2) add_mod_ring [of "unat (readIndex q)" "unat (qsize q)" "stored q - 1"]
  by (auto simp: back_slot_def ring_slot_def)

lemma live_slots_up_to_back:
  assumes "queue_inv q" and "live_slot q s" and "s \<le> t" and "t \<le> back_slot q"
  shows "live_slot q t"
proof -
  have "0 < stored q" using assms(2) by (auto simp: live_slot_def)
  then show ?thesis
    using assms queue_bounds [OF assms(1)]
    by (auto simp: live_slot_arith [OF assms(1)] back_slot_arith [OF assms(1)] split: if_splits)
qed

lemma live_slots_after_back:
  assumes "queue_inv q" and "live_slot q s" and "back_slot q < s"
  shows "s \<le> t \<Longrightarrow> t < unat (qsize q) \<Longrightarrow> live_slot q t" and "live_slot q 0"
proof -
  have "0 < stored q" using assms(2) by (auto simp: live_slot_def)
  then show "s \<le> t \<Longrightarrow> t < unat (qsize q) \<Longrightarrow> live_slot q t" "live_slot q 0"
    using assms queue_bounds [OF assms(1)]
    by (auto simp: live_slot_arith [OF assms(1)] back_slot_arith [OF assms(1)] split: if_splits)
qed

lemma live_slot_bound: "queue_inv q \<Longrightarrow> live_slot q s \<Longrightarrow> s < unat (qsize q)"
  using queue_bounds [of q] by (auto simp: live_slot_def ring_slot_def)

lemma live_slot_readable:
  assumes "queue_inv q" and "live_slot q s"
  shows "\<exists>x. slot (records q) s = Inr x"
proof -
  obtain k where k: "k < stored q" "s = ring_slot q k" using assms(2) by (auto simp: live_slot_def)
  have kb: "k < unat (qsize q)" "s < unat (qsize q)"
    using k queue_bounds [OF assms(1)] live_slot_bound [OF assms] by auto
  then have kin: "k \<in> set [0..<unat (qsize q)]" by simp
  obtain a xs where xs: "records q = Region a xs" using assms(1) by (auto simp: queue_inv_def split: region.splits)
  then have "length xs = unat (qsize q)" "(xs ! ring_slot q k \<noteq> None) = (k < stored q)"
    using assms(1) kin by (auto simp: queue_inv_def list_all_iff)
  then show ?thesis using k kb(2) xs by auto
qed

section \<open>The write pointer\<close>

text \<open>
  The pointer stands in a stored element, in the newest one only at its beginning, where the end
  pointer is.
\<close>

definition pointer_ok :: "nat \<Rightarrow> nat \<Rightarrow> 'a iterable_queue \<Rightarrow> nat \<Rightarrow> bool" where
  "pointer_ok base esz q p \<longleftrightarrow>
     base \<le> p \<and> live_slot q ((p - base) div esz) \<and>
     ((p - base) div esz = back_slot q \<longrightarrow> p = base + back_slot q * esz)"

text \<open>Ranges written one after the other, starting again at the beginning of the buffer at its end.\<close>

fun consecutive :: "nat \<Rightarrow> nat \<Rightarrow> nat \<Rightarrow> zc_write list \<Rightarrow> nat \<Rightarrow> bool" where
  "consecutive start_buf end_buf p [] p' \<longleftrightarrow> p = p'"
| "consecutive start_buf end_buf p (w # ws) p' \<longleftrightarrow>
     zw_address w = p \<and> p + zw_length w \<le> end_buf \<and>
     consecutive start_buf end_buf (if p + zw_length w = end_buf then start_buf else p + zw_length w) ws p'"

lemma consecutive_append:
  "consecutive a b p ws p' \<Longrightarrow> consecutive a b p' ws' p'' \<Longrightarrow> consecutive a b p (ws @ ws') p''"
  by (induction ws arbitrary: p) auto

definition covers_live :: "nat \<Rightarrow> nat \<Rightarrow> 'a iterable_queue \<Rightarrow> zc_write \<Rightarrow> bool" where
  "covers_live base esz q w \<longleftrightarrow>
     (\<forall>x. zw_address w \<le> x \<longrightarrow> x < zw_address w + zw_length w \<longrightarrow> base \<le> x \<and> live_slot q ((x - base) div esz))"

lemma div_less_slot: "(0::nat) < esz \<Longrightarrow> base \<le> x \<Longrightarrow> x < base + s * esz \<longleftrightarrow> (x - base) div esz < s"
  by (auto simp: div_less_iff_less_mult)

lemma slot_le_div: "(0::nat) < esz \<Longrightarrow> base \<le> x \<Longrightarrow> base + s * esz \<le> x \<longleftrightarrow> s \<le> (x - base) div esz"
  by (metis div_less_slot not_le)

lemma next_range_cases:
  assumes "next_range start_buf end_buf c p cep = (rng, p')"
  shows "p + c < cep \<and> rng = Some (c, True) \<and> p' = p + c \<or>
         cep < p \<and> p + c < end_buf \<and> rng = Some (c, True) \<and> p' = p + c \<or>
         cep < p \<and> rng = Some (end_buf - p, False) \<and> p' = start_buf \<or>
         rng = None \<and> p' = p"
  using assms unfolding next_range_def
  by (cases "p + c < cep"; cases "cep < p"; cases "p + c < end_buf") simp_all

text \<open>What is written next is stored, and the pointer stays well placed.\<close>

lemma next_range_ok:
  assumes inv: "queue_inv q" and esz: "0 < esz" and p: "pointer_ok base esz q p"
    and nr: "next_range base (end_of_buffer base esz q) c p (base + back_slot q * esz) = (rng, p')"
  defines "p'' \<equiv> (if p' = end_of_buffer base esz q then base else p')"
  shows "pointer_ok base esz q p''"
    and "rng = None \<Longrightarrow> p'' = p"
    and "rng = Some (len, d) \<Longrightarrow>
           p + len \<le> end_of_buffer base esz q \<and> p'' = (if p + len = end_of_buffer base esz q then base else p + len) \<and>
           (\<forall>x. p \<le> x \<longrightarrow> x < p + len \<longrightarrow> base \<le> x \<and> live_slot q ((x - base) div esz))"
proof -
  let ?s = "(p - base) div esz" and ?b = "back_slot q" and ?e = "end_of_buffer base esz q"
  have pb: "base \<le> p" and live: "live_slot q ?s" and inner: "?s = ?b \<Longrightarrow> p = base + ?b * esz"
    using p by (auto simp: pointer_ok_def)
  have mono: "p \<le> x \<Longrightarrow> ?s \<le> (x - base) div esz" for x by (simp add: div_le_mono)
  have pe: "p < ?e" using live_slot_bound [OF inv live] pb div_less_slot [OF esz pb] by (simp add: end_of_buffer_def)
  have inside: "x < ?e \<Longrightarrow> base \<le> x \<Longrightarrow> (x - base) div esz < unat (qsize q)" for x
    using div_less_slot [OF esz] by (simp add: end_of_buffer_def)
  have n: "0 < stored q" using live by (auto simp: live_slot_def)
  have bl: "live_slot q ?b" using n by (auto simp: live_slot_def back_slot_def intro!: exI [of _ "stored q - 1"])
  have be: "base + ?b * esz < ?e" using live_slot_bound [OF inv bl] esz by (simp add: end_of_buffer_def)
  consider (before) "p + c < base + ?b * esz" "rng = Some (c, True)" "p' = p + c"
    | (chunk) "base + ?b * esz < p" "p + c < ?e" "rng = Some (c, True)" "p' = p + c"
    | (wrap) "base + ?b * esz < p" "rng = Some (?e - p, False)" "p' = base"
    | (wait) "rng = None" "p' = p"
    using next_range_cases [OF nr] by blast
  then have "pointer_ok base esz q p'' \<and> (rng = None \<longrightarrow> p'' = p) \<and>
      (\<forall>len d. rng = Some (len, d) \<longrightarrow>
           p + len \<le> ?e \<and> p'' = (if p + len = ?e then base else p + len) \<and>
           (\<forall>x. p \<le> x \<longrightarrow> x < p + len \<longrightarrow> base \<le> x \<and> live_slot q ((x - base) div esz)))"
  proof cases
    case before
    have up: "live_slot q ((x - base) div esz)" "(x - base) div esz < ?b" if "p \<le> x" "x \<le> p + c" for x
    proof -
      have "x < base + ?b * esz" using that before(1) by simp
      then show "(x - base) div esz < ?b" using div_less_slot [OF esz] pb that(1) by simp
      then show "live_slot q ((x - base) div esz)"
        using live_slots_up_to_back [OF inv live mono [OF that(1)]] by simp
    qed
    have "p'' = p + c" using before be by (simp add: p''_def)
    moreover have "(p + c - base) div esz < ?b" "live_slot q ((p + c - base) div esz)"
      using up [of "p + c"] by simp_all
    ultimately show ?thesis using before(1,2) be pb up(1) by (simp add: pointer_ok_def)
  next
    case chunk
    have sb: "?b < ?s" using chunk(1) inner slot_le_div [OF esz pb, of ?b] by (metis le_neq_implies_less less_imp_le less_irrefl)
    have up: "live_slot q ((x - base) div esz)" if "p \<le> x" "x \<le> p + c" for x
      using live_slots_after_back (1) [OF inv live sb mono [OF that(1)]] inside [of x] that chunk(2) pb by simp
    have "p'' = p + c" using chunk by (simp add: p''_def)
    then show ?thesis using chunk pb up [of "p + c"] up mono [of "p + c"] sb by (auto simp: pointer_ok_def)
  next
    case wrap
    have sb: "?b < ?s" using wrap(1) inner slot_le_div [OF esz pb, of ?b] by (metis le_neq_implies_less less_imp_le less_irrefl)
    have up: "live_slot q ((x - base) div esz)" if "p \<le> x" "x < ?e" for x
      using live_slots_after_back (1) [OF inv live sb mono [OF that(1)]] inside [of x] that pb by simp
    have "p'' = base" using wrap pe pb by (simp add: p''_def)
    then show ?thesis
      using wrap pe pb up live_slots_after_back (2) [OF inv live sb] by (auto simp: pointer_ok_def)
  next
    case wait
    then show ?thesis using p pe by (simp add: p''_def)
  qed
  then show "pointer_ok base esz q p''" "rng = None \<Longrightarrow> p'' = p"
    "rng = Some (len, d) \<Longrightarrow>
       p + len \<le> ?e \<and> p'' = (if p + len = ?e then base else p + len) \<and>
       (\<forall>x. p \<le> x \<longrightarrow> x < p + len \<longrightarrow> base \<le> x \<and> live_slot q ((x - base) div esz))"
    by blast+
qed

section \<open>Recording copies the ring\<close>

lemma chunk_pass_copies:
  assumes inv: "queue_inv q" and esz: "0 < esz" and al: "alignment_size q \<noteq> 0" and p: "pointer_ok base esz q p"
    and cep: "zl_current_end_pointer l = base + back_slot q * esz"
  shows "\<exists>l' z' p' ws. chunk_pass R wr base esz esz q p (l, z) = Inr (l', z') \<and>
           zl_current_write_pointer l' = Some p' \<and> pointer_ok base esz q p' \<and>
           zl_current_end_pointer l' = base + back_slot q * esz \<and> zc_writes z' = zc_writes z @ ws \<and>
           consecutive base (end_of_buffer base esz q) p ws p' \<and> (\<forall>w \<in> set ws. covers_live base esz q w) \<and>
           zc_fd_open z' = zc_fd_open z \<and> stream_buffer_size (zc_base z') = stream_buffer_size (zc_base z)"
proof -
  let ?e = "end_of_buffer base esz q"
  obtain rng p1 where nr: "next_range base ?e (unat (stream_buffer_size (zc_base z))) p (base + back_slot q * esz) = (rng, p1)"
    by fastforce
  let ?p = "if p1 = ?e then base else p1"
  have ok: "pointer_ok base esz q ?p" by (rule next_range_ok (1) [OF inv esz p nr])
  then obtain x where x: "slot (records q) ((?p - base) div esz) = Inr x" "base \<le> ?p"
    using live_slot_readable [OF inv] by (auto simp: pointer_ok_def)
  then have ts: "timestamp_at R base esz esz q ?p = Inr (get_timestamp R x)" using esz by (simp add: timestamp_at_def frame_begin_def)
  show ?thesis
  proof (cases rng)
    case None
    then show ?thesis
      using nr al cep ok ts next_range_ok (2) [OF inv esz p nr None]
      by (auto simp: chunk_pass_def start_of_buffer_def Let_def zc_emit_def)
  next
    case (Some lend)
    obtain len d where ld: "rng = Some (len, d)" using Some by (cases lend) auto
    note r = next_range_ok (3) [OF inv esz p nr ld]
    show ?thesis
      using nr al cep ok ts r ld
      by (auto simp: chunk_pass_def start_of_buffer_def Let_def zc_emit_def write_range_def covers_live_def)
  qed
qed

text \<open>
  C19. For a readout type whose \<open>fixed_payload_size\<close> is the size of an element in the buffer: when the
  alignment is set and the write pointer stands in a stored element (and at its
  beginning if it is the newest), the passes of the inner loop of zero-copy recording never read
  an invalid timestamp, and what they hand to \<open>::write\<close> is a gap-free sequence of ranges that
  starts at the pointer and continues at the start of the buffer after its end; every byte of it
  belongs to an element that is stored in the queue.
\<close>

theorem zero_copy_copies_ring:
  assumes inv: "queue_inv q" and esz: "0 < esz" and al: "alignment_size q \<noteq> 0"
    and p: "zl_current_write_pointer l = Some p" "pointer_ok base esz q p"
    and cep: "zl_current_end_pointer l = base + back_slot q * esz"
  shows "\<exists>l' z' p' ws. chunk_passes R wr base esz esz q n (l, z) = Inr (l', z') \<and>
           zl_current_write_pointer l' = Some p' \<and> pointer_ok base esz q p' \<and> zc_writes z' = zc_writes z @ ws \<and>
           consecutive base (end_of_buffer base esz q) p ws p' \<and> (\<forall>w \<in> set ws. covers_live base esz q w)"
  using p cep
proof (induction n arbitrary: p l z)
  case (Suc n)
  obtain l1 z1 p1 ws where s1: "chunk_pass R wr base esz esz q p (l, z) = Inr (l1, z1)"
      "zl_current_write_pointer l1 = Some p1" "pointer_ok base esz q p1"
      "zl_current_end_pointer l1 = base + back_slot q * esz" "zc_writes z1 = zc_writes z @ ws"
      "consecutive base (end_of_buffer base esz q) p ws p1" "\<forall>w \<in> set ws. covers_live base esz q w"
    using chunk_pass_copies [OF inv esz al Suc.prems(2,3), of R wr z] by blast
  from Suc.IH [OF s1(2-4), of z1] obtain l' z' p' ws' where
    "chunk_passes R wr base esz esz q n (l1, z1) = Inr (l', z')" "zl_current_write_pointer l' = Some p'"
    "pointer_ok base esz q p'" "zc_writes z' = zc_writes z1 @ ws'"
    "consecutive base (end_of_buffer base esz q) p1 ws' p'" "\<forall>w \<in> set ws'. covers_live base esz q w"
    by blast
  then show ?case
    using s1 Suc.prems(1) consecutive_append [OF s1(6)] by auto
qed auto

text \<open>The frames queue with 16-byte slots at address 4096, aligned to 16 bytes, and chunks of 32 bytes.\<close>

definition aligned_frames :: "dummy_frame iterable_queue" where
  "aligned_frames = frames_queue\<lparr>alignment_size := 16\<rparr>"

definition sample_zc :: "plain_fragment zero_copy_handler" where
  "sample_zc = \<lparr>zc_base = sample_handler\<lparr>stream_buffer_size := 32\<rparr>, zc_fd_open = True, zc_direct = True,
                zc_writes = [], zc_events = []\<rparr>"

lemma aligned_frames_facts:
  "queue_inv aligned_frames" "stored aligned_frames = 4" "qsize aligned_frames = 8" "readIndex aligned_frames = 6"
  "alignment_size aligned_frames = 16"
  by (simp_all add: aligned_frames_def queue_inv_def frames_queue_def default_queue_def stored_def ring_slot_def upt_rec)

lemma aligned_back: "back_slot aligned_frames = 1"
  by (simp add: back_slot_def ring_slot_def aligned_frames_facts)

theorem zero_copy_copies_ring_witness:
  "\<exists>l' z' p' ws. chunk_passes (dummy_ops 16) (\<lambda>_ len. int len) 4096 16 16 aligned_frames 3
        (\<lparr>zl_current_write_pointer = Some 4192, zl_current_end_pointer = 4112, zl_bytes_written = 0, zl_failed_writes = 0\<rparr>,
         sample_zc) = Inr (l', z') \<and>
      zc_writes z' = ws \<and> consecutive 4096 4224 4192 ws p'"
proof -
  let ?l = "\<lparr>zl_current_write_pointer = Some 4192, zl_current_end_pointer = 4112, zl_bytes_written = 0, zl_failed_writes = 0\<rparr>"
  have p: "pointer_ok 4096 16 aligned_frames 4192"
    by (auto simp: pointer_ok_def live_slot_def aligned_back ring_slot_def aligned_frames_facts intro!: exI [of _ 0])
  show ?thesis
    using zero_copy_copies_ring [OF aligned_frames_facts(1), of 16 ?l 4192 4096 "dummy_ops 16" "\<lambda>_ len. int len" 3 sample_zc] p
    by (auto simp: aligned_frames_facts aligned_back end_of_buffer_def sample_zc_def)
qed

section \<open>Where recording fails\<close>

lemma skip_unaligned_needs_aligned:
  assumes inv: "queue_inv q"
    and un: "\<forall>k < stored q. (base + ring_slot q k * esz) mod align \<noteq> 0" "address_of base esz end_iter mod align \<noteq> 0"
    and run: "skip_unaligned base esz align q it reset = Some y"
  shows "\<not> (it = end_iter \<or> (\<exists>k < stored q. at_pos q it k))"
proof -
  have "(base, esz, align, q) = (base, esz, align, q) \<longrightarrow> \<not> (it = end_iter \<or> (\<exists>k < stored q. at_pos q it k))"
  proof (rule skip_unaligned.raw_induct [where P =
        "\<lambda>b e a q' it reset y. (b, e, a, q') = (base, esz, align, q) \<longrightarrow> \<not> (it = end_iter \<or> (\<exists>k < stored q. at_pos q it k))",
        OF _ run], intro impI notI)
    fix f b e a q' it reset y
    assume IH: "\<And>b e a q' it reset y. f b e a q' it reset = Some y \<Longrightarrow>
          (b, e, a, q') = (base, esz, align, q) \<longrightarrow> \<not> (it = end_iter \<or> (\<exists>k < stored q. at_pos q it k))"
      and body: "(if address_of b e it mod a = 0 then Some (it, reset)
          else let it = iter_next q' it in f b e a q' it (reset \<or> \<not> good q' it)) = Some y"
      and eq: "(b, e, a, q') = (base, esz, align, q)"
      and at: "it = end_iter \<or> (\<exists>k < stored q. at_pos q it k)"
    have "address_of base esz it mod align \<noteq> 0" using at un by (auto simp: address_of_def at_pos_def)
    then have rec: "f base esz align q (iter_next q it) (reset \<or> \<not> good q (iter_next q it)) = Some y"
      using body eq by (simp add: Let_def)
    have "iter_next q it = end_iter \<or> (\<exists>k < stored q. at_pos q (iter_next q it) k)"
      using at
    proof (elim disjE exE conjE)
      fix k
      assume "k < stored q" and "at_pos q it k"
      then show ?thesis
        using iter_next_at_pos [OF inv, of it k] by (cases "k + 1 < stored q") auto
    qed simp
    then show False using IH [OF rec] by blast
  qed
  then show ?thesis by simp
qed

text \<open>
  C39. When no stored element is aligned, the search for an aligned one reaches the end iterator and
  goes on there, because its \<open>continue\<close> belongs to the inner loop: unless the address computed
  from the end iterator happens to be aligned, the recording thread never returns.
\<close>

theorem unaligned_buffer_never_records:
  assumes inv: "queue_inv q" and ne: "contents q \<noteq> []"
    and un: "\<forall>k < stored q. (base + ring_slot q k * esz) mod align \<noteq> 0" "address_of base esz end_iter mod align \<noteq> 0"
    and al: "unat (alignment_size q) = align" "0 < align" and start: "next_timestamp_to_record (zc_base z) = 0"
    and idle: "\<not> cleanup_requested (zc_base z)"
  shows "record_round_zc R wr base esz fps q (l, z) = None"
proof -
  have pos: "0 < stored q" using ne by (simp flip: length_contents)
  have bi: "begin_iter q = readIndex q" "readIndex q \<noteq> end_iter"
    using ne isEmpty_spec [OF inv] end_iter_not_in_range [OF inv] inv
    by (auto simp: begin_iter_def isEmpty_def queue_inv_def split: region.splits)
  have at: "at_pos q (readIndex q) 0" using front_q_spec (2) [OF inv ne] by simp
  have x: "iter_deref q (readIndex q) = Inr (contents q ! 0)" by (rule deref_at_pos [OF inv at pos])
  have "skip_unaligned base esz align q (readIndex q) False = None"
    using skip_unaligned_needs_aligned [OF inv un] at pos by (metis not_None_eq)
  then show ?thesis
    using start idle bi x al by (auto simp: record_round_zc_def Let_def)
qed

theorem unaligned_buffer_never_records_witness:
  "record_round_zc (dummy_ops 16) (\<lambda>_ len. int len) 4097 16 16 aligned_frames (record_begin_zc sample_zc) = None"
proof -
  have e: "unat end_iter = 2 ^ 32 - 1"
    by (simp add: end_iter_def unsigned_minus_1_eq_mask mask_eq_exp_minus_1)
  have ne: "contents aligned_frames \<noteq> []"
    using aligned_frames_facts(2) by (auto simp flip: length_contents)
  have "\<forall>k < stored aligned_frames. (4097 + ring_slot aligned_frames k * 16) mod 16 \<noteq> (0::nat)"
    by (simp add: mod_add_eq [symmetric] del: mod_add_eq)
  moreover have "address_of 4097 16 end_iter mod 16 \<noteq> 0" by (simp add: address_of_def e)
  ultimately show ?thesis
    using unaligned_buffer_never_records [OF aligned_frames_facts(1) ne, of 4097 16 16 "snd (record_begin_zc sample_zc)"
        "dummy_ops 16" "\<lambda>_ len. int len" 16 "fst (record_begin_zc sample_zc)"]
    by (simp add: record_begin_zc_def aligned_frames_facts sample_zc_def sample_handler_def new_request_handler_def)
qed

text \<open>
  A write that fails with \<open>-1\<close> is counted as written: when every call of \<open>::write\<close> fails that way,
  as in a second recording, which finds the file closed by the first, the passes of the inner loop
  count all the bytes they were to write, report no failure, and the handler cleans up data that is
  in no file.
\<close>

theorem failed_writes_count_as_written:
  assumes fails: "\<not> zc_fd_open z \<or> (\<forall>addr len. wr addr len = - 1)"
    and run: "chunk_passes R wr base esz fps q n (l, z) = Inr (l', z')"
  shows "\<exists>ws. zc_writes z' = zc_writes z @ ws \<and> (\<forall>w \<in> set ws. zw_result w = - 1) \<and>
           zl_bytes_written l' = zl_bytes_written l + of_nat (sum_list (map zw_length ws)) \<and>
           zl_failed_writes l' = zl_failed_writes l \<and> zc_events z' = zc_events z"
  using assms
proof (induction n arbitrary: l z)
  case (Suc n)
  obtain p where p: "zl_current_write_pointer l = Some p" using Suc.prems(2) by (auto split: option.splits)
  obtain l1 z1 where s1: "chunk_pass R wr base esz fps q p (l, z) = Inr (l1, z1)"
      "chunk_passes R wr base esz fps q n (l1, z1) = Inr (l', z')"
    using Suc.prems(2) p by (auto simp: bindE_eq_Inr_iff)
  obtain rng p1 where nr: "next_range (start_of_buffer base) (end_of_buffer base esz q)
      (unat (stream_buffer_size (zc_base z))) p (zl_current_end_pointer l) = (rng, p1)" by fastforce
  have "\<exists>ws. zc_writes z1 = zc_writes z @ ws \<and> (\<forall>w \<in> set ws. zw_result w = - 1) \<and>
      zl_bytes_written l1 = zl_bytes_written l + of_nat (sum_list (map zw_length ws)) \<and>
      zl_failed_writes l1 = zl_failed_writes l \<and> zc_events z1 = zc_events z \<and> zc_fd_open z1 = zc_fd_open z"
    using s1(1) nr Suc.prems(1)
    by (cases rng) (auto simp: chunk_pass_def write_range_def Let_def bindE_eq_Inr_iff split: if_splits)
  then obtain ws where ws: "zc_writes z1 = zc_writes z @ ws" "\<forall>w \<in> set ws. zw_result w = - 1"
      "zl_bytes_written l1 = zl_bytes_written l + of_nat (sum_list (map zw_length ws))"
      "zl_failed_writes l1 = zl_failed_writes l" "zc_events z1 = zc_events z" "zc_fd_open z1 = zc_fd_open z"
    by blast
  have "\<not> zc_fd_open z1 \<or> (\<forall>addr len. wr addr len = - 1)" using Suc.prems(1) ws(6) by simp
  from Suc.IH [OF this s1(2)] obtain ws' where "zc_writes z' = zc_writes z1 @ ws'" "\<forall>w \<in> set ws'. zw_result w = - 1"
      "zl_bytes_written l' = zl_bytes_written l1 + of_nat (sum_list (map zw_length ws'))"
      "zl_failed_writes l' = zl_failed_writes l1" "zc_events z' = zc_events z1"
    by blast
  then show ?case using ws by (intro exI [of _ "ws @ ws'"]) auto
qed auto

theorem failed_writes_count_as_written_witness:
  "\<exists>l' z'. chunk_passes (dummy_ops 16) (\<lambda>_ _. - 1) 4096 16 16 aligned_frames 1
        (\<lparr>zl_current_write_pointer = Some 4192, zl_current_end_pointer = 4112, zl_bytes_written = 0, zl_failed_writes = 0\<rparr>,
         sample_zc) = Inr (l', z') \<and> zc_events z' = []"
proof -
  let ?l = "\<lparr>zl_current_write_pointer = Some 4192, zl_current_end_pointer = 4112, zl_bytes_written = 0, zl_failed_writes = 0\<rparr>"
  obtain l' z' where r: "chunk_passes (dummy_ops 16) (\<lambda>_ _. - 1) 4096 16 16 aligned_frames 1 (?l, sample_zc) = Inr (l', z')"
    by (simp add: chunk_pass_def next_range_def start_of_buffer_def end_of_buffer_def aligned_frames_facts write_range_def
        timestamp_at_def frame_begin_def aligned_frames_def frames_queue_def default_queue_def sample_zc_def zc_emit_def Let_def)
  from failed_writes_count_as_written [OF _ this] show ?thesis using r by (auto simp: sample_zc_def)
qed

end
