(* ===== verification/Test_Utilities.thy ===== *)
theory Test_Utilities
  imports Latency_Buffer "HOL-Library.Infinite_Set"
begin

text \<open>
  The templates that the unit tests of readout types instantiate (testutils/TestUtilities.hpp), for
  the queue models: filling a buffer with objects of increasing timestamps, some of them left out,
  and comparing the lower bound of a timestamp with an expected position. What is proved is that
  the tests of \<open>test_queue_model\<close> pass for every readout type, not only for those that are run.
\<close>

section \<open>Filling a buffer\<close>

text \<open>\<open>fake\<close> is \<open>fake_timestamps\<close> of the type, which a freshly constructed element goes through.\<close>

partial_function (option) fill_loop ::
  "'a readout_ops \<Rightarrow> (u64 \<Rightarrow> 'a \<Rightarrow> 'a) \<Rightarrow> ('b, 'a, 'i) lb_ops \<Rightarrow> nat set \<Rightarrow> nat \<Rightarrow> nat \<Rightarrow> nat \<Rightarrow> u64 \<Rightarrow> 'b \<Rightarrow>
   (fault + 'b) option" where
  "fill_loop R fake L obj_to_skip n_obj i i_obj next_timestamp b =
     (if \<not> i_obj < n_obj then Some (Inr b)
      else let frame = fake next_timestamp (default_element R);
               next_timestamp = next_timestamp + get_num_frames R frame * expected_tick_difference R
           in if i \<in> obj_to_skip then fill_loop R fake L obj_to_skip n_obj (i + 1) i_obj next_timestamp b
              else case lb_write L frame b of
                     Inl f \<Rightarrow> Some (Inl f)
                   | Inr ok_b \<Rightarrow> fill_loop R fake L obj_to_skip n_obj (i + 1) (i_obj + 1) next_timestamp (snd ok_b))"

definition fill_buffer ::
  "'a readout_ops \<Rightarrow> (u64 \<Rightarrow> 'a \<Rightarrow> 'a) \<Rightarrow> ('a \<Rightarrow> bool \<Rightarrow> 'a iterable_queue \<Rightarrow> (fault + u32) option) \<Rightarrow> build_env \<Rightarrow>
   u64 \<Rightarrow> nat \<Rightarrow> nat set \<Rightarrow> 'a iterable_queue \<Rightarrow> (fault + 'a iterable_queue) option" where
  "fill_buffer R fake search env init_timestamp n_obj obj_to_skip q =
     (case allocate_size env (of_nat n_obj) q of
        Inl f \<Rightarrow> Some (Inl f)
      | Inr q \<Rightarrow> fill_loop R fake (queue_lb_ops search) obj_to_skip n_obj 0 0 init_timestamp q)"

text \<open>
  The objects that are written are those with the smallest numbers that are not skipped. A queue of
  size \<open>n\<close> has room for \<open>n - 1\<close> of them, so the last write fails.
\<close>

definition object_at :: "'a readout_ops \<Rightarrow> (u64 \<Rightarrow> 'a \<Rightarrow> 'a) \<Rightarrow> u64 \<Rightarrow> u64 \<Rightarrow> nat \<Rightarrow> 'a" where
  "object_at R fake init_ts span i = fake (init_ts + of_nat i * span) (default_element R)"

lemma enumerate_gap:
  fixes S :: "nat set"
  assumes "infinite S" and "enumerate S m < j" and "j < enumerate S (Suc m)"
  shows "j \<notin> S"
  using assms not_less_Least [of j "\<lambda>s. s \<in> S \<and> enumerate S m < s"] by (auto simp: enumerate_Suc'')

lemma fill_loop_queue:
  fixes q :: "'a iterable_queue" and R :: "'a readout_ops" and fake :: "u64 \<Rightarrow> 'a \<Rightarrow> 'a" and skip :: "nat set"
    and init_ts :: u64 and n :: nat
  defines "span \<equiv> get_num_frames R (default_element R) * expected_tick_difference R"
  assumes num: "\<And>t. get_num_frames R (fake t (default_element R)) = get_num_frames R (default_element R)"
    and fin: "finite skip" and n: "2 \<le> n"
  defines "F \<equiv> \<lambda>k. object_at R fake init_ts span (enumerate (- skip) k)"
  assumes "queue_inv q" and "unat (qsize q) = n" and "m \<le> n" and "contents q = map F [0..<min m (n - 1)]"
    and "overflow_ctr q = of_nat (m - (n - 1))" and "i \<le> enumerate (- skip) m" and "{i..<enumerate (- skip) m} \<subseteq> skip"
  shows "\<exists>q'. fill_loop R fake (queue_lb_ops search) skip n i m (init_ts + of_nat i * span) q = Some (Inr q') \<and>
           queue_inv q' \<and> contents q' = map F [0..<n - 1] \<and> overflow_ctr q' = 1"
  using assms(6-)
proof (induction "Suc (enumerate (- skip) (n - 1)) - i" arbitrary: i m q rule: less_induct)
  case less
  let ?e = "enumerate (- skip)"
  have inf: "infinite (- skip)" using fin by (simp add: Compl_eq_Diff_UNIV)
  show ?case
  proof (cases "m = n")
    case True
    then show ?thesis using less.prems n by (subst fill_loop.simps) (auto simp: min_def)
  next
    case False
    then have mn: "m < n" using less.prems(3) by simp
    then have "?e m \<le> ?e (n - 1)" by (simp add: inf)
    then have fewer: "Suc (?e (n - 1)) - (i + 1) < Suc (?e (n - 1)) - i" using less.prems(6) by simp
    have ts: "init_ts + of_nat i * span + get_num_frames R (fake t (default_element R)) * expected_tick_difference R =
        init_ts + of_nat (Suc i) * span" for t
      using num by (simp add: span_def algebra_simps)
    show ?thesis
    proof (cases "i \<in> skip")
      case True
      then have "i \<noteq> ?e m" using enumerate_in_set [OF inf, of m] by auto
      then have "i + 1 \<le> ?e m" "{i + 1..<?e m} \<subseteq> skip" using less.prems(6,7) by auto
      with less.hyps [OF fewer less.prems(1-5)] show ?thesis
        using mn True by (subst fill_loop.simps) (simp add: ts Let_def del: of_nat_Suc)
    next
      case i: False
      have im: "i = ?e m"
        using less.prems(6,7) i by (metis atLeastLessThan_iff le_neq_implies_less order_refl subsetD)
      let ?x = "fake (init_ts + of_nat i * span) (default_element R)"
      have x: "?x = F m" by (simp add: F_def object_at_def im)
      have st: "stored q = min m (n - 1)" using less.prems(4) by (metis length_contents length_map length_upt minus_nat.diff_0)
      obtain ok q1 where q1: "write_q ?x q = Inr (ok, q1)" "queue_inv q1" "qsize q1 = qsize q"
          "contents q1 = map F [0..<min (m + 1) (n - 1)]" "overflow_ctr q1 = of_nat (m + 1 - (n - 1))"
      proof (cases "m < n - 1")
        case True
        then have room: "stored q + 1 < unat (qsize q)" using st less.prems(2) by simp
        have "map F [0..<min (m + 1) (n - 1)] = contents q @ [?x]" using True less.prems(4) x by simp
        then show thesis
          using that write_q_room [OF less.prems(1) room, of ?x] less.prems(5) True by (auto simp: same_config_def)
      next
        case False
        then have m: "m = n - 1" using mn by simp
        let ?q = "q\<lparr>overflow_ctr := overflow_ctr q + 1\<rparr>"
        have "queue_inv ?q" "contents ?q = contents q"
          using less.prems(1) by (auto simp: queue_inv_def stored_def ring_slot_def contents_def split: region.splits)
        moreover have "write_q ?x q = Inr (False, ?q)"
          using write_q_no_room [OF less.prems(1), of ?x] st m less.prems(2) n by simp
        ultimately show thesis
          using m less.prems(4,5) n by (intro that [of False ?q]) simp_all
      qed
      have "i + 1 \<le> ?e (m + 1)" using enumerate_step [OF inf, of m] im by simp
      moreover have "{i + 1..<?e (m + 1)} \<subseteq> skip" using enumerate_gap [OF inf, of m] im by auto
      ultimately show ?thesis
        using less.hyps [OF fewer q1(2) _ _ q1(4,5)] q1(1,3) less.prems(2) mn i
        by (subst fill_loop.simps) (simp add: ts Let_def queue_lb_ops_def del: of_nat_Suc)
    qed
  qed
qed

lemma fill_buffer_contents:
  fixes R :: "'a readout_ops" and q :: "'a iterable_queue"
  defines "span \<equiv> get_num_frames R (default_element R) * expected_tick_difference R"
  assumes num: "\<And>t. get_num_frames R (fake t (default_element R)) = get_num_frames R (default_element R)"
    and fin: "finite skip" and n: "2 \<le> n" "n < 2 ^ 31" and alloc: "alloc_succeeds env StdMalloc (of_nat n)"
    and fresh: "readIndex q = 0" "writeIndex q = 0" "overflow_ctr q = 0"
  shows "\<exists>q'. fill_buffer R fake search env init_ts n skip q = Some (Inr q') \<and> queue_inv q' \<and>
           contents q' = map (\<lambda>k. object_at R fake init_ts span (enumerate (- skip) k)) [0..<n - 1] \<and>
           overflow_ctr q' = 1"
proof -
  let ?F = "\<lambda>k. object_at R fake init_ts span (enumerate (- skip) k)"
  define w :: u32 where "w = ucast (of_nat n :: u64)"
  let ?q = "q\<lparr>records := Region StdMalloc (replicate n None), qsize := w, numa_aware := False, numa_node := 0,
              intrinsic_allocator := False, alignment_size := 0\<rparr>"
  have u: "unat (of_nat n :: u64) = n" using n by (simp add: unat_of_nat_u64)
  have w: "unat w = n" unfolding w_def using n u by (subst unat_ucast_u32) simp_all
  have "\<not> (of_nat n :: u64) < 2" using n u by (simp add: word_less_nat_alt)
  then have a: "allocate_size env (of_nat n) q = Inr ?q"
    unfolding w_def using alloc u by (simp add: allocate_size_def allocate_memory_def alloc_region_def)
  have inv: "queue_inv ?q" "contents ?q = []"
    by (rule fresh_queue_inv [where a = StdMalloc]; use n w fresh in simp)+
  have "j \<in> skip" if "j < enumerate (- skip) 0" for j
    using not_less_Least [of j "\<lambda>i. i \<in> - skip"] that by (simp add: enumerate_0)
  then have "{0..<enumerate (- skip) 0} \<subseteq> skip" by auto
  then show ?thesis
    using fill_loop_queue [where R = R and fake = fake and skip = skip and n = n and q = ?q and m = 0 and i = 0
        and search = search and init_ts = init_ts, OF num fin n(1) inv(1)] inv(2) w fresh a
    by (simp add: fill_buffer_def span_def)
qed

section \<open>Testing a lower bound\<close>

text \<open>Moving two iterators from the beginning until the first one is at the given one, or next to it.\<close>

partial_function (option) scan_to :: "('b, 'a, 'i) lb_ops \<Rightarrow> 'b \<Rightarrow> 'i \<Rightarrow> 'i \<Rightarrow> 'i \<Rightarrow> 'i option" where
  "scan_to L b return_el scan_el prev_el =
     (if scan_el = return_el then Some prev_el
      else let scan_el = it_next L b scan_el
           in if scan_el = return_el then Some prev_el
              else scan_to L b return_el scan_el (it_next L b prev_el))"

text \<open>The three checks of a test point.\<close>

definition test_lower_bound ::
  "'a readout_ops \<Rightarrow> ('b, 'a, 'i) lb_ops \<Rightarrow> 'b \<Rightarrow> u64 \<Rightarrow> nat \<Rightarrow> bool \<Rightarrow> (fault + (bool \<times> bool \<times> bool)) option" where
  "test_lower_bound R L b test_ts expected_idx with_errors =
     (let test_element = set_timestamp R test_ts (default_element R);
          expected_el = (it_next L b ^^ expected_idx) (lb_begin L b)
      in case lb_lower_bound L test_element with_errors b of
           None \<Rightarrow> None
         | Some (Inl f) \<Rightarrow> Some (Inl f)
         | Some (Inr return_el) \<Rightarrow>
             (case scan_to L b return_el (lb_begin L b) (lb_begin L b) of
                None \<Rightarrow> None
              | Some prev_el \<Rightarrow>
                  Some (bindE (it_deref L b expected_el) (\<lambda>x.
                        bindE (it_deref L b return_el) (\<lambda>r.
                        bindE (it_deref L b prev_el) (\<lambda>p.
                          Inr (get_timestamp R x = get_timestamp R r, get_timestamp R r \<ge> test_ts,
                               get_timestamp R p < test_ts \<or> return_el = lb_begin L b)))))))"

text \<open>The test points on the buffers without and with skipped objects, for \<open>T\<close> ticks between objects.\<close>

definition noskip_points :: "u64 \<Rightarrow> (u64 \<times> nat \<times> bool) list" where
  "noskip_points T =
     [(T * 2, 2, False)] @ (if T > 1 then [(T * 5 div 2, 3, False), (T + 1, 2, False)] else [])"

definition skip_points :: "u64 \<Rightarrow> (u64 \<times> nat \<times> bool) list" where
  "skip_points T =
     [(T * 2, 2, True), (T * 3, 2, True), (T, 1, True), (T * 4, 2, True)] @
     (if T > 1
      then [(T * 3 div 2, 2, True), (T * 5 div 2, 2, True), (T * 7 div 2, 2, True), (T * 1 div 2, 1, True),
            (T * 9 div 2, 3, True), (T * 11 div 2, 4, True), (T + 1, 2, True), (T * 2 + 1, 2, True), (1, 1, True)]
      else [])"

definition test_queue_model ::
  "'a readout_ops \<Rightarrow> (u64 \<Rightarrow> 'a \<Rightarrow> 'a) \<Rightarrow> ('a \<Rightarrow> bool \<Rightarrow> 'a iterable_queue \<Rightarrow> (fault + u32) option) \<Rightarrow> build_env \<Rightarrow>
   (fault + (bool \<times> bool \<times> bool)) option list option" where
  "test_queue_model R fake search env =
     (let T = expected_tick_difference R * get_num_frames R (default_element R);
          points = (\<lambda>q. map (\<lambda>(ts, idx, we). test_lower_bound R (queue_lb_ops search) q ts idx we))
      in case (fill_buffer R fake search env 0 10 {} (default_queue env),
               fill_buffer R fake search env 0 10 {2, 3} (default_queue env)) of
           (Some (Inr buffer_noskip), Some (Inr buffer_skip)) \<Rightarrow>
             Some (points buffer_noskip (noskip_points T) @ points buffer_skip (skip_points T))
         | _ \<Rightarrow> None)"

lemma at_pos_same_iff:
  assumes "queue_inv q" and "at_pos q i k" and "at_pos q j l" and "k < stored q" and "l < stored q"
  shows "i = j \<longleftrightarrow> k = l"
proof -
  have "stored q < unat (qsize q)" by (rule stored_less_size [OF assms(1)])
  then have "unat i = unat j \<longleftrightarrow> k = l"
    using at_pos_unat [OF assms(1,2)] at_pos_unat [OF assms(1,3)] assms(4,5) by (auto split: if_splits)
  then show ?thesis by (simp add: word_unat_eq_iff)
qed

lemma scan_to_queue:
  assumes inv: "queue_inv q" and r: "at_pos q r k" "k < stored q"
  shows "at_pos q p j \<Longrightarrow> j \<le> k \<Longrightarrow>
         \<exists>p'. scan_to (queue_lb_ops search) q r p p = Some p' \<and> at_pos q p' (if j = k then k else k - 1)"
proof (induction "k - j" arbitrary: p j)
  case 0
  then have "j = k" by simp
  then have "p = r" using at_pos_same_iff [OF inv 0(2) r(1)] r(2) by simp
  then show ?case using 0 \<open>j = k\<close> by (subst scan_to.simps) simp
next
  case (Suc d)
  have jk: "j < k" using Suc.hyps(2) by simp
  then have ne: "p \<noteq> r" using at_pos_same_iff [OF inv Suc.prems(1) r(1)] r(2) by simp
  have nx: "at_pos q (iter_next q p) (j + 1)"
    using iter_next_at_pos [OF inv Suc.prems(1)] jk r(2) by (auto split: if_splits)
  show ?case
  proof (cases "j + 1 = k")
    case True
    then have "iter_next q p = r" using at_pos_same_iff [OF inv nx r(1)] r(2) by simp
    then show ?thesis
      using ne True Suc.prems by (subst scan_to.simps) (auto simp: queue_lb_ops_def)
  next
    case False
    then have "iter_next q p \<noteq> r" using at_pos_same_iff [OF inv nx r(1)] r(2) jk by simp
    moreover have "d = k - (j + 1)" using Suc.hyps(2) by simp
    then obtain p' where "scan_to (queue_lb_ops search) q r (iter_next q p) (iter_next q p) = Some p'"
        "at_pos q p' (k - 1)"
      using Suc.hyps(1) [OF _ nx] jk False by auto
    ultimately show ?thesis
      using ne jk by (subst scan_to.simps) (simp add: queue_lb_ops_def)
  qed
qed

lemma begin_plus_at_pos:
  assumes inv: "queue_inv q" and k: "k < stored q"
  shows "at_pos q ((iter_next q ^^ k) (begin_iter q)) k"
  using k
proof (induction k)
  case 0
  then have "contents q \<noteq> []" by (metis length_contents length_greater_0_conv)
  then show ?case
    using isEmpty_spec [OF inv] front_q_spec (2) [OF inv] by (simp add: begin_iter_def isEmpty_def)
next
  case (Suc k)
  then show ?case using iter_next_at_pos [OF inv, of "(iter_next q ^^ k) (begin_iter q)" k] by (auto split: if_splits)
qed

text \<open>A test point passes when the expected position is the lower bound of its timestamp.\<close>

lemma test_point_passes:
  assumes sb: "searchable_buffer (queue_lb_ops search) queue_inv contents queue_pos R ready"
    and inv: "queue_inv q" and ready: "ready we (contents q)"
    and k: "lb_index R ts (contents q) = k" "k < stored q" and above: "get_timestamp R (hd (contents q)) < ts"
  shows "test_lower_bound R (queue_lb_ops search) q ts k we = Some (Inr (True, True, True))"
proof -
  let ?e = "set_timestamp R ts (default_element R)" and ?L = "queue_lb_ops search"
  have ord: "readout_order R" by (rule searchable_buffer.axioms(2) [OF sb])
  have ne: "contents q \<noteq> []" using k(2) by (metis length_contents length_greater_0_conv not_gr_zero not_less_zero)
  have e: "get_timestamp R ?e = ts" by (rule readout_order.get_set_timestamp [OF ord])
  have "\<not> elem_less R ?e (hd (contents q))" using readout_order.less_imp_ts [OF ord, of ?e] e above by fastforce
  then obtain r where r: "search ?e we q = Some (Inr r)" "queue_pos q r k"
    using searchable_buffer.lower_bound_pos [OF sb inv ready ne, of ?e] e k(1) by (auto simp: queue_lb_ops_def)
  have rk: "at_pos q r k" by (rule queue_pos_at [OF r(2) k(2)])
  have b: "at_pos q (begin_iter q) 0" using begin_plus_at_pos [OF inv, of 0] k(2) by simp
  obtain p where p: "scan_to ?L q r (begin_iter q) (begin_iter q) = Some p" "at_pos q p (if 0 = k then k else k - 1)"
    using scan_to_queue [OF inv rk k(2) b] by blast
  have "k \<noteq> 0"
  proof
    assume "k = 0"
    then have "ts \<le> get_timestamp R (contents q ! 0)" using lb_index_at [of R ts "contents q"] k by simp
    then show False using above ne by (simp add: hd_conv_nth)
  qed
  then have "at_pos q p (k - 1)" "get_timestamp R (contents q ! (k - 1)) < ts"
    using p(2) lb_index_below [of "k - 1" R ts "contents q"] k(1) by simp_all
  moreover have "ts \<le> get_timestamp R (contents q ! k)" using lb_index_at [of R ts "contents q"] k by simp
  moreover have "iter_deref q ((iter_next q ^^ k) (begin_iter q)) = Inr (contents q ! k)"
    by (rule deref_at_pos [OF inv begin_plus_at_pos [OF inv k(2)] k(2)])
  ultimately show ?thesis
    using r(1) p(1) deref_at_pos [OF inv rk k(2)] deref_at_pos [OF inv, of p "k - 1"] k(2)
    by (simp add: test_lower_bound_def queue_lb_ops_def)
qed

text \<open>The buffers of the tests hold objects whose numbers are \<open>ix 0\<close>, \<open>ix 1\<close>, and so on.\<close>

definition numbered :: "'a readout_ops \<Rightarrow> nat \<Rightarrow> (nat \<Rightarrow> nat) \<Rightarrow> 'a list \<Rightarrow> bool" where
  "numbered R t ix xs \<longleftrightarrow> (\<forall>k < length xs. unat (get_timestamp R (xs ! k)) = ix k * t)"

lemma numbered_sorted: "numbered R t ix xs \<Longrightarrow> strict_mono ix \<Longrightarrow> 0 < t \<Longrightarrow> ts_sorted R xs"
  by (simp add: ts_sorted_def sorted_wrt_iff_nth_less numbered_def word_less_nat_alt strict_mono_less)

lemma numbered_lb_index:
  assumes n: "numbered R t ix xs" and mono: "strict_mono ix" and k: "0 < k" "k < length xs"
    and key: "ix (k - 1) * t < unat ts" "unat ts \<le> ix k * t"
  shows "lb_index R ts xs = k"
proof (rule lb_index_eqI)
  show "get_timestamp R (xs ! j) < ts" if "j < k" for j
  proof -
    have "ix j \<le> ix (k - 1)" using that mono by (simp add: strict_mono_less_eq)
    then have "ix j * t < unat ts" using key(1) by (meson le_less_trans mult_le_mono1)
    then show ?thesis using n that k by (simp add: numbered_def word_less_nat_alt)
  qed
qed (use n k key in \<open>simp_all add: numbered_def word_le_nat_alt\<close>)

lemma enumerate_all: "enumerate (- {} :: nat set) k = k"
proof (induction k)
  case (Suc k)
  have "(LEAST s. s \<in> - {} \<and> enumerate (- {}) k < s) = Suc k" using Suc by (intro Least_equality) auto
  then show ?case by (simp add: enumerate_Suc'')
qed (simp add: enumerate_0)

lemma enumerate_without_2_3: "enumerate (- {2, 3} :: nat set) k = (if k < 2 then k else k + 2)"
proof (induction k)
  case 0
  have "(LEAST s. s \<in> - {2, 3 :: nat}) = 0" by (intro Least_equality) auto
  then show ?case by (simp add: enumerate_0)
next
  case (Suc k)
  have inf: "infinite (- {2, 3} :: nat set)" by (simp add: Compl_eq_Diff_UNIV)
  consider "k = 0" | "k = 1" | "2 \<le> k" by linarith
  then have "(LEAST s. s \<in> - {2, 3} \<and> enumerate (- {2, 3}) k < s) = (if Suc k < 2 then Suc k else Suc k + 2)"
    unfolding Suc by cases (intro Least_equality; auto)+
  then show ?case by (simp add: enumerate_Suc'' [OF inf])
qed

definition passing :: "(fault + (bool \<times> bool \<times> bool)) option" where
  "passing = Some (Inr (True, True, True))"

definition good_point :: "nat \<Rightarrow> (nat \<Rightarrow> nat) \<Rightarrow> u64 \<times> nat \<times> bool \<Rightarrow> bool" where
  "good_point t ix = (\<lambda>(ts, k, we). 0 < k \<and> k < 9 \<and> ix (k - 1) * t < unat ts \<and> unat ts \<le> ix k * t)"

lemma points_pass:
  assumes sb: "searchable_buffer (queue_lb_ops search) queue_inv contents queue_pos R ready"
    and inv: "queue_inv q" and len: "stored q = 9" and n: "numbered R t ix (contents q)" and mono: "strict_mono ix"
    and zero: "ix 0 = 0" and good: "\<forall>p \<in> set ps. good_point t ix p" and ready: "\<forall>(ts, k, we) \<in> set ps. ready we (contents q)"
  shows "map (\<lambda>(ts, k, we). test_lower_bound R (queue_lb_ops search) q ts k we) ps = replicate (length ps) passing"
proof -
  have "test_lower_bound R (queue_lb_ops search) q ts k we = passing" if p: "(ts, k, we) \<in> set ps" for ts k we
  proof -
    have g: "0 < k" "k < stored q" "ix (k - 1) * t < unat ts" "unat ts \<le> ix k * t"
      using good p len by (auto simp: good_point_def)
    have r: "ready we (contents q)" using ready p by auto
    have lb: "lb_index R ts (contents q) = k" using numbered_lb_index [OF n mono g(1) _ g(3,4)] g(2) by simp
    have ne: "contents q \<noteq> []" using len by (metis length_contents length_greater_0_conv zero_less_numeral)
    then have "unat (get_timestamp R (hd (contents q))) = 0"
      using n zero len by (simp add: numbered_def hd_conv_nth)
    then have "get_timestamp R (hd (contents q)) < ts" using g(3) by (simp add: word_less_nat_alt)
    then show ?thesis using test_point_passes [OF sb inv r lb g(2)] by (simp add: passing_def)
  qed
  then have "map (\<lambda>(ts, k, we). test_lower_bound R (queue_lb_ops search) q ts k we) ps = map (\<lambda>_. passing) ps"
    by (intro map_cong) auto
  then show ?thesis by (simp add: map_replicate_const)
qed

lemma noskip_points_good:
  assumes "unat T = t" and "0 < t" and "11 * t < 2 ^ 64"
  shows "\<forall>p \<in> set (noskip_points T). good_point t (\<lambda>k. k) p"
proof -
  have m: "unat (T * 2) = t * 2" "unat (T * 5) = t * 5" "unat (T + 1) = t + 1"
    using assms unat_mult_u64 [of T 2] unat_mult_u64 [of T 5] by (simp_all add: unat_plus_if')
  show ?thesis using m assms(2) by (auto simp: noskip_points_def good_point_def unat_div word_less_nat_alt assms(1))
qed

definition skipping_2_3 :: "nat \<Rightarrow> nat" where
  "skipping_2_3 k = (if k < 2 then k else k + 2)"

lemma skip_points_good:
  assumes "unat T = t" and "0 < t" and "11 * t < 2 ^ 64"
  shows "\<forall>p \<in> set (skip_points T). good_point t skipping_2_3 p"
proof -
  have m: "unat (T * 2) = t * 2" "unat (T * 3) = t * 3" "unat (T * 4) = t * 4" "unat (T * 5) = t * 5"
      "unat (T * 7) = t * 7" "unat (T * 9) = t * 9" "unat (T * 11) = t * 11"
    using assms unat_mult_u64 [of T 2] unat_mult_u64 [of T 3] unat_mult_u64 [of T 4] unat_mult_u64 [of T 5]
      unat_mult_u64 [of T 7] unat_mult_u64 [of T 9] unat_mult_u64 [of T 11] by simp_all
  moreover have "unat (T + 1) = t + 1" "unat (T * 2 + 1) = t * 2 + 1" using assms m by (simp_all add: unat_plus_if')
  moreover have "1 < t" if "T > 1" using that assms(1) by (simp add: word_less_nat_alt)
  ultimately show ?thesis
    using assms(1,2)
    by (cases "T > 1"; simp add: skip_points_def; simp add: good_point_def skipping_2_3_def unat_div; intro conjI; linarith)
qed

lemma searchable_buffer_mono:
  assumes "searchable_buffer L lb_inv elements lb_pos R ready" and "\<And>we xs. ready' we xs \<Longrightarrow> ready we xs"
  shows "searchable_buffer L lb_inv elements lb_pos R ready'"
  using assms unfolding searchable_buffer_def searchable_buffer_axioms_def by blast

text \<open>Both queue models are searchable when the timestamps increase, at a fixed rate without the flag.\<close>

lemma queue_models_searchable:
  assumes ord: "readout_order R" and search: "search \<in> {bs_lower_bound R, fr_lower_bound R}"
  shows "searchable_buffer (queue_lb_ops search) queue_inv contents queue_pos R
           (\<lambda>we xs. ts_sorted R xs \<and> (we \<or> fixed_rate R xs))"
proof -
  note bs = forward_searchable_buffer.axioms(1) [OF readout_order.binary_search_provides [OF ord]]
    and fr = forward_searchable_buffer.axioms(1) [OF readout_order.fixed_rate_provides [OF ord]]
  let ?ready = "\<lambda>we xs. ts_sorted R xs \<and> (we \<or> fixed_rate R xs)"
  have "searchable_buffer (BinarySearchQueueModel R) queue_inv contents queue_pos R ?ready"
    by (rule searchable_buffer_mono [OF bs]) simp
  moreover have "searchable_buffer (FixedRateQueueModel R) queue_inv contents queue_pos R ?ready"
    by (rule searchable_buffer_mono [OF fr]) (auto simp: fixed_rate_ready_def)
  ultimately show ?thesis using search by (auto simp: BinarySearchQueueModel_def FixedRateQueueModel_def)
qed

lemma numbered_fixed_rate:
  assumes "numbered R t (\<lambda>k. k) xs" and "xs \<noteq> []" and "0 < t" and "length xs * t < 2 ^ 64" and "element_span R xs = t"
  shows "fixed_rate R xs"
  using assms by (simp add: fixed_rate_def numbered_def hd_conv_nth)

lemma fill_buffer_numbered:
  fixes R :: "'a readout_ops"
  defines "t \<equiv> unat (expected_tick_difference R) * unat (get_num_frames R (default_element R))"
  assumes fake: "\<forall>ts. get_timestamp R (fake ts (default_element R)) = ts \<and>
                    get_num_frames R (fake ts (default_element R)) = get_num_frames R (default_element R)"
    and alloc: "alloc_succeeds env StdMalloc 10" and t: "0 < t" "11 * t < 2 ^ 64"
    and skip: "finite skip" and ix: "enumerate (- skip) = ix" "\<forall>k < 9. ix k \<le> 11"
  shows "\<exists>q. fill_buffer R fake search env 0 10 skip (default_queue env) = Some (Inr q) \<and> queue_inv q \<and>
      stored q = 9 \<and> overflow_ctr q = 1 \<and> numbered R t ix (contents q) \<and> element_span R (contents q) = t \<and>
      (\<forall>x \<in> set (contents q). \<exists>ts. x = fake ts (default_element R))"
proof -
  let ?span = "get_num_frames R (default_element R) * expected_tick_difference R"
  have T: "unat ?span = t" using t by (simp_all add: t_def unat_mult_u64 mult.commute)
  obtain q where q: "fill_buffer R fake search env 0 10 skip (default_queue env) = Some (Inr q)" "queue_inv q"
      "contents q = map (\<lambda>k. object_at R fake 0 ?span (ix k)) [0..<9]" "overflow_ctr q = 1"
    using fill_buffer_contents [of R fake skip 10 env "default_queue env" search 0] fake skip alloc
    by (auto simp: default_queue_def ix(1))
  have "stored q = 9" using q(3) by (metis length_contents length_map length_upt diff_zero)
  moreover have "unat (of_nat (ix k) * ?span) = ix k * t" if "k < 9" for k
  proof -
    have "ix k \<le> 11" using ix(2) that by simp
    then have "ix k * t \<le> 11 * t" "ix k < 2 ^ 64" by (simp_all only: mult_le_mono1) simp
    then have "unat (of_nat (ix k) :: u64) = ix k" "ix k * t < 2 ^ 64"
      using t(2) by (simp_all only: unat_of_nat_u64 le_less_trans)
    then show ?thesis using T by (simp add: unat_mult_u64)
  qed
  then have "numbered R t ix (contents q)" using q(3) fake by (simp add: numbered_def object_at_def)
  moreover have "element_span R (contents q) = t"
    using q(3) fake by (simp add: element_span_def object_at_def t_def upt_rec)
  moreover have "\<forall>x \<in> set (contents q). \<exists>ts. x = fake ts (default_element R)" using q(3) by (auto simp: object_at_def)
  ultimately show ?thesis using q by blast
qed

text \<open>
  The tests of \<open>test_queue_model\<close> pass for every readout type whose \<open>fake_timestamps\<close> sets the
  timestamp and keeps the number of frames, on the binary-search and on the fixed-rate queue: when
  there are ticks between objects, and eleven times as many fit into 64 bits, filling both buffers
  returns, and each of the 5 (or, with more than one tick between objects, 16) test points passes its
  three checks. This needs the fixed-rate queue to search with the error flag where objects are
  skipped. Of the 10 objects that are filled in, the last one is lost in both buffers, counted by
  the overflow counter: a queue of size 10 holds 9.
\<close>

theorem test_queue_model_passes:
  fixes R :: "'a readout_ops"
  defines "t \<equiv> unat (expected_tick_difference R) * unat (get_num_frames R (default_element R))"
  assumes ord: "readout_order R"
    and fake: "\<forall>ts. get_timestamp R (fake ts (default_element R)) = ts \<and>
                    get_num_frames R (fake ts (default_element R)) = get_num_frames R (default_element R)"
    and alloc: "alloc_succeeds env StdMalloc 10" and t: "0 < t" "11 * t < 2 ^ 64"
    and search: "search \<in> {bs_lower_bound R, fr_lower_bound R}"
  shows "test_queue_model R fake search env = Some (replicate (if 1 < t then 16 else 5) (Some (Inr (True, True, True)))) \<and>
         (\<forall>skip \<in> {{}, {2, 3}}. \<exists>q. fill_buffer R fake search env 0 10 skip (default_queue env) = Some (Inr q) \<and>
            length (contents q) = 9 \<and> overflow_ctr q = 1)"
proof -
  let ?span = "get_num_frames R (default_element R) * expected_tick_difference R"
    and ?T = "expected_tick_difference R * get_num_frames R (default_element R)"
  have T: "unat ?T = t" "unat ?span = t" using t by (simp_all add: t_def unat_mult_u64 mult.commute)
  note sb = queue_models_searchable [OF ord search]
    and fill = fill_buffer_numbered [where R = R and fake = fake, OF fake alloc t [unfolded t_def], folded t_def]
  have m: "strict_mono (\<lambda>k. k :: nat)" "strict_mono skipping_2_3"
    by (simp_all add: strict_mono_def skipping_2_3_def)
  have e: "enumerate (- {} :: nat set) = (\<lambda>k. k)" "enumerate (- {2, 3} :: nat set) = skipping_2_3"
    using enumerate_all enumerate_without_2_3 by (auto simp: skipping_2_3_def)
  have small: "\<forall>k < 9. skipping_2_3 k \<le> 11" by (simp add: skipping_2_3_def)
  obtain q1 where q1: "fill_buffer R fake search env 0 10 {} (default_queue env) = Some (Inr q1)" "queue_inv q1"
      "stored q1 = 9" "overflow_ctr q1 = 1" "numbered R t (\<lambda>k. k) (contents q1)" "element_span R (contents q1) = t"
    using fill [OF _ e(1)] by auto
  obtain q2 where q2: "fill_buffer R fake search env 0 10 {2, 3} (default_queue env) = Some (Inr q2)" "queue_inv q2"
      "stored q2 = 9" "overflow_ctr q2 = 1" "numbered R t skipping_2_3 (contents q2)"
    using fill [OF _ e(2)] small by auto
  have "length (contents q1) = 9" using q1(3) by simp
  then have "fixed_rate R (contents q1)"
    using numbered_fixed_rate [OF q1(5) _ t(1) _ q1(6)] t by (cases "contents q1 = []") simp_all
  then have r1: "\<forall>(ts, k, we) \<in> set (noskip_points ?T). ts_sorted R (contents q1) \<and> (we \<or> fixed_rate R (contents q1))"
    using numbered_sorted [OF q1(5) m(1) t(1)] by auto
  have r2: "\<forall>(ts, k, we) \<in> set (skip_points ?T). ts_sorted R (contents q2) \<and> (we \<or> fixed_rate R (contents q2))"
    using numbered_sorted [OF q2(5) m(2) t(1)] by (auto simp: skip_points_def)
  note p1 = points_pass [OF sb q1(2,3,5) m(1) _ noskip_points_good [OF T(1) t] r1]
    and p2 = points_pass [OF sb q2(2,3,5) m(2) _ skip_points_good [OF T(1) t] r2]
  have "?T > 1 \<longleftrightarrow> 1 < t" using T(1) by (simp add: word_less_nat_alt)
  then have len: "length (noskip_points ?T) + length (skip_points ?T) = (if 1 < t then 16 else 5)"
    by (simp add: noskip_points_def skip_points_def)
  have "test_queue_model R fake search env = Some (replicate (if 1 < t then 16 else 5) passing)"
    using q1(1) q2(1) p1 p2 len
    by (simp add: test_queue_model_def Let_def skipping_2_3_def replicate_add [symmetric])
  then show ?thesis using q1 q2 by (auto simp: passing_def)
qed

theorem test_queue_model_passes_witness:
  "test_queue_model (dummy_ops 25) dummy_set_timestamp (fr_lower_bound (dummy_ops 25)) plain_env =
     Some (replicate 16 (Some (Inr (True, True, True))))"
  using test_queue_model_passes [OF dummy.readout_order_axioms, of 25 dummy_set_timestamp plain_env
      "fr_lower_bound (dummy_ops 25)"]
  by (simp add: dummy_set_timestamp_def plain_env_def)

end
