(* ===== verification/Request_Tests.thy ===== *)
theory Request_Tests
  imports Test_Utilities Request_Contract
begin

text \<open>
  The tests of fragment pieces that the unit tests of readout types instantiate
  (testutils/TestUtilities.hpp, \<open>test_request_model\<close>): requests for windows of a buffer without and
  with skipped objects, whose answers are compared with bounds that are computed from the window in
  single precision. What is proved is that these tests pass for every readout type whose objects hold
  their frames one after the other, on both queue models, as long as the timestamps fit into the 24
  bits that a \<open>float\<close> keeps.
\<close>

section \<open>The frames of a fragment piece\<close>

text \<open>
  The tests cast addresses in the pieces to the frame type of the readout type. \<open>frame_time p n\<close> is what
  \<open>get_timestamp\<close> returns for the frame at \<open>n\<close> bytes after \<open>p\<close>, \<open>sizeof_frame\<close> the size of the type. The
  payload of an object is its frames, one after the other.
\<close>

locale framed_payload =
  fixes R :: "'a readout_ops" and frame_time :: "'a frame_ptr \<Rightarrow> u64 \<Rightarrow> u64" and sizeof_frame :: u64
  assumes payload_frames: "get_payload_size R x = get_num_frames R x * sizeof_frame" "get_payload_size R x \<noteq> 0"
    and frame_size: "get_frame_size R x = sizeof_frame"
    and time_in_payload: "j < length (frame_timestamps R x) \<Longrightarrow>
      frame_time (ElementBegin x) (of_nat j * sizeof_frame) = frame_timestamps R x ! j"
    and time_of_frame: "j < length (frame_timestamps R x) \<Longrightarrow> frame_time (FrameAt x j) 0 = frame_timestamps R x ! j"
begin

lemma sizeof_frame_pos: "sizeof_frame \<noteq> 0"
  using payload_frames [of "default_element R"] by auto

end

definition dummy_frame_time :: "dummy_frame frame_ptr \<Rightarrow> u64 \<Rightarrow> u64" where
  "dummy_frame_time p n = (case p of ElementBegin x \<Rightarrow> timestamp x | FrameAt x j \<Rightarrow> timestamp x)"

interpretation dummy_payload: framed_payload "dummy_ops tick" dummy_frame_time "of_nat DUMMY_FRAME_SIZE"
  by unfold_locales (simp_all add: dummy_frame_time_def DUMMY_FRAME_SIZE_def dummy_ops_def dummy_get_timestamp_def)

section \<open>The tests\<close>

text \<open>The bounds of the window in whole frames, through \<open>float\<close>.\<close>

definition expected_begin :: "u64 \<Rightarrow> u64 \<Rightarrow> u64" where
  "expected_begin ticks_per_frame start_win =
     ticks_per_frame * of_nat (float_trunc (float_floor
       (float_div (float_of_nat (unat start_win)) (float_of_nat (unat ticks_per_frame)))))"

definition expected_finish :: "u64 \<Rightarrow> u64 \<Rightarrow> u64" where
  "expected_finish ticks_per_frame end_win =
     ticks_per_frame * of_nat (float_trunc (float_ceil
       (float_div (float_of_nat (unat end_win)) (float_of_nat (unat ticks_per_frame)))))"

text \<open>
  The corrections for skipped objects: the beginning moves forward while it is in a skipped object,
  the end back. The second loop does not compute the object of the end again (it assigns the variable
  of the beginning, which is not read any more).
\<close>

definition object_of :: "u64 \<Rightarrow> u64 \<Rightarrow> nat" where
  "object_of ticks_between ts = unat ((ts - ts mod ticks_between) div ticks_between)"

partial_function (option) skip_begin :: "u64 \<Rightarrow> u64 \<Rightarrow> nat set \<Rightarrow> u64 \<Rightarrow> u64 \<Rightarrow> u64 option" where
  "skip_begin ticks_per_frame ticks_between objects_skipped expected_end expected_start =
     (if object_of ticks_between expected_start \<in> objects_skipped \<and> expected_start < expected_end
      then skip_begin ticks_per_frame ticks_between objects_skipped expected_end (expected_start + ticks_per_frame)
      else Some expected_start)"

partial_function (option) skip_finish :: "u64 \<Rightarrow> bool \<Rightarrow> u64 \<Rightarrow> u64 \<Rightarrow> u64 option" where
  "skip_finish ticks_per_frame end_skipped expected_start expected_end =
     (if end_skipped \<and> expected_end > expected_start + ticks_per_frame
      then skip_finish ticks_per_frame end_skipped expected_start (expected_end - ticks_per_frame)
      else Some expected_end)"

text \<open>
  The outcomes of the checks for one window. A failed requirement ends the test; the division by the
  ticks of a frame has no meaning when there are none.
\<close>

definition test_req_bounds ::
  "'a readout_ops \<Rightarrow> ('b, 'a, 'i) lb_ops \<Rightarrow> ('a frame_ptr \<Rightarrow> u64 \<Rightarrow> u64) \<Rightarrow> u64 \<Rightarrow> 'b \<Rightarrow> u64 \<Rightarrow> u64 \<Rightarrow> nat set \<Rightarrow>
   (fault + bool list) option" where
  "test_req_bounds R L frame_time sizeof_frame b start_win end_win objects_skipped =
     (let n_frames = get_num_frames R (default_element R);
          ticks_per_frame = expected_tick_difference R;
          ticks_between = ticks_per_frame * n_frames
      in case get_fragment_pieces R L [] b start_win end_win kUnknown of
           None \<Rightarrow> None
         | Some (Inl f) \<Rightarrow> Some (Inl f)
         | Some (Inr (rc, ret)) \<Rightarrow>
             if ret = [] then Some (Inl InvalidAccess)
             else if snd (hd ret) = 0 \<or> snd (last ret) = 0 then Some (Inl AssertFailed)
             else if ticks_between = 0 then Some (Inl DivisionByZero)
             else
               let first_ts = frame_time (fst (hd ret)) 0;
                   last_ts = frame_time (fst (last ret)) (if n_frames = 1 then 0 else snd (last ret) - sizeof_frame);
                   none_skipped = (objects_skipped = {});
                   expected_end = expected_finish ticks_per_frame end_win
               in case skip_begin ticks_per_frame ticks_between objects_skipped expected_end
                         (expected_begin ticks_per_frame start_win) of
                    None \<Rightarrow> None
                  | Some expected_start \<Rightarrow>
                      (case skip_finish ticks_per_frame
                              (object_of ticks_between (expected_end - ticks_per_frame) \<in> objects_skipped)
                              expected_start expected_end of
                         None \<Rightarrow> None
                       | Some expected_end \<Rightarrow>
                           Some (Inr ([rc = kFound] @ (if none_skipped then [first_ts \<le> start_win] else []) @
                             [start_win < first_ts + ticks_per_frame, last_ts < end_win] @
                             (if none_skipped then [end_win \<le> last_ts + ticks_per_frame] else []) @
                             [first_ts = expected_start, last_ts + ticks_per_frame = expected_end]))))"

text \<open>What the tests print of a buffer.\<close>

partial_function (option) print_buffer ::
  "'a readout_ops \<Rightarrow> ('b, 'a, 'i) lb_ops \<Rightarrow> 'b \<Rightarrow> 'i \<Rightarrow> u64 list \<Rightarrow> (fault + u64 list) option" where
  "print_buffer R L b iter ss =
     (if iter = lb_end L b then Some (Inr ss)
      else case it_deref L b iter of
             Inl f \<Rightarrow> Some (Inl f)
           | Inr x \<Rightarrow> print_buffer R L b (it_next L b iter) (ss @ [get_timestamp R x]))"

definition printed_buffer ::
  "'a readout_ops \<Rightarrow> (u64 \<Rightarrow> 'a \<Rightarrow> 'a) \<Rightarrow> ('a \<Rightarrow> bool \<Rightarrow> 'a iterable_queue \<Rightarrow> (fault + u32) option) \<Rightarrow> build_env \<Rightarrow>
   nat set \<Rightarrow> (fault + 'a iterable_queue) option" where
  "printed_buffer R fake search env obj_to_skip =
     (case fill_buffer R fake search env 0 10 obj_to_skip (default_queue env) of
        None \<Rightarrow> None
      | Some (Inl f) \<Rightarrow> Some (Inl f)
      | Some (Inr b) \<Rightarrow>
          (case print_buffer R (queue_lb_ops search) b (begin_iter b) [] of
             None \<Rightarrow> None
           | Some (Inl f) \<Rightarrow> Some (Inl f)
           | Some (Inr _) \<Rightarrow> Some (Inr b)))"

definition noskip_windows :: "u64 \<Rightarrow> (u64 \<times> u64) list" where
  "noskip_windows T = [(T * 2, T * 5), (T * 3 div 2, T * 9 div 2), (T * 11 div 5, T * 21 div 5), (T * 2 + 1, T * 5 + 1)]"

definition skip_windows :: "u64 \<Rightarrow> (u64 \<times> u64) list" where
  "skip_windows T =
     [(T * 2, T * 5), (T * 3 div 2, T * 9 div 2)] @ (if T * 21 div 5 > 4 * T then [(T * 11 div 5, T * 21 div 5)] else []) @
     [(T * 2 + 1, T * 5 + 1)]"

definition test_request_model ::
  "'a readout_ops \<Rightarrow> (u64 \<Rightarrow> 'a \<Rightarrow> 'a) \<Rightarrow> ('a \<Rightarrow> bool \<Rightarrow> 'a iterable_queue \<Rightarrow> (fault + u32) option) \<Rightarrow> build_env \<Rightarrow>
   ('a frame_ptr \<Rightarrow> u64 \<Rightarrow> u64) \<Rightarrow> u64 \<Rightarrow> (fault + (fault + bool list) option list) option" where
  "test_request_model R fake search env frame_time sizeof_frame =
     (let T = expected_tick_difference R * get_num_frames R (default_element R);
          L = queue_lb_ops search;
          tests = (\<lambda>b skipped ws. map (\<lambda>(s, e). test_req_bounds R L frame_time sizeof_frame b s e skipped) ws)
      in case printed_buffer R fake search env {} of
           None \<Rightarrow> None
         | Some (Inl f) \<Rightarrow> Some (Inl f)
         | Some (Inr buffer_noskip) \<Rightarrow>
             (case printed_buffer R fake search env {2, 3} of
                None \<Rightarrow> None
              | Some (Inl f) \<Rightarrow> Some (Inl f)
              | Some (Inr buffer_skip) \<Rightarrow>
                  Some (Inr (tests buffer_noskip {} (noskip_windows T) @ tests buffer_skip {2, 3} (skip_windows T)))))"

section \<open>First and last frames\<close>

lemma filter_interval: "filter (\<lambda>j. lo \<le> j \<and> j < hi) [0..<n] = [lo..<min hi n]"
proof (induction n)
  case (Suc n)
  then show ?case by (cases "n < hi"; cases "lo \<le> n") (auto simp: min_def le_Suc_eq)
qed simp

lemma concat_singletons: "concat (map (\<lambda>j. if P j then [f j] else []) xs) = map f (filter P xs)"
  by (induction xs) simp_all

lemma filter_positions: "filter P xs = map ((!) xs) (filter (\<lambda>k. P (xs ! k)) [0..<length xs])"
  by (subst map_nth [of xs, symmetric]) (simp only: filter_map comp_def)

lemma enumerate_upt: "List.enumerate 0 xs = map (\<lambda>j. (j, xs ! j)) [0..<length xs]"
  by (rule nth_equalityI) (simp_all add: nth_enumerate_eq)

lemma frame_pieces_filter:
  "[(FrameAt x n, sz). (n, ts) \<leftarrow> List.enumerate 0 fs, P ts] =
   map (\<lambda>j. (FrameAt x j, sz)) (filter (\<lambda>j. P (fs ! j)) [0..<length fs])"
  by (simp add: enumerate_upt comp_def concat_singletons)

lemma ceil_div_iff: "0 < (t::nat) \<Longrightarrow> j < (d + t - 1) div t \<longleftrightarrow> j * t < d"
  using less_eq_div_iff_mult_less_eq [of t "j + 1" "d + t - 1"] by (auto simp: Suc_le_eq)

lemma floor_div_iff: "0 < (t::nat) \<Longrightarrow> d div t \<le> j \<longleftrightarrow> d < j * t + t"
  using div_less_iff_less_mult [of t d "j + 1"] by (auto simp: less_Suc_eq_le add.commute)

text \<open>The frames of a piece that the tests look at.\<close>

definition first_time :: "('a frame_ptr \<Rightarrow> u64 \<Rightarrow> u64) \<Rightarrow> 'a piece \<Rightarrow> u64" where
  "first_time frame_time p = frame_time (fst p) 0"

definition last_time :: "('a frame_ptr \<Rightarrow> u64 \<Rightarrow> u64) \<Rightarrow> u64 \<Rightarrow> u64 \<Rightarrow> 'a piece \<Rightarrow> u64" where
  "last_time frame_time sizeof_frame n_frames p =
     frame_time (fst p) (if n_frames = 1 then 0 else snd p - sizeof_frame)"

text \<open>The first frame of an element that ends after the window begins, and the one after the last that begins before it ends.\<close>

definition first_frame :: "'a readout_ops \<Rightarrow> u64 \<Rightarrow> 'a \<Rightarrow> nat" where
  "first_frame R s x = (unat s - unat (get_timestamp R x)) div unat (expected_tick_difference R)"

definition end_frame :: "'a readout_ops \<Rightarrow> u64 \<Rightarrow> 'a \<Rightarrow> nat" where
  "end_frame R e x =
     min ((unat e - unat (get_timestamp R x) + unat (expected_tick_difference R) - 1) div unat (expected_tick_difference R))
       (unat (get_num_frames R x))"

definition cut_by :: "'a readout_ops \<Rightarrow> u64 \<Rightarrow> u64 \<Rightarrow> 'a \<Rightarrow> bool" where
  "cut_by R s e x \<longleftrightarrow> regular_frames R x \<and> 0 < unat (expected_tick_difference R) \<and> expected_tick_difference R \<le> s \<and>
     s < e \<and> get_timestamp R x < e \<and> s < element_end R x"

lemma cut_by_nat:
  assumes "cut_by R s e x"
  defines "a \<equiv> unat (get_timestamp R x)" and "t \<equiv> unat (expected_tick_difference R)" and "n \<equiv> unat (get_num_frames R x)"
  shows "0 < t" "0 < n" "length (frame_timestamps R x) = n" "unat (element_end R x) = a + n * t"
    "a < unat e" "unat s < a + n * t" "unat s < unat e" "j < n \<Longrightarrow> unat (frame_timestamps R x ! j) = a + j * t"
proof -
  have reg: "regular_frames R x" using assms(1) by (simp add: cut_by_def)
  show eu: "unat (element_end R x) = a + n * t" using unat_regular_end [OF reg] by (simp add: a_def t_def n_def)
  show "0 < t" "0 < n" "length (frame_timestamps R x) = n"
    using assms(1) reg by (auto simp: cut_by_def regular_frames_def t_def n_def unat_gt_0)
  then show "unat (frame_timestamps R x ! j) = a + j * t" if "j < n"
    using reg that by (simp add: regular_frames_def a_def t_def)
  show "a < unat e" "unat s < a + n * t" "unat s < unat e"
    using assms(1) eu by (simp_all add: cut_by_def word_less_nat_alt a_def)
qed

lemma frame_bounds:
  assumes "cut_by R s e x"
  shows "first_frame R s x < end_frame R e x" "first_frame R s x < unat (get_num_frames R x)"
proof -
  note d = cut_by_nat [OF assms]
  have "0 < unat (get_num_frames R x) * unat (expected_tick_difference R)" using d(1,2) by simp
  then show n: "first_frame R s x < unat (get_num_frames R x)"
    using d(1,6) unfolding first_frame_def by (simp only: div_less_iff_less_mult)
  have "first_frame R s x * unat (expected_tick_difference R) \<le> unat s - unat (get_timestamp R x)"
    by (simp add: first_frame_def)
  then have "first_frame R s x * unat (expected_tick_difference R) < unat e - unat (get_timestamp R x)"
    using d(5,7) by linarith
  then show "first_frame R s x < end_frame R e x"
    using n unfolding end_frame_def by (simp only: ceil_div_iff [OF d(1)] min_less_iff_conj simp_thms)
qed

lemma frame_selected_iff:
  assumes c: "cut_by R s e x" and j: "j < unat (get_num_frames R x)"
  shows "frame_timestamps R x ! j > s - expected_tick_difference R \<and> frame_timestamps R x ! j < e \<longleftrightarrow>
         first_frame R s x \<le> j \<and> j < end_frame R e x"
proof -
  let ?a = "unat (get_timestamp R x)" and ?t = "unat (expected_tick_difference R)"
  note d = cut_by_nat [OF c]
  have "first_frame R s x \<le> j \<longleftrightarrow> unat s - ?a < j * ?t + ?t" unfolding first_frame_def by (rule floor_div_iff [OF d(1)])
  moreover have "j < end_frame R e x \<longleftrightarrow> j * ?t < unat e - ?a"
    using j unfolding end_frame_def by (simp only: ceil_div_iff [OF d(1)] min_less_iff_conj simp_thms)
  moreover have "unat (frame_timestamps R x ! j) = ?a + j * ?t" by (rule d(8) [OF j])
  moreover have "?t < j * ?t + ?t \<or> 0 < ?t" using d(1) by simp
  ultimately show ?thesis
    using frame_selected [of R x s "frame_timestamps R x ! j" e] c d(5) by (auto simp: cut_by_def)
qed

context framed_payload
begin

text \<open>An element contributes the frames between these, one by one, or all of them as one piece.\<close>

lemma element_pieces_shape:
  assumes c: "cut_by R s e x"
  defines "lo \<equiv> first_frame R s x" and "hi \<equiv> end_frame R e x"
  shows "(get_num_frames R x \<noteq> 1 \<and> element_pieces R s e x = map (\<lambda>j. (FrameAt x j, sizeof_frame)) [lo..<hi]) \<or>
         (element_pieces R s e x = [(ElementBegin x, get_payload_size R x)] \<and> lo = 0 \<and> hi = unat (get_num_frames R x))"
proof -
  let ?n = "unat (get_num_frames R x)" and ?fs = "frame_timestamps R x" and ?tick = "expected_tick_difference R"
  note d = cut_by_nat [OF c] and b = frame_bounds [OF c]
  have s: "s < element_end R x" using c by (simp add: cut_by_def)
  show ?thesis
  proof (cases "get_num_frames R x > 1 \<and> ((get_timestamp R x < s \<and> element_end R x > s) \<or> element_end R x > e)")
    case True
    then have "element_pieces R s e x =
        map (\<lambda>j. (FrameAt x j, sizeof_frame)) (filter (\<lambda>j. ?fs ! j > s - ?tick \<and> ?fs ! j < e) [0..<?n])"
      using s by (simp only: element_pieces_def frame_pieces_filter not_le [symmetric] if_True if_False simp_thms
          frame_size d(3))
    also have "filter (\<lambda>j. ?fs ! j > s - ?tick \<and> ?fs ! j < e) [0..<?n] = filter (\<lambda>j. lo \<le> j \<and> j < hi) [0..<?n]"
      by (rule filter_cong) (simp_all add: frame_selected_iff [OF c] lo_def hi_def)
    finally show ?thesis using True by (auto simp: filter_interval hi_def end_frame_def min_def)
  next
    case False
    then have p: "element_pieces R s e x = [(ElementBegin x, get_payload_size R x)]" using s by (auto simp: element_pieces_def)
    have "lo = 0 \<and> hi = ?n"
    proof (cases "get_num_frames R x > 1")
      case True
      then have "s \<le> get_timestamp R x" "element_end R x \<le> e" using False s by auto
      then have "unat s \<le> unat (get_timestamp R x)" "?n * unat ?tick \<le> unat e - unat (get_timestamp R x)"
        using d(4,5) by (simp_all add: word_le_nat_alt)
      then show ?thesis using d(1) by (simp add: lo_def hi_def first_frame_def end_frame_def less_eq_div_iff_mult_less_eq)
    next
      case False
      then have "?n = 1" using d(2) by (simp add: not_less word_le_nat_alt)
      then show ?thesis using b by (simp add: lo_def hi_def end_frame_def)
    qed
    then show ?thesis using p by simp
  qed
qed

lemma element_pieces_ends:
  assumes c: "cut_by R s e x"
  defines "ps \<equiv> element_pieces R s e x" and "a \<equiv> unat (get_timestamp R x)" and "t \<equiv> unat (expected_tick_difference R)"
  shows "ps \<noteq> []" "\<forall>p \<in> set ps. snd p \<noteq> 0" "unat (first_time frame_time (hd ps)) = a + first_frame R s x * t"
    "unat (last_time frame_time sizeof_frame (get_num_frames R x) (last ps)) = a + (end_frame R e x - 1) * t"
proof -
  let ?n = "get_num_frames R x" and ?lo = "first_frame R s x" and ?hi = "end_frame R e x"
  note d = cut_by_nat [OF c, folded a_def t_def] and lh = frame_bounds [OF c]
  have "?hi \<le> unat ?n" by (simp add: end_frame_def)
  then have h: "?hi - 1 < unat ?n" using lh by linarith
  note lo = d(8) [OF lh(2)] and hi = d(8) [OF h]
  consider (part) "?n \<noteq> 1" "ps = map (\<lambda>j. (FrameAt x j, sizeof_frame)) [?lo..<?hi]"
    | (whole) "ps = [(ElementBegin x, get_payload_size R x)]" "?lo = 0" "?hi = unat ?n"
    using element_pieces_shape [OF c] by (auto simp: ps_def)
  then have "ps \<noteq> [] \<and> (\<forall>p \<in> set ps. snd p \<noteq> 0) \<and> first_time frame_time (hd ps) = frame_timestamps R x ! ?lo \<and>
      last_time frame_time sizeof_frame ?n (last ps) = frame_timestamps R x ! (?hi - 1)"
  proof cases
    case part
    have "hd ps = (FrameAt x ?lo, sizeof_frame)" "last ps = (FrameAt x (?hi - 1), sizeof_frame)"
      using lh by (simp_all add: part(2) hd_map last_map)
    then show ?thesis
      using part lh(1) sizeof_frame_pos time_of_frame [of ?lo x] time_of_frame [of "?hi - 1" x] lh(2) h d(3)
      by (auto simp: first_time_def last_time_def)
  next
    case whole
    have "(if ?n = 1 then 0 else get_payload_size R x - sizeof_frame) = of_nat (unat ?n - 1) * sizeof_frame"
      using payload_frames(1) [of x] d(2) by (auto simp: of_nat_diff algebra_simps)
    then have "last_time frame_time sizeof_frame ?n (last ps) = frame_timestamps R x ! (?hi - 1)"
      using time_in_payload [of "unat ?n - 1" x] h d(3) whole by (simp only: last_time_def last.simps refl fst_conv snd_conv if_True simp_thms)
    then show ?thesis
      using whole payload_frames(2) time_in_payload [of 0 x] lh(2) d(3) by (simp add: first_time_def)
  qed
  then show "ps \<noteq> []" "\<forall>p \<in> set ps. snd p \<noteq> 0" "unat (first_time frame_time (hd ps)) = a + ?lo * t"
    "unat (last_time frame_time sizeof_frame ?n (last ps)) = a + (?hi - 1) * t"
    using lo hi by auto
qed

text \<open>The pieces of a window that the elements from \<open>i\<close> to \<open>j\<close> overlap.\<close>

lemma window_pieces_between:
  assumes ov: "\<forall>k < length xs. get_timestamp R (xs ! k) < e \<and> s < element_end R (xs ! k) \<longleftrightarrow> i \<le> k \<and> k < Suc j"
    and ij: "i \<le> j" "j < length xs" and c: "cut_by R s e (xs ! i)" "cut_by R s e (xs ! j)"
  defines "ps \<equiv> window_pieces R s e xs"
  shows "ps \<noteq> []" "hd ps = hd (element_pieces R s e (xs ! i))" "last ps = last (element_pieces R s e (xs ! j))"
proof -
  let ?P = "\<lambda>x. get_timestamp R x < e \<and> s < element_end R x"
  have "filter ?P xs = map ((!) xs) (filter (\<lambda>k. ?P (xs ! k)) [0..<length xs])"
    by (rule filter_positions)
  also have "filter (\<lambda>k. ?P (xs ! k)) [0..<length xs] = filter (\<lambda>k. i \<le> k \<and> k < Suc j) [0..<length xs]"
    by (rule filter_cong) (use ov in auto)
  also have "\<dots> = [i..<Suc j]" using ij by (simp only: filter_interval) (simp add: min_def)
  finally have f: "filter ?P xs = map ((!) xs) [i..<Suc j]" .
  have ne: "element_pieces R s e (xs ! i) \<noteq> []" "element_pieces R s e (xs ! j) \<noteq> []"
    using element_pieces_ends(1) c by blast+
  have ps: "ps = concat (map (\<lambda>k. element_pieces R s e (xs ! k)) [i..<Suc j])"
    by (simp add: ps_def window_pieces_def f comp_def del: upt_Suc)
  have "[i..<Suc j] = i # [Suc i..<Suc j]" using ij by (simp add: upt_conv_Cons del: upt_Suc)
  then show "ps \<noteq> []" "hd ps = hd (element_pieces R s e (xs ! i))" using ps ne(1) by simp_all
  have "[i..<Suc j] = [i..<j] @ [j]" using ij by simp
  then show "last ps = last (element_pieces R s e (xs ! j))" using ps ne(2) by simp
qed

text \<open>
  A test passes when the window is found and the bounds it computes are those of the first and the
  last frame that overlap the window.
\<close>

lemma test_req_bounds_passes:
  assumes found: "get_fragment_pieces R L [] b s e kUnknown = Some (Inr (kFound, window_pieces R s e xs))"
    and ov: "\<forall>k < length xs. get_timestamp R (xs ! k) < e \<and> s < element_end R (xs ! k) \<longleftrightarrow> i \<le> k \<and> k < Suc j"
    and ij: "i \<le> j" "j < length xs" and ci: "cut_by R s e (xs ! i)" and cj: "cut_by R s e (xs ! j)"
    and num: "get_num_frames R (xs ! j) = get_num_frames R (default_element R)"
    and e24: "unat e < 2 ^ 24" and t24: "unat (expected_tick_difference R) < 2 ^ 24"
    and T: "expected_tick_difference R * get_num_frames R (default_element R) \<noteq> 0"
  defines "t \<equiv> unat (expected_tick_difference R)" and "ef \<equiv> expected_finish (expected_tick_difference R) e"
    and "T \<equiv> expected_tick_difference R * get_num_frames R (default_element R)"
  assumes es: "skip_begin (expected_tick_difference R) T skipped ef (expected_begin (expected_tick_difference R) s) = Some es"
      "unat es = unat (get_timestamp R (xs ! i)) + first_frame R s (xs ! i) * t"
    and ee: "skip_finish (expected_tick_difference R) (object_of T (ef - expected_tick_difference R) \<in> skipped) es ef = Some ee"
      "unat ee = unat (get_timestamp R (xs ! j)) + end_frame R e (xs ! j) * t"
    and none: "skipped = {} \<Longrightarrow> get_timestamp R (xs ! i) \<le> s \<and> e \<le> element_end R (xs ! j)"
  shows "test_req_bounds R L frame_time sizeof_frame b s e skipped =
         Some (Inr (replicate (if skipped = {} then 7 else 5) True))"
proof -
  let ?ps = "window_pieces R s e xs" and ?tick = "expected_tick_difference R"
  note w = window_pieces_between [OF ov ij ci cj] and pi = element_pieces_ends [OF ci] and pj = element_pieces_ends [OF cj]
  note di = cut_by_nat [OF ci, folded t_def] and dj = cut_by_nat [OF cj, folded t_def]
  define f l where "f = first_time frame_time (hd ?ps)"
    and "l = last_time frame_time sizeof_frame (get_num_frames R (default_element R)) (last ?ps)"
  have sizes: "snd (hd ?ps) \<noteq> 0" "snd (last ?ps) \<noteq> 0" using w pi(1,2) pj(1,2) hd_in_set last_in_set by metis+
  let ?lo = "first_frame R s (xs ! i)" and ?hi = "end_frame R e (xs ! j)"
    and ?a = "unat (get_timestamp R (xs ! i))" and ?b = "unat (get_timestamp R (xs ! j))"
  have f: "unat f = ?a + ?lo * t" using pi(3) by (simp add: f_def w(2) t_def)
  have l: "unat l = ?b + (?hi - 1) * t" using pj(4) by (simp add: l_def w(3) t_def num)
  have hi: "0 < ?hi" using frame_bounds(1) [OF cj] by simp
  then have hi_t: "(?hi - 1) * t + t = ?hi * t" by (simp add: diff_mult_distrib)
  have "?hi \<le> (unat e - ?b + t - 1) div t" by (simp add: end_frame_def t_def)
  then have "?hi - 1 < (unat e - ?b + t - 1) div t" using hi by linarith
  then have "(?hi - 1) * t < unat e - ?b" by (simp only: ceil_div_iff [OF dj(1)])
  then have le: "unat l < unat e" using l dj(5) by linarith
  have "unat s - ?a < ?lo * t + t" using floor_div_iff [OF di(1), of "unat s - ?a" ?lo] by (simp add: first_frame_def t_def)
  then have sf: "unat s < unat f + t" using f by linarith
  have "?lo * t \<le> unat s - ?a" by (simp add: first_frame_def t_def)
  then have fe: "unat f < unat e" using f di(5,7) by linarith
  have plus: "unat (f + ?tick) = unat f + t" "unat (l + ?tick) = unat l + t"
    using fe le e24 t24 by (simp_all add: unat_plus_if' t_def)
  have first_in: "f \<le> s" if "skipped = {}"
    using none [OF that] f \<open>?lo * t \<le> unat s - ?a\<close> unfolding word_le_nat_alt by linarith
  have last_in: "e \<le> l + ?tick" if "skipped = {}"
  proof -
    have "unat e - ?b \<le> unat (get_num_frames R (xs ! j)) * t"
      using none [OF that] dj(4) unfolding word_le_nat_alt by linarith
    then have "\<not> ?hi * t < unat e - ?b"
      using ceil_div_iff [OF dj(1), of ?hi "unat e - ?b"] by (auto simp: end_frame_def t_def min_def split: if_splits)
    then show ?thesis using plus(2) l hi_t by (simp add: word_le_nat_alt)
  qed
  have "f = es" "l + ?tick = ee" using f es(2) plus(2) l hi_t ee(2) by (simp_all add: word_unat_eq_iff)
  then show ?thesis
    using w(1) sizes found T es(1) ee(1) first_in last_in sf le plus
    unfolding test_req_bounds_def Let_def T_def [symmetric] ef_def [symmetric]
    by (auto simp: f_def [unfolded first_time_def, symmetric] l_def [unfolded last_time_def, symmetric] word_less_nat_alt
        numeral_eq_Suc)
qed

end

section \<open>The expected bounds\<close>

lemma expected_bounds_nat:
  assumes "unat w < 2 ^ 24" and "0 < unat t" and "unat t < 2 ^ 24"
  shows "unat (expected_begin t w) = unat w div unat t * unat t"
    "unat (expected_finish t w) = (unat w + unat t - 1) div unat t * unat t"
proof -
  let ?w = "unat w" and ?t = "unat t"
  have p: "(2::nat) ^ 24 + 2 ^ 24 \<le> 2 ^ 64" by simp
  have "?w div ?t * ?t \<le> ?w" "(?w + ?t - 1) div ?t * ?t \<le> ?w + ?t - 1" by simp_all
  then have b: "?w div ?t * ?t < 2 ^ 64" "(?w + ?t - 1) div ?t * ?t < 2 ^ 64" using assms p by linarith+
  have "?w div ?t \<le> ?w" "(?w + ?t - 1) div ?t \<le> ?w + ?t - 1" by (rule div_le_dividend)+
  then have "?w div ?t < 2 ^ 64" "(?w + ?t - 1) div ?t < 2 ^ 64" using assms p by linarith+
  then have u: "unat (of_nat (?w div ?t) :: u64) = ?w div ?t" "unat (of_nat ((?w + ?t - 1) div ?t) :: u64) = (?w + ?t - 1) div ?t"
    by (simp_all only: unat_of_nat_u64)
  show "unat (expected_begin t w) = ?w div ?t * ?t"
    unfolding expected_begin_def float_quotient(1) [OF assms] using u(1) b(1) by (subst unat_mult_u64) (simp_all add: mult.commute)
  show "unat (expected_finish t w) = (?w + ?t - 1) div ?t * ?t"
    unfolding expected_finish_def float_quotient(2) [OF assms] using u(2) b(2) by (subst unat_mult_u64) (simp_all add: mult.commute)
qed

lemma object_of_nat: "object_of T x = unat x div unat T"
proof -
  have "x mod T \<le> x" by (simp add: word_le_nat_alt unat_mod)
  then have "unat (x - x mod T) = unat x - unat x mod unat T" by (simp add: unat_sub unat_mod)
  also have "\<dots> = unat x div unat T * unat T" by (simp add: minus_mod_eq_div_mult)
  finally show ?thesis by (cases "unat T = 0") (simp_all add: object_of_def unat_div)
qed

lemma skip_finish_none: "skip_finish t False es ef = Some ef"
  by (subst skip_finish.simps) simp

text \<open>
  Once the end is in a skipped object, the second loop goes on until one frame is left, past the
  frames of the objects before. And beyond 24 bits the bounds may be those of a neighbouring frame.
\<close>

lemma skip_finish_one_frame:
  assumes "unat ef = unat es + (d + 1) * unat t"
  shows "skip_finish t True es ef = Some (es + t)"
  using assms
proof (induction d arbitrary: ef)
  case 0
  then have "ef = es + t" using unat_u64_less [of ef] by (simp add: word_unat_eq_iff unat_plus_if')
  then show ?case by (subst skip_finish.simps) simp
next
  case (Suc d)
  have "unat es + unat t \<le> unat ef" using Suc.prems by simp
  then have est: "unat (es + t) = unat es + unat t" using unat_u64_less [of ef] by (simp add: unat_plus_if')
  show ?case
  proof (cases "unat t = 0")
    case True
    then have "t = 0" by (simp add: unat_eq_0)
    moreover from this have "ef = es" using Suc.prems by (simp add: word_unat_eq_iff)
    ultimately have "t = 0" "ef = es" by simp_all
    then show ?thesis by (subst skip_finish.simps) simp
  next
    case False
    then have "ef > es + t" using Suc.prems est by (simp add: word_less_nat_alt)
    moreover have "unat (ef - t) = unat es + (d + 1) * unat t" using Suc.prems by (simp add: unat_sub word_le_nat_alt)
    ultimately show ?thesis using Suc.IH by (subst skip_finish.simps) simp
  qed
qed

lemma bit_len_pos: "0 < n \<Longrightarrow> bit_len n = Suc (bit_len (n div 2))" "bit_len 0 = 0"
  by (subst bit_len.simps, simp)+

lemma expected_finish_beyond_float: "expected_finish 16777217 (5 * 16777217) = 6 * 16777217"
proof -
  have r: "round24 83886085 = 83886088" "round24 16777217 = 16777216" "bit_len 16777216 = 25"
    by (simp_all add: round24_def round_even_def bit_len_pos)
  have "float_div \<lparr>numerator = 83886088, scale = 0\<rparr> \<lparr>numerator = 16777216, scale = 0\<rparr> =
      float_round (int (10485761 * 2 ^ 30)) 51"
    by (simp add: float_div_def Let_def r(3))
  also have "\<dots> = \<lparr>numerator = int (10485761 * 2 ^ 30), scale = 51\<rparr>"
    unfolding float_round_def by (subst abs_of_nat, subst nat_int, subst round24_exact) simp_all
  finally have q: "float_div \<lparr>numerator = 83886088, scale = 0\<rparr> \<lparr>numerator = 16777216, scale = 0\<rparr> =
      \<lparr>numerator = int (10485761 * 2 ^ 30), scale = 51\<rparr>" .
  show ?thesis by (simp add: expected_finish_def float_of_nat_def r q float_ceil_def float_trunc_def)
qed

lemma skip_begin_to:
  assumes "unat y = unat x + d * unat t" and "\<forall>k < d. (unat x + k * unat t) div unat T \<in> skipped"
    and "d = 0 \<or> y < ef" and "unat y div unat T \<notin> skipped"
  shows "skip_begin t T skipped ef x = Some y"
  using assms
proof (induction d arbitrary: x)
  case 0
  then have "x = y" by (simp add: word_unat_eq_iff)
  then show ?case using 0 by (subst skip_begin.simps) (simp add: object_of_nat)
next
  case (Suc d)
  have "unat x + unat t \<le> unat y" using Suc.prems(1) by simp
  then have xt: "unat (x + t) = unat x + unat t" using unat_u64_less [of y] by (simp add: unat_plus_if')
  have "x < ef" using Suc.prems(1,3) by (simp add: word_less_nat_alt)
  moreover have "object_of T x \<in> skipped" using Suc.prems(2) by (auto simp: object_of_nat)
  moreover have "skip_begin t T skipped ef (x + t) = Some y"
  proof (rule Suc.IH)
    show "unat y = unat (x + t) + d * unat t" using Suc.prems(1) xt by simp
    show "\<forall>k < d. (unat (x + t) + k * unat t) div unat T \<in> skipped"
      using Suc.prems(2) xt by (metis Suc_mono add.assoc mult_Suc)
  qed (use Suc.prems in auto)
  ultimately show ?case by (subst skip_begin.simps) simp
qed

section \<open>Windows of a filled buffer\<close>

text \<open>Objects with numbers \<open>ix\<close>, whose frames follow one another.\<close>

definition filled :: "'a readout_ops \<Rightarrow> (nat \<Rightarrow> nat) \<Rightarrow> 'a list \<Rightarrow> bool" where
  "filled R ix xs \<longleftrightarrow> strict_mono ix \<and>
     numbered R (unat (expected_tick_difference R) * unat (get_num_frames R (default_element R))) ix xs \<and>
     (\<forall>x \<in> set xs. regular_frames R x \<and> get_num_frames R x = get_num_frames R (default_element R))"

text \<open>The window from \<open>s\<close> to \<open>e\<close> begins after object \<open>i - 1\<close> and before the end of \<open>i\<close>, and ends in or after \<open>j\<close>.\<close>

definition between :: "nat \<Rightarrow> (nat \<Rightarrow> nat) \<Rightarrow> nat \<Rightarrow> nat \<Rightarrow> nat \<Rightarrow> nat \<Rightarrow> bool" where
  "between t ix s e i j \<longleftrightarrow> 0 < i \<and> i \<le> j \<and> s < e \<and>
     (ix (i - 1) + 1) * t \<le> s \<and> s < (ix i + 1) * t \<and> ix j * t < e \<and> e \<le> ix (j + 1) * t"

lemma between_overlaps:
  assumes "between t ix s e i j" and mono: "strict_mono ix"
  shows "ix k * t < e \<and> s < (ix k + 1) * t \<longleftrightarrow> i \<le> k \<and> k < Suc j"
proof -
  have le: "ix a * t \<le> ix b * t" if "a \<le> b" for a b using mono that by (simp add: strict_mono_less_eq)
  have s: "s < (ix k + 1) * t" if "i \<le> k" using le [OF that] assms(1) unfolding between_def add_mult_distrib by linarith
  have e: "ix k * t < e" if "k \<le> j" using le [OF that] assms(1) unfolding between_def by linarith
  have ns: "\<not> s < (ix k + 1) * t" if "k < i"
  proof -
    have "k \<le> i - 1" using that by simp
    from le [OF this] show ?thesis using assms(1) unfolding between_def add_mult_distrib by linarith
  qed
  have ne: "\<not> ix k * t < e" if "j < k"
  proof -
    have "j + 1 \<le> k" using that by simp
    from le [OF this] show ?thesis using assms(1) unfolding between_def by linarith
  qed
  show ?thesis using s e ns ne by (metis leI less_Suc_eq_le)
qed

text \<open>What \<open>filled\<close> and \<open>between\<close> say of the elements of the window.\<close>

abbreviation ticks :: "'a readout_ops \<Rightarrow> nat" where
  "ticks R \<equiv> unat (expected_tick_difference R)"

abbreviation frames :: "'a readout_ops \<Rightarrow> nat" where
  "frames R \<equiv> unat (get_num_frames R (default_element R))"

definition window_in :: "'a readout_ops \<Rightarrow> (nat \<Rightarrow> nat) \<Rightarrow> 'a list \<Rightarrow> u64 \<Rightarrow> u64 \<Rightarrow> nat \<Rightarrow> nat \<Rightarrow> bool" where
  "window_in R ix xs s e i j \<longleftrightarrow>
     filled R ix xs \<and> between (ticks R * frames R) ix (unat s) (unat e) i j \<and> j < length xs \<and> 0 < ticks R * frames R"

lemma element_times:
  assumes filled: "filled R ix xs" and k: "k < length xs"
  defines "t \<equiv> ticks R" and "n \<equiv> frames R"
  shows "unat (get_timestamp R (xs ! k)) = ix k * (t * n)" "unat (element_end R (xs ! k)) = (ix k + 1) * (t * n)"
    "regular_frames R (xs ! k)" "get_num_frames R (xs ! k) = get_num_frames R (default_element R)"
proof -
  show r: "regular_frames R (xs ! k)" "get_num_frames R (xs ! k) = get_num_frames R (default_element R)"
    and ts: "unat (get_timestamp R (xs ! k)) = ix k * (t * n)"
    using filled k by (simp_all add: filled_def numbered_def t_def n_def)
  show "unat (element_end R (xs ! k)) = (ix k + 1) * (t * n)"
    using unat_regular_end [OF r(1)] r(2) ts by (simp add: mult.commute t_def n_def)
qed

lemma window_inD:
  assumes w: "window_in R ix xs s e i j"
  shows "filled R ix xs" "j < length xs" "i \<le> j" "i < length xs" "ticks R * frames R \<le> unat s" "unat s < unat e" "0 < ticks R"
    "\<forall>k < length xs. get_timestamp R (xs ! k) < e \<and> s < element_end R (xs ! k) \<longleftrightarrow> i \<le> k \<and> k < Suc j"
proof -
  show f: "filled R ix xs" and "j < length xs" "i \<le> j" "i < length xs" "ticks R * frames R \<le> unat s" "unat s < unat e" "0 < ticks R"
    using w by (auto simp: window_in_def between_def)
  show "\<forall>k < length xs. get_timestamp R (xs ! k) < e \<and> s < element_end R (xs ! k) \<longleftrightarrow> i \<le> k \<and> k < Suc j"
    using between_overlaps [of "ticks R * frames R" ix "unat s" "unat e" i j] w element_times(1,2) [OF f]
    by (simp add: word_less_nat_alt window_in_def filled_def)
qed

lemma window_in_cut:
  assumes w: "window_in R ix xs s e i j" and "i \<le> k" "k \<le> j"
  shows "cut_by R s e (xs ! k)"
proof -
  note d = window_inD [OF w]
  have "0 < ticks R * frames R" using w by (simp add: window_in_def)
  then have "ticks R \<le> ticks R * frames R" by simp
  then have "ticks R \<le> unat s" using d(5) by linarith
  moreover have "k < length xs" "get_timestamp R (xs ! k) < e \<and> s < element_end R (xs ! k)" using d(2,8) assms(2,3) by auto
  ultimately show ?thesis
    using element_times(3) [OF d(1)] d(6,7) by (simp add: cut_by_def word_less_nat_alt word_le_nat_alt)
qed

lemma first_frame_time:
  assumes w: "window_in R ix xs s e i j"
  defines "t \<equiv> ticks R"
  shows "unat (get_timestamp R (xs ! i)) + first_frame R s (xs ! i) * t =
   (if ix i * (t * frames R) \<le> unat s then unat s div t * t else ix i * (t * frames R))"
proof -
  let ?m = "ix i * frames R"
  note d = window_inD [OF w]
  have a: "ix i * (t * frames R) = ?m * t" by simp
  have "?m + (unat s - ?m * t) div t = unat s div t" if "?m * t \<le> unat s"
  proof -
    have "(?m * t + (unat s - ?m * t)) div t = ?m + (unat s - ?m * t) div t" using d(7) by (intro div_mult_self3) (simp add: t_def)
    then show ?thesis using that by simp
  qed
  then show ?thesis
    using element_times(1) [OF d(1,4), folded t_def] unfolding first_frame_def t_def [symmetric] a
    by (auto simp: add_mult_distrib [symmetric])
qed

lemma end_frame_time:
  assumes w: "window_in R ix xs s e i j"
  defines "t \<equiv> ticks R"
  assumes e: "unat e \<le> (ix j + 1) * (t * frames R)"
  shows "unat (get_timestamp R (xs ! j)) + end_frame R e (xs ! j) * t = (unat e + t - 1) div t * t"
proof -
  let ?m = "ix j * frames R" and ?n = "frames R"
  note d = window_inD [OF w, folded t_def]
  have b: "ix j * (t * ?n) = ?m * t" "(ix j + 1) * (t * ?n) = ?m * t + ?n * t" by (simp_all add: algebra_simps)
  have lt: "?m * t < unat e" using w unfolding window_in_def between_def t_def [symmetric] b by simp
  have "\<not> ?n * t < unat e - ?m * t" using e unfolding b by linarith
  then have "(unat e - ?m * t + t - 1) div t \<le> ?n" unfolding ceil_div_iff [OF d(7), symmetric] by simp
  then have hi: "end_frame R e (xs ! j) = (unat e - ?m * t + t - 1) div t"
    using element_times [OF d(1,2), folded t_def] by (simp add: end_frame_def b t_def [symmetric])
  have "unat e + t - 1 = ?m * t + (unat e - ?m * t + t - 1)" using lt d(7) by linarith
  moreover have "(?m * t + (unat e - ?m * t + t - 1)) div t = ?m + (unat e - ?m * t + t - 1) div t"
    using d(7) by (intro div_mult_self3) simp
  ultimately have "?m + (unat e - ?m * t + t - 1) div t = (unat e + t - 1) div t" by simp
  then show ?thesis
    using element_times(1) [OF d(1,2), folded t_def] unfolding hi b by (simp only: add_mult_distrib [symmetric])
qed

text \<open>The beginning moves over the skipped objects to the first object of the answer.\<close>

lemma skip_begin_window:
  assumes w: "window_in R ix xs s e i j" and e24: "unat e < 2 ^ 24" and t24: "ticks R < 2 ^ 24"
    and T: "unat T = ticks R * frames R"
    and i: "ix i \<notin> skipped" "\<forall>m. unat s div (ticks R * frames R) \<le> m \<and> m < ix i \<longrightarrow> m \<in> skipped"
  shows "\<exists>es. skip_begin (expected_tick_difference R) T skipped (expected_finish (expected_tick_difference R) e)
               (expected_begin (expected_tick_difference R) s) = Some es \<and>
             unat es = unat (get_timestamp R (xs ! i)) + first_frame R s (xs ! i) * ticks R"
proof -
  let ?t = "ticks R" and ?n = "frames R" and ?tick = "expected_tick_difference R"
  note d = window_inD [OF w]
  have pos: "0 < ?t * ?n" using w by (simp add: window_in_def)
  have s24: "unat s < 2 ^ 24" using d(6) e24 by linarith
  note eb = expected_bounds_nat(1) [OF s24 d(7) t24] and ef = expected_bounds_nat(2) [OF e24 d(7) t24]
  have cov: "unat s < (ix i + 1) * (?t * ?n)" "ix i * (?t * ?n) < unat e"
    using window_in_cut [OF w order_refl d(3)] element_times [OF d(1,4)] by (simp_all add: cut_by_def word_less_nat_alt)
  show ?thesis
  proof (cases "ix i * (?t * ?n) \<le> unat s")
    case True
    have "unat s div ?t * ?t div (?t * ?n) = unat s div (?t * ?n)"
      using d(7) by (simp add: div_mult2_eq)
    also have "\<dots> = ix i" using True cov(1) by (intro div_nat_eqI) (simp_all add: mult.commute)
    finally have "skip_begin ?tick T skipped (expected_finish ?tick e) (expected_begin ?tick s) = Some (expected_begin ?tick s)"
      using i(1) by (intro skip_begin_to [where d = 0]) (simp_all add: eb T)
    then show ?thesis using first_frame_time [OF w] True eb by simp
  next
    case False
    let ?y = "get_timestamp R (xs ! i)" and ?d = "ix i * ?n - unat s div ?t"
    have y: "unat ?y = ix i * ?n * ?t" using element_times(1) [OF d(1,4)] by (simp add: mult.left_commute mult.commute)
    have sd: "unat s div ?t < ix i * ?n" 
    proof -
      have "ix i * (?t * ?n) = ix i * ?n * ?t" by simp
      then show ?thesis using False d(7) by (simp only: div_less_iff_less_mult not_le)
    qed
    have "skip_begin ?tick T skipped (expected_finish ?tick e) (expected_begin ?tick s) = Some ?y"
    proof (rule skip_begin_to [where d = ?d])
      show "unat ?y = unat (expected_begin ?tick s) + ?d * ?t"
        using sd unfolding y eb by (simp add: add_mult_distrib [symmetric])
      show "\<forall>k < ?d. (unat (expected_begin ?tick s) + k * ?t) div unat T \<in> skipped"
      proof (intro allI impI)
        fix k assume k: "k < ?d"
        have "(unat (expected_begin ?tick s) + k * ?t) div unat T = (unat s div ?t + k) div ?n"
          using d(7) by (simp add: eb T div_mult2_eq add_mult_distrib [symmetric])
        moreover have "unat s div (?t * ?n) \<le> (unat s div ?t + k) div ?n" by (simp add: div_mult2_eq div_le_mono)
        moreover have "(unat s div ?t + k) div ?n < ix i" using k pos by (simp add: div_less_iff_less_mult)
        ultimately show "(unat (expected_begin ?tick s) + k * ?t) div unat T \<in> skipped" using i(2) by simp
      qed
      have "unat e \<le> unat (expected_finish ?tick e)" using ceil_div_iff [OF d(7), of "unat (expected_finish ?tick e) div ?t" "unat e"] d(7)
        by (simp add: ef)
      then show "?d = 0 \<or> ?y < expected_finish ?tick e" using cov(2) element_times(1) [OF d(1,4)] by (simp add: word_less_nat_alt)
      show "unat ?y div unat T \<notin> skipped" using i(1) pos element_times(1) [OF d(1,4)] by (simp add: T)
    qed
    then show ?thesis using first_frame_time [OF w] False element_times(1) [OF d(1,4)] by simp
  qed
qed

text \<open>The end is in an object that is there, so it stays.\<close>

lemma skip_finish_window:
  assumes w: "window_in R ix xs s e i j" and e24: "unat e < 2 ^ 24" and t24: "ticks R < 2 ^ 24"
    and T: "unat T = ticks R * frames R" and j: "ix j \<notin> skipped" and cover: "unat e \<le> (ix j + 1) * (ticks R * frames R)"
  defines "ef \<equiv> expected_finish (expected_tick_difference R) e"
  shows "skip_finish (expected_tick_difference R) (object_of T (ef - expected_tick_difference R) \<in> skipped) es ef = Some ef"
    "unat ef = unat (get_timestamp R (xs ! j)) + end_frame R e (xs ! j) * ticks R"
proof -
  let ?t = "ticks R" and ?n = "frames R"
  note d = window_inD [OF w]
  have u: "unat ef = (unat e + ?t - 1) div ?t * ?t" unfolding ef_def by (rule expected_bounds_nat(2) [OF e24 d(7) t24])
  then show "unat ef = unat (get_timestamp R (xs ! j)) + end_frame R e (xs ! j) * ?t" using end_frame_time [OF w cover] by simp
  have lt: "ix j * (?t * ?n) < unat e"
    using window_in_cut [OF w d(3) order_refl] element_times [OF d(1,2)] by (simp add: cut_by_def word_less_nat_alt)
  have "(unat e + ?t - 1) div ?t = (unat e - 1) div ?t + 1"
    using lt d(7) div_add_self2 [of ?t "unat e - 1"] by simp
  then have ef: "unat (ef - expected_tick_difference R) = (unat e - 1) div ?t * ?t"
    using u by (simp add: unat_sub word_le_nat_alt)
  have "(unat e - 1) div ?t * ?t div (?t * ?n) = (unat e - 1) div (?t * ?n)" using d(7) by (simp add: div_mult2_eq)
  also have "\<dots> = ix j" 
  proof (rule div_nat_eqI)
    have a: "ix j * (?t * ?n) = ?t * ?n * ix j" by (rule mult.commute)
    show "?t * ?n * ix j \<le> unat e - 1" "unat e - 1 < ?t * ?n * Suc (ix j)"
      using lt cover unfolding add_mult_distrib mult_1 mult_Suc_right a by linarith+
  qed
  finally have "object_of T (ef - expected_tick_difference R) \<notin> skipped" using j by (simp add: object_of_nat ef T)
  then show "skip_finish (expected_tick_difference R) (object_of T (ef - expected_tick_difference R) \<in> skipped) es ef = Some ef"
    by (simp add: skip_finish_none)
qed

context framed_payload
begin

lemma covered_window_passes:
  assumes found: "get_fragment_pieces R L [] b s e kUnknown = Some (Inr (kFound, window_pieces R s e xs))"
    and w: "window_in R ix xs s e i j" and e24: "unat e < 2 ^ 24" and t24: "ticks R < 2 ^ 24"
    and i: "ix i \<notin> skipped" "\<forall>m. unat s div (ticks R * frames R) \<le> m \<and> m < ix i \<longrightarrow> m \<in> skipped"
    and j: "ix j \<notin> skipped" and cover: "unat e \<le> (ix j + 1) * (ticks R * frames R)"
    and T: "unat (expected_tick_difference R * get_num_frames R (default_element R)) = ticks R * frames R"
  shows "test_req_bounds R L frame_time sizeof_frame b s e skipped =
         Some (Inr (replicate (if skipped = {} then 7 else 5) True))"
proof -
  note d = window_inD [OF w]
  let ?T = "expected_tick_difference R * get_num_frames R (default_element R)"
  have "0 < ticks R * frames R" using w by (simp add: window_in_def)
  then have T0: "?T \<noteq> 0" using T by (metis less_numeral_extra(3) unat_0)
  obtain es where es: "skip_begin (expected_tick_difference R) ?T skipped (expected_finish (expected_tick_difference R) e)
        (expected_begin (expected_tick_difference R) s) = Some es"
      "unat es = unat (get_timestamp R (xs ! i)) + first_frame R s (xs ! i) * ticks R"
    using skip_begin_window [OF w e24 t24 T i] by blast
  have none: "get_timestamp R (xs ! i) \<le> s \<and> e \<le> element_end R (xs ! j)" if "skipped = {}"
  proof -
    have "ix i \<le> unat s div (ticks R * frames R)" using i(2) that by (meson empty_iff leI order_refl)
    then have "ix i * (ticks R * frames R) \<le> unat s" using \<open>0 < ticks R * frames R\<close> by (simp only: less_eq_div_iff_mult_less_eq)
    then show ?thesis using cover element_times(1) [OF d(1,4)] element_times(2) [OF d(1,2)] by (simp add: word_le_nat_alt)
  qed
  show ?thesis
    by (rule test_req_bounds_passes [OF found d(8,3,2) window_in_cut [OF w order_refl d(3)] window_in_cut [OF w d(3) order_refl]
          element_times(4) [OF d(1,2)] e24 t24 T0 es skip_finish_window [OF w e24 t24 T j cover] none])
qed

end

section \<open>The answers of the queues\<close>

lemma filled_sorted: "filled R ix xs \<Longrightarrow> 0 < ticks R * frames R \<Longrightarrow> ts_sorted R xs"
  unfolding filled_def by (blast intro: numbered_sorted)

lemma filled_window_code:
  assumes f: "filled R ix xs" and x: "xs \<noteq> []" "ix 0 = 0" and e: "unat e \<le> ix (length xs - 1) * (ticks R * frames R)" and se: "s < e"
  shows "coverage_code R s e xs = kFound"
proof -
  have "length xs - 1 < length xs" "0 < length xs" using x by simp_all
  then have "unat (get_timestamp R (last xs)) = ix (length xs - 1) * (ticks R * frames R)" "unat (get_timestamp R (hd xs)) = 0"
    using element_times(1) [OF f] x by (simp_all add: last_conv_nth hd_conv_nth)
  then show ?thesis using e se by (auto simp: coverage_code_def word_less_nat_alt)
qed

lemma filled_uniform:
  assumes f: "filled R ix xs" shows "uniform_span R xs"
proof -
  have "unat (default_span R) \<le> frames R * ticks R"
    unfolding default_span_def by (simp add: unat_word_ariths(2))
  moreover have "regular_frames R x \<and> get_num_frames R x = get_num_frames R (default_element R)" if "x \<in> set xs" for x
    using f that by (simp add: filled_def)
  ultimately show ?thesis by (fastforce simp: uniform_span_def regular_frames_def)
qed

lemma unat_default_span:
  assumes f: "filled R ix xs" and "xs \<noteq> []"
  shows "unat (default_span R) = ticks R * frames R"
proof -
  have "regular_frames R (hd xs) \<and> get_num_frames R (hd xs) = get_num_frames R (default_element R)" using assms by (simp add: filled_def)
  then have "frames R * ticks R < 2 ^ 64" by (auto simp: regular_frames_def)
  then show ?thesis unfolding default_span_def by (subst unat_mult_u64) (simp_all add: mult.commute)
qed

text \<open>A search that is right for the timestamps of the buffer finds the window.\<close>

lemma searchable_finds_window:
  assumes sb: "searchable_buffer (queue_lb_ops search) queue_inv contents queue_pos R ready"
    and inv: "queue_inv q" and ready: "ready False (contents q)" and ix0: "ix 0 = 0"
    and w: "window_in R ix (contents q) s e i j" and e: "unat e \<le> ix (stored q - 1) * (ticks R * frames R)"
    and first: "\<not> elem_less R (set_timestamp R 0 (default_element R)) (hd (contents q))"
  shows "get_fragment_pieces R (queue_lb_ops search) [] q s e kUnknown = Some (Inr (kFound, window_pieces R s e (contents q)))"
proof -
  note d = window_inD [OF w]
  have ne: "contents q \<noteq> []" using d(2) by (metis list.size(3) not_less_zero)
  have ord: "readout_order R" by (rule searchable_buffer.axioms(2) [OF sb])
  have sp: "unat (default_span R) = ticks R * frames R" by (rule unat_default_span [OF d(1) ne])
  have le: "default_span R \<le> s" using d(5) sp by (simp add: word_le_nat_alt)
  have "\<not> elem_less R (request_element R s) (hd (contents q))"
  proof (cases "s = default_span R")
    case True
    then show ?thesis using first by (simp add: request_element_def default_span_def Let_def)
  next
    case False
    have "unat (get_timestamp R (hd (contents q))) = 0"
      using element_times(1) [OF d(1), of 0] ne ix0 by (metis hd_conv_nth length_greater_0_conv mult_zero_left)
    moreover have "s - default_span R \<noteq> 0" using False by simp
    ultimately have "get_timestamp R (hd (contents q)) < get_timestamp R (request_element R s)"
      using searchable_buffer.request_element_ts [OF sb, of s] by (simp add: word_less_nat_alt unat_gt_0)
    then show ?thesis using readout_order.less_imp_ts [OF ord] by fastforce
  qed
  then have "window_reachable R s (contents q)" using le by (simp add: window_reachable_def)
  moreover have "coverage_code R s e (contents q) = kFound"
    using filled_window_code [OF d(1) ne ix0, of e s] e d(6) by (simp add: word_less_nat_alt)
  ultimately show ?thesis
    using searchable_buffer.get_fragment_pieces_reachable [OF sb inv _ ne filled_uniform [OF d(1)], of "[]" s e kUnknown] ready
    by (simp add: has_error_def)
qed

text \<open>
  The fixed-rate queue computes a position that is right as long as the objects before it are at the
  rate, whatever follows.
\<close>

lemma fixed_rate_finds_window:
  assumes inv: "queue_inv q" and ix0: "ix 0 = 0" and ix1: "\<forall>k < 2. ix k = k"
    and w: "window_in R ix (contents q) s e i j" and e: "unat e \<le> ix (stored q - 1) * (ticks R * frames R)"
    and s: "unat s \<le> 3 * (ticks R * frames R)" and size: "3 \<le> stored q" "stored q * (ticks R * frames R) < 2 ^ 64"
    and ord: "readout_order R"
  shows "get_fragment_pieces R (FixedRateQueueModel R) [] q s e kUnknown = Some (Inr (kFound, window_pieces R s e (contents q)))"
proof -
  note d = window_inD [OF w]
  let ?T = "ticks R * frames R" and ?xs = "contents q" and ?key = "request_element R s"
  have pos: "0 < ?T" using w by (simp add: window_in_def)
  have ne: "?xs \<noteq> []" using d(2) by (metis list.size(3) not_less_zero)
  have sp: "unat (default_span R) = ?T" by (rule unat_default_span [OF d(1) ne])
  have hd: "unat (get_timestamp R (hd ?xs)) = 0" "get_num_frames R (hd ?xs) = get_num_frames R (default_element R)"
    using element_times(1,4) [OF d(1), of 0] ne ix0 by (metis hd_conv_nth length_greater_0_conv mult_zero_left)+
  have span: "element_span R ?xs = ?T" using hd(2) by (simp add: element_span_def)
  have "get_timestamp R ?key = s - default_span R"
    by (simp add: request_element_def default_span_def readout_order.get_set_timestamp [OF ord] Let_def)
  then have key: "unat (get_timestamp R ?key) = unat s - ?T" using d(5) sp by (simp add: unat_sub word_le_nat_alt)
  let ?D = "unat s - ?T"
  define k where "k = ?D div ?T + (if ?D mod ?T \<noteq> 0 then 1 else 0)"
  have D: "?D \<le> 2 * ?T" using s by linarith
  have "2 * ?T \<le> stored q * ?T" using size(1) by (intro mult_le_mono1) simp
  then have "\<not> (unat (get_timestamp R ?key) < 0 \<or> 0 + stored q * ?T < unat (get_timestamp R ?key))" using D key by linarith
  then obtain p where p: "fr_lower_bound R ?key False q = Some (Inr p)" "at_pos q p k"
    using fr_lower_bound_offset [OF inv ne _ _ refl, of R ?key] pos span hd(1) size(2) key by (auto simp: k_def)
  note ceil = ceil_div_bounds(2) [OF pos k_def]
  have k2: "k \<le> 2" using ceil [of 2] D by linarith
  have before: "element_end R x \<le> s" if x: "x \<in> set (take k ?xs)" for x
  proof -
    obtain m where "m < length (take k ?xs)" "take k ?xs ! m = x" using x unfolding in_set_conv_nth by blast
    then have m: "m < k" "m < length ?xs" "x = ?xs ! m" by auto
    then have "m * ?T < ?D" "ix m = m" using ceil [OF m(1)] k2 ix1 by simp_all
    then show ?thesis using element_times(2) [OF d(1) m(2)] m(3) d(5) by (simp add: word_le_nat_alt)
  qed
  have "coverage_code R s e ?xs = kFound"
    using filled_window_code [OF d(1) ne ix0, of e s] e d(6) by (simp add: word_less_nat_alt)
  moreover have "ts_sorted R ?xs" by (rule filled_sorted [OF d(1) pos])
  moreover have "lb_lower_bound (FixedRateQueueModel R) ?key (has_error ''MISSING_FRAMES'' []) q = Some (Inr p)"
    using p(1) by (simp add: FixedRateQueueModel_def queue_lb_ops_def has_error_def)
  ultimately show ?thesis
    using queue.get_fragment_pieces_at [of q R "fr_lower_bound R" s "[]" p k e kUnknown] inv ne p(2) before hd(1) k2 size(1)
    by (simp add: FixedRateQueueModel_def queue_pos_def word_le_nat_alt)
qed

section \<open>The windows of the tests\<close>

text \<open>On the buffer without skipped objects the test passes for every window within it.\<close>

lemma filled_fixed_rate:
  assumes f: "filled R (\<lambda>k. k) xs" and "xs \<noteq> []" and "0 < ticks R * frames R" and "length xs * (ticks R * frames R) < 2 ^ 64"
  shows "fixed_rate R xs"
proof -
  have n: "numbered R (ticks R * frames R) (\<lambda>k. k) xs" using f by (simp add: filled_def)
  have "element_span R xs = ticks R * frames R" using f assms(2) by (simp add: element_span_def filled_def)
  then show ?thesis by (intro numbered_fixed_rate [OF n] assms)
qed

lemma div_window:
  assumes "0 < (t::nat)" and "t \<le> s" and "s < e"
  shows "between t (\<lambda>k. k) s e (s div t) ((e - 1) div t)" "e \<le> ((e - 1) div t + 1) * t"
proof -
  have lo: "s div t * t \<le> s" "s < (s div t + 1) * t"
    using floor_div_iff [OF assms(1), of s "s div t"] by (simp_all add: add.commute)
  have hi: "(e - 1) div t * t < e" "e \<le> ((e - 1) div t + 1) * t"
  proof -
    have "(e - 1) div t * t \<le> e - 1" "e - 1 < (e - 1) div t * t + t"
      using floor_div_iff [OF assms(1), of "e - 1" "(e - 1) div t"] by simp_all
    then show "(e - 1) div t * t < e" "e \<le> ((e - 1) div t + 1) * t" using assms(3) by (simp_all only: add_mult_distrib mult_1)
  qed
  have "0 < s div t" using assms by (simp add: div_greater_zero_iff)
  moreover have "s div t \<le> (e - 1) div t" using assms(3) by (intro div_le_mono) simp
  ultimately show "between t (\<lambda>k. k) s e (s div t) ((e - 1) div t)" "e \<le> ((e - 1) div t + 1) * t"
    using lo hi assms by (simp_all add: between_def)
qed

text \<open>The buffer of the tests: nine objects with numbers \<open>ix\<close>, the first of them at time 0.\<close>

definition test_buffer :: "'a readout_ops \<Rightarrow> (nat \<Rightarrow> nat) \<Rightarrow> 'a iterable_queue \<Rightarrow> bool" where
  "test_buffer R ix q \<longleftrightarrow>
     readout_order R \<and> queue_inv q \<and> stored q = 9 \<and> filled R ix (contents q) \<and> (\<forall>k < 2. ix k = k) \<and>
     0 < ticks R * frames R \<and> 11 * (ticks R * frames R) < 2 ^ 24 \<and>
     unat (expected_tick_difference R * get_num_frames R (default_element R)) = ticks R * frames R \<and>
     \<not> elem_less R (set_timestamp R 0 (default_element R)) (hd (contents q))"

lemma test_bufferD:
  assumes b: "test_buffer R ix q"
  shows "readout_order R" "queue_inv q" "length (contents q) = 9" "filled R ix (contents q)" "ix 0 = 0" "\<forall>k < 2. ix k = k"
    "0 < ticks R * frames R" "11 * (ticks R * frames R) < 2 ^ 24" "ticks R < 2 ^ 24"
    "unat (expected_tick_difference R * get_num_frames R (default_element R)) = ticks R * frames R"
    "\<not> elem_less R (set_timestamp R 0 (default_element R)) (hd (contents q))"
proof -
  show d: "readout_order R" "queue_inv q" "length (contents q) = 9" "filled R ix (contents q)" "ix 0 = 0" "\<forall>k < 2. ix k = k"
    "0 < ticks R * frames R" "11 * (ticks R * frames R) < 2 ^ 24"
    "unat (expected_tick_difference R * get_num_frames R (default_element R)) = ticks R * frames R"
    "\<not> elem_less R (set_timestamp R 0 (default_element R)) (hd (contents q))"
    using b by (simp_all add: test_buffer_def)
  then have "ticks R \<le> ticks R * frames R" by simp
  then show "ticks R < 2 ^ 24" using d(8) by linarith
qed

lemma noskip_found:
  assumes b: "test_buffer R (\<lambda>k. k) q" and search: "search \<in> {bs_lower_bound R, fr_lower_bound R}"
    and w: "window_in R (\<lambda>k. k) (contents q) s e i j" and e: "unat e \<le> 8 * (ticks R * frames R)"
  shows "get_fragment_pieces R (queue_lb_ops search) [] q s e kUnknown = Some (Inr (kFound, window_pieces R s e (contents q)))"
proof -
  note d = test_bufferD [OF b]
  have "contents q \<noteq> []" using d(3) by (metis list.size(3) zero_neq_numeral)
  moreover have "length (contents q) * (ticks R * frames R) < 2 ^ 64" using d(8) unfolding d(3) by simp
  ultimately have "ts_sorted R (contents q)" "fixed_rate R (contents q)"
    using filled_fixed_rate [OF d(4) _ d(7)] filled_sorted [OF d(4,7)] by blast+
  then show ?thesis
    using d(3) e by (intro searchable_finds_window [OF queue_models_searchable [OF d(1) search] d(2) _ _ w _ d(11)]) simp_all
qed

lemma skip_found:
  assumes b: "test_buffer R skipping_2_3 q" and search: "search \<in> {bs_lower_bound R, fr_lower_bound R}"
    and w: "window_in R skipping_2_3 (contents q) s e i j" and e: "unat e \<le> 10 * (ticks R * frames R)"
    and s: "unat s \<le> 3 * (ticks R * frames R)"
  shows "get_fragment_pieces R (queue_lb_ops search) [] q s e kUnknown = Some (Inr (kFound, window_pieces R s e (contents q)))"
proof -
  note d = test_bufferD [OF b]
  have e': "unat e \<le> skipping_2_3 (stored q - 1) * (ticks R * frames R)" using e d(3) by (simp add: skipping_2_3_def)
  show ?thesis
  proof (cases "search = bs_lower_bound R")
    case True
    have "ts_sorted R (contents q)" by (rule filled_sorted [OF d(4,7)])
    then show ?thesis
      using searchable_finds_window [OF forward_searchable_buffer.axioms(1) [OF readout_order.binary_search_provides [OF d(1),
            unfolded BinarySearchQueueModel_def]] d(2) _ d(5) w e' d(11)] True by simp
  next
    case False
    then have "queue_lb_ops search = FixedRateQueueModel R" using search by (simp add: FixedRateQueueModel_def)
    then show ?thesis using fixed_rate_finds_window [OF d(2,5,6) w e' s _ _ d(1)] d(3,8) by simp
  qed
qed

context framed_payload
begin

lemma noskip_window_passes:
  assumes b: "test_buffer R (\<lambda>k. k) q" and search: "search \<in> {bs_lower_bound R, fr_lower_bound R}"
    and se: "ticks R * frames R \<le> unat s" "s < e" "unat e \<le> 8 * (ticks R * frames R)"
  shows "test_req_bounds R (queue_lb_ops search) frame_time sizeof_frame q s e {} = Some (Inr (replicate 7 True))"
proof -
  note d = test_bufferD [OF b]
  let ?T = "ticks R * frames R"
  have s: "unat s < unat e" using se(2) by (simp add: word_less_nat_alt)
  note dw = div_window [OF d(7) se(1) s]
  have "(unat e - 1) div ?T < 9" using se(3) d(7) by (simp only: div_less_iff_less_mult)
  then have w: "window_in R (\<lambda>k. k) (contents q) s e (unat s div ?T) ((unat e - 1) div ?T)"
    using dw(1) d(3,4,7) by (simp add: window_in_def)
  have "unat e < 2 ^ 24" using se(3) d(8) by linarith
  then show ?thesis
    using covered_window_passes [OF noskip_found [OF b search w se(3)] w _ d(9) _ _ _ dw(2) d(10), of "{}"] by simp
qed

text \<open>
  On the buffer without the objects 2 and 3 it passes for windows that begin in one of them, and for
  windows that begin in object 1, when they end in an object that is there.
\<close>

lemma skip_window_passes:
  assumes b: "test_buffer R skipping_2_3 q" and search: "search \<in> {bs_lower_bound R, fr_lower_bound R}"
    and bt: "between (ticks R * frames R) skipping_2_3 (unat s) (unat e) i j" "j \<le> 7" "unat s \<le> 3 * (ticks R * frames R)"
    and i: "i = 1 \<or> i = 2 \<and> 2 * (ticks R * frames R) \<le> unat s" and cover: "unat e \<le> (skipping_2_3 j + 1) * (ticks R * frames R)"
  shows "test_req_bounds R (queue_lb_ops search) frame_time sizeof_frame q s e {2, 3} = Some (Inr (replicate 5 True))"
proof -
  note d = test_bufferD [OF b]
  let ?T = "ticks R * frames R"
  have w: "window_in R skipping_2_3 (contents q) s e i j" using bt d(3,4,7) by (simp add: window_in_def)
  have "skipping_2_3 j + 1 \<le> 10" using bt(2) by (simp add: skipping_2_3_def)
  then have "(skipping_2_3 j + 1) * ?T \<le> 10 * ?T" by (rule mult_le_mono1)
  then have e: "unat e \<le> 10 * ?T" using cover by linarith
  then have e24: "unat e < 2 ^ 24" using d(8) by linarith
  have "\<forall>m. unat s div ?T \<le> m \<and> m < skipping_2_3 i \<longrightarrow> m \<in> {2, 3}"
  proof (cases "i = 1")
    case True
    then have "1 \<le> unat s div ?T" using bt(1) d(7) by (simp add: between_def skipping_2_3_def div_greater_zero_iff Suc_le_eq)
    then show ?thesis using True by (simp add: skipping_2_3_def)
  next
    case False
    then have "2 \<le> unat s div ?T" "i = 2" using i d(7) by (simp_all add: less_eq_div_iff_mult_less_eq)
    then show ?thesis by (auto simp: skipping_2_3_def)
  qed
  moreover have "skipping_2_3 k \<notin> {2, 3}" for k by (simp add: skipping_2_3_def)
  ultimately show ?thesis
    using covered_window_passes [OF skip_found [OF b search w e bt(3)] w e24 d(9) _ _ _ cover d(10), of "{2, 3}"] by simp
qed

end

text \<open>The bounds of the windows as numbers.\<close>

lemma unat_windows:
  assumes "unat (T :: u64) = t" and "11 * t < 2 ^ 24"
  shows "unat (T * 2) = 2 * t" "unat (T * 5) = 5 * t" "unat (T * 3 div 2) = 3 * t div 2" "unat (T * 9 div 2) = 9 * t div 2"
    "unat (T * 11 div 5) = 11 * t div 5" "unat (T * 21 div 5) = 21 * t div 5" "unat (T * 2 + 1) = 2 * t + 1"
    "unat (T * 5 + 1) = 5 * t + 1" "unat (4 * T) = 4 * t"
proof -
  have m: "unat (T * 2) = 2 * t" "unat (T * 5) = 5 * t" "unat (T * 3) = 3 * t" "unat (T * 9) = 9 * t"
      "unat (T * 11) = 11 * t" "unat (T * 21) = 21 * t" "unat (4 * T) = 4 * t"
    using assms unat_mult_u64 [of T 2] unat_mult_u64 [of T 5] unat_mult_u64 [of T 3] unat_mult_u64 [of T 9]
      unat_mult_u64 [of T 11] unat_mult_u64 [of T 21] unat_mult_u64 [of 4 T] by simp_all
  then show "unat (T * 2) = 2 * t" "unat (T * 5) = 5 * t" "unat (T * 3 div 2) = 3 * t div 2" "unat (T * 9 div 2) = 9 * t div 2"
    "unat (T * 11 div 5) = 11 * t div 5" "unat (T * 21 div 5) = 21 * t div 5" "unat (4 * T) = 4 * t"
    by (simp_all add: unat_div)
  show "unat (T * 2 + 1) = 2 * t + 1" "unat (T * 5 + 1) = 5 * t + 1" using m assms(2) by (simp_all add: unat_plus_if')
qed

lemma noskip_windows_inside:
  assumes "unat T = t" and "11 * t < 2 ^ 24" and "0 < t" and "(s, e) \<in> set (noskip_windows T)"
  shows "t \<le> unat s" "s < e" "unat e \<le> 8 * t"
proof -
  have "t \<le> unat s \<and> unat s < unat e \<and> unat e \<le> 8 * t"
    using assms(3,4) unat_windows [OF assms(1,2)] by (auto simp: noskip_windows_def)
  then show "t \<le> unat s" "s < e" "unat e \<le> 8 * t" by (simp_all add: word_less_nat_alt)
qed

text \<open>
  The windows on the other buffer end in an object that is there, except the second one when there is
  one tick between objects.
\<close>

lemma skip_windows_covered:
  assumes "unat T = t" and "11 * t < 2 ^ 24" and "0 < t" and "(s, e) \<in> set (skip_windows T)" and "2 \<le> t \<or> s \<noteq> T * 3 div 2"
  shows "\<exists>i j. between t skipping_2_3 (unat s) (unat e) i j \<and> j \<le> 7 \<and> unat s \<le> 3 * t \<and>
           (i = 1 \<or> i = 2 \<and> 2 * t \<le> unat s) \<and> unat e \<le> (skipping_2_3 j + 1) * t"
proof -
  note u = unat_windows [OF assms(1,2)]
  consider (a) "s = T * 2" "e = T * 5" | (b) "s = T * 3 div 2" "e = T * 9 div 2"
    | (c) "s = T * 11 div 5" "e = T * 21 div 5" "4 * t < 21 * t div 5" | (d) "s = T * 2 + 1" "e = T * 5 + 1"
    using assms(4) u by (auto simp: skip_windows_def word_less_nat_alt split: if_splits)
  then show ?thesis
  proof cases
    case a
    then show ?thesis using u assms(3) by (intro exI [of _ 2]) (simp add: between_def skipping_2_3_def)
  next
    case b
    then have "2 \<le> t" using assms(5) by simp
    then have "3 * t div 2 < 9 * t div 2" "t \<le> 3 * t div 2" "3 * t div 2 < 2 * t" "4 * t < 9 * t div 2" "9 * t div 2 \<le> 5 * t"
      by linarith+
    then show ?thesis using b u by - (rule exI [of _ 1], rule exI [of _ 2], simp add: between_def skipping_2_3_def)
  next
    case c
    have "11 * t div 5 < 21 * t div 5" "2 * t \<le> 11 * t div 5" "11 * t div 5 \<le> 3 * t" "11 * t div 5 < 5 * t" "21 * t div 5 \<le> 5 * t"
      using c(3) by linarith+
    then show ?thesis using c u by (intro exI [of _ 2]) (simp add: between_def skipping_2_3_def)
  next
    case d
    then show ?thesis using u assms(3) by - (rule exI [of _ 2], rule exI [of _ 3], simp add: between_def skipping_2_3_def)
  qed
qed

text \<open>
  That window ends in object 3. The loop that moves the expected end back goes on until one frame is
  left, which here is the frame of object 1 that the answer holds.
\<close>

context framed_payload
begin

lemma short_window_passes:
  assumes b: "test_buffer R skipping_2_3 q" and search: "search \<in> {bs_lower_bound R, fr_lower_bound R}"
    and one: "ticks R * frames R = 1" and s: "unat s = 1" and e: "unat e = 4"
  shows "test_req_bounds R (queue_lb_ops search) frame_time sizeof_frame q s e {2, 3} = Some (Inr (replicate 5 True))"
proof -
  note d = test_bufferD [OF b]
  let ?tick = "expected_tick_difference R" and ?T = "expected_tick_difference R * get_num_frames R (default_element R)"
  have tf: "ticks R = 1" "frames R = 1" using one by simp_all
  have w: "window_in R skipping_2_3 (contents q) s e 1 1"
    using d(3,4) s e tf by (simp add: window_in_def between_def skipping_2_3_def)
  note wd = window_inD [OF w]
  have e24: "unat e < 2 ^ 24" and T: "unat ?T = 1" using e d(10) one by simp_all
  define ef where "ef = expected_finish ?tick e"
  have ef: "unat ef = 4" using expected_bounds_nat(2) [OF e24 wd(7) d(9)] e tf by (simp add: ef_def)
  have "\<exists>es. skip_begin ?tick ?T {2, 3} ef (expected_begin ?tick s) = Some es \<and>
           unat es = unat (get_timestamp R (contents q ! 1)) + first_frame R s (contents q ! 1) * ticks R"
    unfolding ef_def using tf s by (intro skip_begin_window [OF w e24 d(9,10)]) (simp_all add: skipping_2_3_def)
  then obtain es where es: "skip_begin ?tick ?T {2, 3} ef (expected_begin ?tick s) = Some es"
      "unat es = unat (get_timestamp R (contents q ! 1)) + first_frame R s (contents q ! 1) * ticks R" by blast
  have es1: "es = 1" using es(2) first_frame_time [OF w] s tf by (simp add: skipping_2_3_def word_unat_eq_iff)
  have tick: "?tick = 1" using tf(1) by (simp add: word_unat_eq_iff)
  have ef4: "ef = 4" using ef by (simp add: word_unat_eq_iff)
  have "skip_finish 1 True 1 4 = Some 2" by (simp add: skip_finish.simps)
  then have ee: "skip_finish ?tick (object_of ?T (ef - ?tick) \<in> {2, 3}) es ef = Some 2"
    using T unfolding tick es1 ef4 by (simp add: object_of_nat)
  have ts: "unat (get_timestamp R (contents q ! 1)) = 1"
    using element_times(1) [OF d(4), of 1] d(3) tf by (simp add: skipping_2_3_def)
  have "get_num_frames R (contents q ! 1) = get_num_frames R (default_element R)" using element_times(4) [OF wd(1,2)] .
  then have "unat (2 :: u64) = unat (get_timestamp R (contents q ! 1)) + end_frame R e (contents q ! 1) * ticks R"
    using ts e tf by (simp add: end_frame_def)
  moreover have "?T \<noteq> 0" using T by auto
  ultimately show ?thesis
    using test_req_bounds_passes [OF skip_found [OF b search w] wd(8,3,2) window_in_cut [OF w order_refl wd(3)]
        window_in_cut [OF w wd(3) order_refl] element_times(4) [OF wd(1,2)] e24 d(9) _ es(1) [unfolded ef_def] es(2)
        ee [unfolded ef_def]] e s one by simp
qed

end

section \<open>The tests pass\<close>

lemma print_buffer_contents:
  assumes inv: "queue_inv q"
  shows "print_buffer R (queue_lb_ops search) q (begin_iter q) [] = Some (Inr (map (get_timestamp R) (contents q)))"
proof -
  let ?L = "queue_lb_ops search"
  have at_end: "print_buffer R ?L q end_iter ss = Some (Inr ss)" for ss by (subst print_buffer.simps) (simp add: queue_lb_ops_def)
  have rest: "print_buffer R ?L q i ss = Some (Inr (ss @ map (get_timestamp R) (drop k (contents q))))"
    if "at_pos q i k" "k < stored q" for i k ss
    using that
  proof (induction "stored q - k" arbitrary: i k ss)
    case (Suc m)
    have "i \<noteq> end_iter" using end_iter_not_in_range at_pos_less Suc.prems(1) inv by blast
    moreover have "it_deref ?L q i = Inr (contents q ! k)" using deref_at_pos [OF inv Suc.prems] by (simp add: queue_lb_ops_def)
    ultimately have step: "print_buffer R ?L q i ss = print_buffer R ?L q (iter_next q i) (ss @ [get_timestamp R (contents q ! k)])"
      by (subst print_buffer.simps) (simp add: queue_lb_ops_def)
    have dr: "drop k (contents q) = contents q ! k # drop (k + 1) (contents q)"
      using Cons_nth_drop_Suc [of k "contents q"] Suc.prems(2) by simp
    note nx = iter_next_at_pos [OF inv Suc.prems]
    show ?case
    proof (cases "k + 1 < stored q")
      case True
      then have "m = stored q - (k + 1)" "at_pos q (iter_next q i) (k + 1)" using nx Suc.hyps(2) by simp_all
      then show ?thesis using Suc.hyps(1) True step dr by simp
    next
      case False
      then have "k + 1 = stored q" "iter_next q i = end_iter" using nx Suc.prems(2) by simp_all
      then show ?thesis using step at_end dr by simp
    qed
  qed simp
  show ?thesis
  proof (cases "contents q = []")
    case True
    then have "begin_iter q = end_iter" using isEmpty_spec [OF inv] by (simp add: begin_iter_def isEmpty_def)
    then show ?thesis using at_end True by simp
  next
    case False
    then have "0 < stored q" by (metis length_contents length_greater_0_conv)
    then show ?thesis using rest [of "begin_iter q" 0 "[]"] begin_plus_at_pos [OF inv, of 0] by simp
  qed
qed

lemma map_to_replicate: "(\<And>x. x \<in> set xs \<Longrightarrow> f x = c) \<Longrightarrow> map f xs = replicate (length xs) c"
  by (induction xs) simp_all

text \<open>What \<open>fill_buffer\<close> makes is a buffer of the tests.\<close>

lemma fill_buffer_tests:
  fixes R :: "'a readout_ops"
  assumes ord: "readout_order R"
    and fake: "\<forall>ts. get_timestamp R (fake ts (default_element R)) = ts \<and>
                    get_num_frames R (fake ts (default_element R)) = get_num_frames R (default_element R)"
    and reg: "\<forall>ts. unat ts + frames R * ticks R < 2 ^ 64 \<longrightarrow> regular_frames R (fake ts (default_element R))"
    and first: "\<not> elem_less R (set_timestamp R 0 (default_element R)) (fake 0 (default_element R))"
    and alloc: "alloc_succeeds env StdMalloc 10" and t: "0 < ticks R * frames R" "11 * (ticks R * frames R) < 2 ^ 24"
    and ix: "finite skip" "enumerate (- skip) = ix" "\<forall>k < 9. ix k \<le> 10" "strict_mono ix" "\<forall>k < 2. ix k = k"
  shows "\<exists>q. printed_buffer R fake search env skip = Some (Inr q) \<and> test_buffer R ix q"
proof -
  let ?T = "ticks R * frames R"
  have t64: "11 * ?T < 2 ^ 64" using t(2) by simp
  have small: "\<forall>k < 9. ix k \<le> 11" using ix(3) by fastforce
  obtain q where q: "fill_buffer R fake search env 0 10 skip (default_queue env) = Some (Inr q)" "queue_inv q" "stored q = 9"
      "numbered R ?T ix (contents q)" "\<forall>x \<in> set (contents q). \<exists>ts. x = fake ts (default_element R)"
    using fill_buffer_numbered [where R = R and fake = fake, OF fake alloc t(1) t64 ix(1,2) small] by blast
  have x: "regular_frames R x \<and> get_num_frames R x = get_num_frames R (default_element R)" if x: "x \<in> set (contents q)" for x
  proof -
    obtain ts where ts: "x = fake ts (default_element R)" using q(5) x by blast
    obtain k where k: "k < 9" "x = contents q ! k" using x q(3) by (metis in_set_conv_nth length_contents)
    then have "unat ts = ix k * ?T" using q(3,4) fake ts by (metis length_contents numbered_def)
    moreover have "ix k * ?T \<le> 10 * ?T" using ix(3) k(1) by (intro mult_le_mono1) simp
    moreover have "frames R * ticks R = ?T" by (rule mult.commute)
    ultimately have "unat ts + frames R * ticks R < 2 ^ 64" using t64 by linarith
    then show ?thesis using reg fake ts by simp
  qed
  have "hd (contents q) = fake 0 (default_element R)"
  proof -
    have len: "0 < length (contents q)" using q(3) by simp
    then have "contents q ! 0 \<in> set (contents q)" by (rule nth_mem)
    then obtain ts where ts: "contents q ! 0 = fake ts (default_element R)" using q(5) by blast
    have "unat (get_timestamp R (contents q ! 0)) = 0" using q(4) len ix(5) by (simp add: numbered_def)
    then have "ts = 0" using ts fake by (simp add: unat_eq_0)
    then show ?thesis using ts len by (metis hd_conv_nth length_greater_0_conv)
  qed
  moreover have "unat (expected_tick_difference R * get_num_frames R (default_element R)) = ?T" using t64 by (intro unat_mult_u64) simp
  ultimately have "test_buffer R ix q"
    using ord q(2,3,4) x ix(4,5) t first by (simp add: test_buffer_def filled_def)
  then show ?thesis using q(1) print_buffer_contents [OF q(2)] by (simp add: printed_buffer_def)
qed

text \<open>
  C15. The tests of \<open>test_request_model\<close> pass for every readout type whose objects hold the frames of
  their timestamps one after the other, on the binary-search and on the fixed-rate queue, whatever
  the order of the type is on equal timestamps (only a default element at time 0 must not come before
  the first object): when there are ticks between objects and eleven times as many fit into the 24
  bits that a \<open>float\<close> keeps, both buffers are filled and all 7 checks of each of the 4 windows without
  skipped objects and all 5 of the 3 windows with them (4 with five or more ticks between objects) are
  true. So every answer is found and begins and ends with the frames that the window needs.
\<close>

theorem test_request_model_passes:
  fixes R :: "'a readout_ops"
  assumes ord: "readout_order R" and layout: "framed_payload R frame_time sizeof_frame"
    and fake: "\<forall>ts. get_timestamp R (fake ts (default_element R)) = ts \<and>
                    get_num_frames R (fake ts (default_element R)) = get_num_frames R (default_element R)"
    and reg: "\<forall>ts. unat ts + frames R * ticks R < 2 ^ 64 \<longrightarrow> regular_frames R (fake ts (default_element R))"
    and first: "\<not> elem_less R (set_timestamp R 0 (default_element R)) (fake 0 (default_element R))"
    and alloc: "alloc_succeeds env StdMalloc 10" and t: "0 < ticks R * frames R" "11 * (ticks R * frames R) < 2 ^ 24"
    and search: "search \<in> {bs_lower_bound R, fr_lower_bound R}"
  shows "test_request_model R fake search env frame_time sizeof_frame =
         Some (Inr (replicate 4 (Some (Inr (replicate 7 True))) @
                    replicate (if 5 \<le> ticks R * frames R then 4 else 3) (Some (Inr (replicate 5 True)))))"
proof -
  let ?T = "expected_tick_difference R * get_num_frames R (default_element R)" and ?t = "ticks R * frames R"
  let ?test = "\<lambda>q skipped. (\<lambda>(s, e). test_req_bounds R (queue_lb_ops search) frame_time sizeof_frame q s e skipped)"
  have e: "enumerate (- {} :: nat set) = (\<lambda>k. k)" "enumerate (- {2, 3} :: nat set) = skipping_2_3"
    using enumerate_all enumerate_without_2_3 by (auto simp: skipping_2_3_def)
  note fill = fill_buffer_tests [where R = R and fake = fake, OF ord fake reg first alloc t]
  obtain q1 where q1: "printed_buffer R fake search env {} = Some (Inr q1)" "test_buffer R (\<lambda>k. k) q1"
    using fill [OF _ e(1)] by (auto simp: strict_mono_def)
  have m: "\<forall>k < 9. skipping_2_3 k \<le> 10" "strict_mono skipping_2_3" "\<forall>k < 2. skipping_2_3 k = k"
    by (simp_all add: skipping_2_3_def strict_mono_def)
  obtain q2 where q2: "printed_buffer R fake search env {2, 3} = Some (Inr q2)" "test_buffer R skipping_2_3 q2"
    using fill [OF _ e(2) m] by auto
  have T: "unat ?T = ?t" by (rule test_bufferD(10) [OF q1(2)])
  have "?test q1 {} w = Some (Inr (replicate 7 True))" if "w \<in> set (noskip_windows ?T)" for w
    using framed_payload.noskip_window_passes [OF layout q1(2) search] noskip_windows_inside [OF T t(2,1)] that by (cases w) auto
  then have "map (?test q1 {}) (noskip_windows ?T) = replicate (length (noskip_windows ?T)) (Some (Inr (replicate 7 True)))"
    by (rule map_to_replicate)
  moreover have "length (noskip_windows ?T) = 4" by (simp add: noskip_windows_def)
  ultimately have t1: "map (?test q1 {}) (noskip_windows ?T) = replicate 4 (Some (Inr (replicate 7 True)))" by simp
  have "?test q2 {2, 3} w = Some (Inr (replicate 5 True))" if w: "w \<in> set (skip_windows ?T)" for w
  proof (cases "?t = 1 \<and> fst w = ?T * 3 div 2")
    case True
    then have "unat (fst w) = 1" "unat (snd w) = 4" using w unat_windows [OF T t(2)] by (auto simp: skip_windows_def split: if_splits)
    then show ?thesis using framed_payload.short_window_passes [OF layout q2(2) search] True by (cases w) auto
  next
    case False
    then have "2 \<le> ?t \<or> fst w \<noteq> ?T * 3 div 2" using t(1) by linarith
    then show ?thesis
      using skip_windows_covered [OF T t(2,1), of "fst w" "snd w"] w framed_payload.skip_window_passes [OF layout q2(2) search]
      by (cases w) fastforce
  qed
  then have "map (?test q2 {2, 3}) (skip_windows ?T) = replicate (length (skip_windows ?T)) (Some (Inr (replicate 5 True)))"
    by (rule map_to_replicate)
  moreover have "length (skip_windows ?T) = (if 5 \<le> ?t then 4 else 3)"
    using unat_windows(6,9) [OF T t(2)] by (auto simp: skip_windows_def word_less_nat_alt)
  ultimately show ?thesis using q1(1) q2(1) t1 by (simp add: test_request_model_def Let_def)
qed

theorem test_request_model_passes_witness:
  "test_request_model (dummy_ops 25) dummy_set_timestamp (fr_lower_bound (dummy_ops 25)) plain_env dummy_frame_time
     (of_nat DUMMY_FRAME_SIZE) =
   Some (Inr (replicate 4 (Some (Inr (replicate 7 True))) @ replicate 4 (Some (Inr (replicate 5 True)))))"
proof -
  let ?R = "dummy_ops 25"
  have ts: "frame_timestamps ?R x = [timestamp x]" for x by (simp add: dummy_ops_def dummy_get_timestamp_def)
  have "test_request_model ?R dummy_set_timestamp (fr_lower_bound ?R) plain_env dummy_frame_time (of_nat DUMMY_FRAME_SIZE) =
      Some (Inr (replicate 4 (Some (Inr (replicate 7 True))) @
                 replicate (if 5 \<le> ticks ?R * frames ?R then 4 else 3) (Some (Inr (replicate 5 True)))))"
    by (rule test_request_model_passes [OF dummy.readout_order_axioms dummy_payload.framed_payload_axioms])
      (simp_all add: dummy_set_timestamp_def plain_env_def regular_frames_def ts dummy_less_def)
  then show ?thesis by simp
qed

end
