(* ===== verification/Spsc_Memory.thy ===== *)
theory Spsc_Memory
  imports Spsc_Protocol
begin

text \<open>
  The queue between one producer and one consumer under the memory orders that the code asks for
  (models/detail/IterableQueueModel.hxx, \<open>write\<close> and \<open>read\<close>): each thread reads its own index relaxed,
  loads the index of the other thread with acquire and publishes its own with release. An acquire
  load may return an old value, any value the index has had since the one the thread saw last; what
  it does give is that everything the other thread did before it published that value happens
  before what follows the load. Every run with such loads is shown to be a run of \<open>Spsc_Protocol\<close> in
  which, in addition, \<open>write\<close> may report a full and \<open>read\<close> an empty queue that no longer is one.
\<close>

section \<open>Steps\<close>

text \<open>
  The memory and the threads, all values the two indices have had, oldest first, and how many
  publications of the other thread each thread has seen: the removals that happen before the next
  access of the producer, the constructions that happen before the next access of the consumer.
\<close>

record 'a spsc_ra =
  mem :: "'a spsc"
  writes :: "u32 list"
  reads :: "u32 list"
  p_view :: nat
  c_view :: nat

inductive ra_step :: "'a spsc_ra \<Rightarrow> 'a spsc_ra \<Rightarrow> bool" where
  RaPStart: "ppc (mem s) = PIdle \<Longrightarrow> ra_step s (s\<lparr>mem := (mem s)\<lparr>ppc := PLoaded x (writeIndex (sq (mem s)))\<rparr>\<rparr>)"
| RaPCheck: "ppc (mem s) = PLoaded x w \<Longrightarrow> p_view s \<le> k \<Longrightarrow> k < length (reads s) \<Longrightarrow>
     next_index (qsize (sq (mem s))) w \<noteq> reads s ! k \<Longrightarrow>
     ra_step s (s\<lparr>mem := (mem s)\<lparr>ppc := PChecked x w (next_index (qsize (sq (mem s))) w)\<rparr>, p_view := k\<rparr>)"
| RaPFull: "ppc (mem s) = PLoaded x w \<Longrightarrow> p_view s \<le> k \<Longrightarrow> k < length (reads s) \<Longrightarrow>
     next_index (qsize (sq (mem s))) w = reads s ! k \<Longrightarrow>
     ra_step s (s\<lparr>mem := (mem s)\<lparr>ppc := PIdle, sq := (sq (mem s))\<lparr>overflow_ctr := overflow_ctr (sq (mem s)) + 1\<rparr>\<rparr>,
                  p_view := k\<rparr>)"
| RaPBuild: "ppc (mem s) = PChecked x w nxt \<Longrightarrow> construct x (unat w) (records (sq (mem s))) = Inr r \<Longrightarrow>
     ra_step s (s\<lparr>mem := (mem s)\<lparr>ppc := PBuilt x nxt, sq := (sq (mem s))\<lparr>records := r\<rparr>\<rparr>\<rparr>)"
| RaPPublish: "ppc (mem s) = PBuilt x nxt \<Longrightarrow>
     ra_step s (s\<lparr>mem := (mem s)\<lparr>ppc := PIdle, sq := (sq (mem s))\<lparr>writeIndex := nxt\<rparr>, sent := sent (mem s) @ [x]\<rparr>,
                  writes := writes s @ [nxt]\<rparr>)"
| RaCStart: "cpc (mem s) = CIdle \<Longrightarrow> ra_step s (s\<lparr>mem := (mem s)\<lparr>cpc := CLoaded (readIndex (sq (mem s)))\<rparr>\<rparr>)"
| RaCEmpty: "cpc (mem s) = CLoaded i \<Longrightarrow> c_view s \<le> k \<Longrightarrow> k < length (writes s) \<Longrightarrow> i = writes s ! k \<Longrightarrow>
     ra_step s (s\<lparr>mem := (mem s)\<lparr>cpc := CIdle\<rparr>, c_view := k\<rparr>)"
| RaCCheck: "cpc (mem s) = CLoaded i \<Longrightarrow> c_view s \<le> k \<Longrightarrow> k < length (writes s) \<Longrightarrow> i \<noteq> writes s ! k \<Longrightarrow>
     ra_step s (s\<lparr>mem := (mem s)\<lparr>cpc := CChecked i\<rparr>, c_view := k\<rparr>)"
| RaCTake: "cpc (mem s) = CChecked i \<Longrightarrow> slot (records (sq (mem s))) (unat i) = Inr x \<Longrightarrow>
     ra_step s (s\<lparr>mem := (mem s)\<lparr>cpc := CTaken x i\<rparr>\<rparr>)"
| RaCDestroy: "cpc (mem s) = CTaken x i \<Longrightarrow> destroy (unat i) (records (sq (mem s))) = Inr r \<Longrightarrow>
     ra_step s (s\<lparr>mem := (mem s)\<lparr>cpc := CGone x i, sq := (sq (mem s))\<lparr>records := r\<rparr>\<rparr>\<rparr>)"
| RaCPublish: "cpc (mem s) = CGone x i \<Longrightarrow>
     ra_step s (s\<lparr>mem := (mem s)\<lparr>cpc := CIdle, sq := (sq (mem s))\<lparr>readIndex := next_index (qsize (sq (mem s))) i\<rparr>,
                                got := got (mem s) @ [x]\<rparr>,
                  reads := reads s @ [next_index (qsize (sq (mem s))) i]\<rparr>)"

definition ra_start :: "'a iterable_queue \<Rightarrow> 'a spsc_ra" where
  "ra_start q = \<lparr>mem = spsc_start q, writes = [writeIndex q], reads = [readIndex q], p_view = 0, c_view = 0\<rparr>"

section \<open>What the threads know\<close>

text \<open>The values an index has had on its way around the ring, from \<open>r\<close> on.\<close>

definition ring_history :: "nat \<Rightarrow> nat \<Rightarrow> nat \<Rightarrow> u32 list \<Rightarrow> bool" where
  "ring_history n r m hist \<longleftrightarrow> length hist = m + 1 \<and> (\<forall>k \<le> m. unat (hist ! k) = (r + k) mod n)"

lemma ring_history_append:
  assumes "ring_history n r m hist" and "unat i = (r + (m + 1)) mod n"
  shows "ring_history n r (m + 1) (hist @ [i])"
  using assms by (auto simp: ring_history_def nth_append le_Suc_eq)

text \<open>The producer works at most one round ahead of the removals it has seen.\<close>

definition producer_knows :: "nat \<Rightarrow> 'a producer \<Rightarrow> nat \<Rightarrow> nat \<Rightarrow> bool" where
  "producer_knows n p m v \<longleftrightarrow>
     (case p of PIdle \<Rightarrow> m + 1 \<le> v + n | PLoaded x w \<Rightarrow> m + 1 \<le> v + n
      | PChecked x w nxt \<Rightarrow> m + 2 \<le> v + n | PBuilt x nxt \<Rightarrow> m + 2 \<le> v + n)"

definition consumer_knows :: "'a consumer \<Rightarrow> nat \<Rightarrow> nat \<Rightarrow> bool" where
  "consumer_knows c m v \<longleftrightarrow>
     (case c of CIdle \<Rightarrow> m \<le> v | CLoaded i \<Rightarrow> m \<le> v
      | CChecked i \<Rightarrow> m < v | CTaken x i \<Rightarrow> m < v | CGone x i \<Rightarrow> m < v)"

definition views_ok :: "nat \<Rightarrow> 'a spsc_ra \<Rightarrow> bool" where
  "views_ok r s \<longleftrightarrow>
     (let n = unat (qsize (sq (mem s))); m = length (sent (mem s)); j = length (got (mem s))
      in ring_history n r m (writes s) \<and> ring_history n r j (reads s) \<and> p_view s \<le> j \<and> c_view s \<le> m \<and>
         producer_knows n (ppc (mem s)) m (p_view s) \<and> consumer_knows (cpc (mem s)) j (c_view s))"

text \<open>The indices in memory are the ones published last.\<close>

definition current_indices :: "'a spsc_ra \<Rightarrow> bool" where
  "current_indices s \<longleftrightarrow> writeIndex (sq (mem s)) = last (writes s) \<and> readIndex (sq (mem s)) = last (reads s) \<and>
                         writes s \<noteq> [] \<and> reads s \<noteq> []"

definition ra_inv :: "'a spsc_ra \<Rightarrow> bool" where
  "ra_inv s \<longleftrightarrow> spsc_inv (mem s) \<and> current_indices s \<and> (\<exists>r < unat (qsize (sq (mem s))). views_ok r s)"

lemma views_okD:
  assumes "views_ok r s"
  defines "n \<equiv> unat (qsize (sq (mem s)))" and "m \<equiv> length (sent (mem s))" and "j \<equiv> length (got (mem s))"
  shows "ring_history n r m (writes s)" "ring_history n r j (reads s)" "p_view s \<le> j" "c_view s \<le> m"
    "producer_knows n (ppc (mem s)) m (p_view s)" "consumer_knows (cpc (mem s)) j (c_view s)"
  using assms by (simp_all add: views_ok_def Let_def)

text \<open>What the invariant of the memory says about the counts.\<close>

lemma spsc_inv_counts:
  assumes "spsc_inv s"
  shows "length (got s) \<le> length (sent s)" "length (sent s) < length (got s) + unat (qsize (sq s))"
    "2 \<le> unat (qsize (sq s))" "readIndex (sq s) < qsize (sq s)" "writeIndex (sq s) < qsize (sq s)"
proof -
  obtain a xs vals where h: "spsc_holds s a xs vals" using assms by (auto simp: spsc_inv_def)
  note d = spsc_holdsD (1,4) [OF h]
  note rd = ring_holdsD [OF d(1)]
  show "length (got s) \<le> length (sent s)" "length (sent s) < length (got s) + unat (qsize (sq s))" using d(2) rd(6) by simp_all
  show "2 \<le> unat (qsize (sq s))" "readIndex (sq s) < qsize (sq s)" "writeIndex (sq s) < qsize (sq s)"
    using rd(3,5,7) by (simp_all add: word_less_nat_alt)
qed

lemma spsc_inv_threads:
  assumes "spsc_inv s"
  shows "ppc s = PLoaded x w \<Longrightarrow> w = writeIndex (sq s)" "ppc s = PBuilt x nxt \<Longrightarrow> nxt = next_index (qsize (sq s)) (writeIndex (sq s))"
    "cpc s = CLoaded i \<Longrightarrow> i = readIndex (sq s)" "cpc s = CGone y i \<Longrightarrow> i = readIndex (sq s)"
  using assms by (auto simp: spsc_inv_def spsc_holds_def producer_ok_def consumer_ok_def)

lemma ring_history_mod: "ring_history n r m hist \<Longrightarrow> k \<le> m \<Longrightarrow> unat (hist ! k) = (r + k) mod n"
  by (simp add: ring_history_def)

lemma ra_step_current: "ra_step s s' \<Longrightarrow> current_indices s \<Longrightarrow> current_indices s'"
  by (induction rule: ra_step.induct) (simp_all add: current_indices_def)

lemma current_mod:
  assumes "current_indices s" and "views_ok r s"
  defines "n \<equiv> unat (qsize (sq (mem s)))"
  shows "unat (writeIndex (sq (mem s))) = (r + length (sent (mem s))) mod n"
    "unat (readIndex (sq (mem s))) = (r + length (got (mem s))) mod n"
  using assms views_okD(1,2) [OF assms(2)]
  by (auto simp: current_indices_def last_conv_nth ring_history_def)

text \<open>Positions less than a round apart are the same slot only if they are the same.\<close>

lemma ring_ahead:
  fixes a b n :: nat
  assumes "a \<le> b" and "b \<le> a + n" and "0 < n"
  shows "(r + b) mod n = (r + a) mod n \<longleftrightarrow> b = a \<or> b = a + n"
proof -
  have "(r + b) mod n = (r + a) mod n \<longleftrightarrow> n dvd (b - a)"
    using mod_eq_dvd_iff_nat [of "r + a" "r + b" n] assms(1) by simp
  moreover have "n dvd (b - a) \<longleftrightarrow> b - a = 0 \<or> b - a = n"
  proof
    assume "n dvd (b - a)"
    moreover have "b - a \<le> n" using assms(2) by simp
    ultimately show "b - a = 0 \<or> b - a = n" using dvd_imp_le [of n "b - a"] by linarith
  qed auto
  ultimately show ?thesis using assms(1) by auto
qed

section \<open>Runs with stale loads\<close>

lemma producer_load:
  assumes inv: "ra_inv s" and ld: "ppc (mem s) = PLoaded x w" and k: "p_view s \<le> k" "k < length (reads s)"
    and r: "views_ok r s"
  defines "n \<equiv> unat (qsize (sq (mem s)))" and "m \<equiv> length (sent (mem s))"
  shows "k \<le> length (got (mem s))" "k \<le> m" "m + 1 \<le> k + n"
    "next_index (qsize (sq (mem s))) w = reads s ! k \<longleftrightarrow> m + 1 = k + n"
proof -
  note v = views_okD [OF r, folded n_def m_def]
  have si: "spsc_inv (mem s)" and cur: "current_indices s" using inv by (simp_all add: ra_inv_def)
  note c = spsc_inv_counts [OF si, folded n_def m_def]
  show kj: "k \<le> length (got (mem s))" using k(2) v(2) by (simp add: ring_history_def)
  then show km: "k \<le> m" using c(1) by simp
  show b: "m + 1 \<le> k + n" using v(5) ld k(1) by (simp add: producer_knows_def)
  have w: "w = writeIndex (sq (mem s))" by (rule spsc_inv_threads(1) [OF si ld])
  have "unat (next_index (qsize (sq (mem s))) w) = (r + (m + 1)) mod n"
    using c(5) current_mod(1) [OF cur r, folded n_def m_def] w unfolding n_def by (simp add: unat_next_index mod_simps)
  moreover have "unat (reads s ! k) = (r + k) mod n" using ring_history_mod [OF v(2) kj] .
  ultimately show "next_index (qsize (sq (mem s))) w = reads s ! k \<longleftrightarrow> m + 1 = k + n"
    using ring_ahead [of k "m + 1" n r] km b c(3) by (auto simp: word_unat_eq_iff)
qed

lemma consumer_load:
  assumes inv: "ra_inv s" and ld: "cpc (mem s) = CLoaded i" and k: "c_view s \<le> k" "k < length (writes s)"
    and r: "views_ok r s"
  defines "j \<equiv> length (got (mem s))"
  shows "k \<le> length (sent (mem s))" "j \<le> k" "i = writes s ! k \<longleftrightarrow> k = j"
proof -
  let ?n = "unat (qsize (sq (mem s)))"
  note v = views_okD [OF r, folded j_def]
  have si: "spsc_inv (mem s)" and cur: "current_indices s" using inv by (simp_all add: ra_inv_def)
  note c = spsc_inv_counts [OF si, folded j_def]
  show km: "k \<le> length (sent (mem s))" using k(2) v(1) by (simp add: ring_history_def)
  show jk: "j \<le> k" using v(6) ld k(1) by (simp add: consumer_knows_def)
  have "i = readIndex (sq (mem s))" by (rule spsc_inv_threads(3) [OF si ld])
  then have "unat i = (r + j) mod ?n" using current_mod(2) [OF cur r] by (simp add: j_def)
  moreover have "unat (writes s ! k) = (r + k) mod ?n" using ring_history_mod [OF v(1) km] .
  ultimately show "i = writes s ! k \<longleftrightarrow> k = j"
    using ring_ahead [of j k ?n r] jk km c(2,3) by (auto simp: word_unat_eq_iff)
qed

text \<open>A step is a step of the protocol, or reports a full or empty queue.\<close>

lemma ra_step_sound:
  assumes "ra_step s s'" and "ra_inv s"
  shows "spsc_step (mem s) (mem s') \<or>
         (\<exists>x w. ppc (mem s) = PLoaded x w \<and>
            mem s' = (mem s)\<lparr>ppc := PIdle, sq := (sq (mem s))\<lparr>overflow_ctr := overflow_ctr (sq (mem s)) + 1\<rparr>\<rparr>) \<or>
         (\<exists>i. cpc (mem s) = CLoaded i \<and> mem s' = (mem s)\<lparr>cpc := CIdle\<rparr>)"
  using assms
proof (induction rule: ra_step.induct)
  case (RaPCheck s x w k)
  obtain r where r: "views_ok r s" using RaPCheck.prems by (auto simp: ra_inv_def)
  have si: "spsc_inv (mem s)" and cur: "current_indices s" using RaPCheck.prems by (simp_all add: ra_inv_def)
  note ld = producer_load [OF RaPCheck.prems RaPCheck.hyps(1,2,3) r]
  have "length (got (mem s)) < length (reads s)" using views_okD(2) [OF r] by (simp add: ring_history_def)
  moreover have "reads s ! length (got (mem s)) = readIndex (sq (mem s))"
    using cur views_okD(2) [OF r] by (simp add: current_indices_def last_conv_nth ring_history_def)
  moreover have "length (sent (mem s)) + 1 \<noteq> length (got (mem s)) + unat (qsize (sq (mem s)))"
    using ld RaPCheck.hyps(4) by simp
  ultimately have "next_index (qsize (sq (mem s))) w \<noteq> readIndex (sq (mem s))"
    using producer_load(4) [OF RaPCheck.prems RaPCheck.hyps(1) views_okD(3) [OF r] _ r] by simp
  then show ?case using spsc_step.PCheck [OF RaPCheck.hyps(1)] by simp
next
  case (RaCCheck s i k)
  obtain r where r: "views_ok r s" using RaCCheck.prems by (auto simp: ra_inv_def)
  have si: "spsc_inv (mem s)" and cur: "current_indices s" using RaCCheck.prems by (simp_all add: ra_inv_def)
  note ld = consumer_load [OF RaCCheck.prems RaCCheck.hyps(1,2,3) r]
  have "length (sent (mem s)) < length (writes s)" using views_okD(1) [OF r] by (simp add: ring_history_def)
  moreover have "writes s ! length (sent (mem s)) = writeIndex (sq (mem s))"
    using cur views_okD(1) [OF r] by (simp add: current_indices_def last_conv_nth ring_history_def)
  moreover have "length (sent (mem s)) \<noteq> length (got (mem s))" using ld RaCCheck.hyps(4) by auto
  ultimately have "i \<noteq> writeIndex (sq (mem s))"
    using consumer_load(3) [OF RaCCheck.prems RaCCheck.hyps(1) views_okD(4) [OF r] _ r] by simp
  then show ?case using spsc_step.CCheck [OF RaCCheck.hyps(1)] by simp
qed (auto intro: spsc_step.intros)

lemma ra_step_spsc_inv:
  assumes "ra_step s s'" and "ra_inv s"
  shows "spsc_inv (mem s')"
  using ra_step_sound [OF assms]
proof (elim disjE exE conjE)
  assume "spsc_step (mem s) (mem s')"
  then show ?thesis using assms(2) spsc_step_inv unfolding ra_inv_def by blast
next
  fix x w
  assume p: "ppc (mem s) = PLoaded x w"
    and s': "mem s' = (mem s)\<lparr>ppc := PIdle, sq := (sq (mem s))\<lparr>overflow_ctr := overflow_ctr (sq (mem s)) + 1\<rparr>\<rparr>"
  obtain a xs vals where h: "spsc_holds (mem s) a xs vals" using assms(2) by (auto simp: ra_inv_def spsc_inv_def)
  have "spsc_holds (mem s') a xs vals"
    using spsc_holdsD [OF h] p by (simp add: s' spsc_holds_def producer_ok_def ring_holds_config)
  then show ?thesis by (auto simp: spsc_inv_def)
next
  fix i
  assume "cpc (mem s) = CLoaded i" and s': "mem s' = (mem s)\<lparr>cpc := CIdle\<rparr>"
  moreover obtain a xs vals where "spsc_holds (mem s) a xs vals" using assms(2) by (auto simp: ra_inv_def spsc_inv_def)
  ultimately have "spsc_holds (mem s') a xs vals" by (auto simp: spsc_holds_def consumer_ok_def)
  then show ?thesis by (auto simp: spsc_inv_def)
qed

lemma ra_step_views:
  assumes "ra_step s s'" and "ra_inv s" and "views_ok r s" and "r < unat (qsize (sq (mem s)))"
  shows "views_ok r s'" "qsize (sq (mem s')) = qsize (sq (mem s))"
proof -
  show "qsize (sq (mem s')) = qsize (sq (mem s))" using assms(1) by (induction rule: ra_step.induct) simp_all
  show "views_ok r s'" using assms
  proof (induction rule: ra_step.induct)
    case (RaPCheck s x w k)
    note ld = producer_load [OF RaPCheck.prems(1) RaPCheck.hyps(1,2,3) RaPCheck.prems(2)]
    show ?case using views_okD [OF RaPCheck.prems(2)] ld RaPCheck.hyps(4)
      by (simp add: views_ok_def Let_def producer_knows_def)
  next
    case (RaPFull s x w k)
    note ld = producer_load [OF RaPFull.prems(1) RaPFull.hyps(1,2,3) RaPFull.prems(2)]
    show ?case using views_okD [OF RaPFull.prems(2)] ld by (simp add: views_ok_def Let_def producer_knows_def)
  next
    case (RaPPublish s x nxt)
    have si: "spsc_inv (mem s)" and cur: "current_indices s" using RaPPublish.prems(1) by (simp_all add: ra_inv_def)
    have "unat nxt = (r + (length (sent (mem s)) + 1)) mod unat (qsize (sq (mem s)))"
      using spsc_inv_threads(2) [OF si RaPPublish.hyps] spsc_inv_counts(5) [OF si] current_mod(1) [OF cur RaPPublish.prems(2)]
      by (simp add: unat_next_index mod_simps)
    then show ?case
      using views_okD [OF RaPPublish.prems(2)] RaPPublish.hyps ring_history_append
      by (auto simp: views_ok_def Let_def producer_knows_def)
  next
    case (RaCEmpty s i k)
    note ld = consumer_load [OF RaCEmpty.prems(1) RaCEmpty.hyps(1,2,3) RaCEmpty.prems(2)]
    show ?case using views_okD [OF RaCEmpty.prems(2)] ld by (simp add: views_ok_def Let_def consumer_knows_def)
  next
    case (RaCCheck s i k)
    note ld = consumer_load [OF RaCCheck.prems(1) RaCCheck.hyps(1,2,3) RaCCheck.prems(2)]
    show ?case using views_okD [OF RaCCheck.prems(2)] ld RaCCheck.hyps(4)
      by (simp add: views_ok_def Let_def consumer_knows_def)
  next
    case (RaCPublish s x i)
    have si: "spsc_inv (mem s)" and cur: "current_indices s" using RaCPublish.prems(1) by (simp_all add: ra_inv_def)
    have "unat (next_index (qsize (sq (mem s))) i) = (r + (length (got (mem s)) + 1)) mod unat (qsize (sq (mem s)))"
      using spsc_inv_threads(4) [OF si RaCPublish.hyps] spsc_inv_counts(4) [OF si] current_mod(2) [OF cur RaCPublish.prems(2)]
      by (simp add: unat_next_index mod_simps)
    then show ?case
      using views_okD [OF RaCPublish.prems(2)] RaCPublish.hyps ring_history_append
      by (auto simp: views_ok_def Let_def consumer_knows_def)
  qed (simp_all add: views_ok_def Let_def producer_knows_def consumer_knows_def)
qed

lemma ra_step_inv: "ra_step s s' \<Longrightarrow> ra_inv s \<Longrightarrow> ra_inv s'"
  using ra_step_spsc_inv ra_step_views ra_step_current by (fastforce simp: ra_inv_def)

lemma ra_start_inv:
  assumes "queue_inv q" and "contents q = []"
  shows "ra_inv (ra_start q)"
proof -
  have si: "spsc_inv (spsc_start q)" by (rule spsc_start_inv [OF assms])
  obtain a xs vals where h: "spsc_holds (spsc_start q) a xs vals" using si by (auto simp: spsc_inv_def)
  have "vals = []" using spsc_holdsD(4) [OF h] by (simp add: spsc_start_def)
  then have "writeIndex q = readIndex q"
    using ring_holdsD(5,7) [OF spsc_holdsD(1) [OF h]] by (simp add: spsc_start_def word_unat_eq_iff)
  moreover have "readIndex q < qsize q" "2 \<le> unat (qsize q)" using spsc_inv_counts(3,4) [OF si] by (simp_all add: spsc_start_def)
  ultimately show ?thesis using si
    by (auto simp: ra_inv_def ra_start_def current_indices_def spsc_start_def views_ok_def ring_history_def
        producer_knows_def consumer_knows_def word_less_nat_alt intro!: exI [of _ "unat (readIndex q)"])
qed

lemma ra_reachable_inv: "ra_step\<^sup>*\<^sup>* (ra_start q) s \<Longrightarrow> queue_inv q \<Longrightarrow> contents q = [] \<Longrightarrow> ra_inv s"
  by (induction rule: rtranclp_induct) (auto intro: ra_start_inv ra_step_inv)

section \<open>Property\<close>

text \<open>
  C14. With the memory orders of the code, where loads of the other thread's index may return old
  values, the queue still works: in every run what the consumer has received is a prefix of what
  the producer has published, with at most the capacity in flight. When the producer is about to
  construct an element, the slot is raw memory and the removal of the element that was in it before
  (the one a whole round earlier) happens before; when the consumer is about to read an element, it
  is the oldest one, and its construction happens before. So no two accesses to a slot race.
\<close>

theorem spsc_release_acquire:
  assumes "queue_inv q" and "contents q = []" and "ra_step\<^sup>*\<^sup>* (ra_start q) s"
  defines "n \<equiv> unat (qsize (sq (mem s)))"
  shows "\<exists>inflight. sent (mem s) = got (mem s) @ inflight \<and> length inflight < n \<and>
           (\<forall>x w nxt. ppc (mem s) = PChecked x w nxt \<longrightarrow>
              slot (records (sq (mem s))) (unat w) = Inl InvalidAccess \<and>
              (\<exists>r. construct x (unat w) (records (sq (mem s))) = Inr r) \<and>
              length (sent (mem s)) + 1 < p_view s + n) \<and>
           (\<forall>i. cpc (mem s) = CChecked i \<longrightarrow>
              inflight \<noteq> [] \<and> slot (records (sq (mem s))) (unat i) = Inr (hd inflight) \<and> length (got (mem s)) < c_view s)"
proof -
  have inv: "ra_inv s" by (rule ra_reachable_inv [OF assms(3,1,2)])
  then obtain a xs vals where h: "spsc_holds (mem s) a xs vals" by (auto simp: ra_inv_def spsc_inv_def)
  obtain r where v: "views_ok r s" using inv by (auto simp: ra_inv_def)
  note d = spsc_holdsD [OF h]
  note rd = ring_holdsD [OF d(1)]
  have raw: "w = writeIndex (sq (mem s)) \<and> xs ! unat w = None" if "ppc (mem s) = PChecked x w nxt" for x w nxt
    using d(2) rd(8) [of "length vals"] rd(6,7) that by (simp add: producer_ok_def expected_cell_def)
  have live: "i = readIndex (sq (mem s)) \<and> vals \<noteq> [] \<and> xs ! unat i = Some (hd vals)" if "cpc (mem s) = CChecked i" for i
    using d(3) rd(3,5) rd(8) [of 0] that by (simp add: consumer_ok_def expected_cell_def hd_conv_nth)
  have lt: "unat (writeIndex (sq (mem s))) < length xs" "unat (readIndex (sq (mem s))) < length xs"
    using rd(2,3,5,7) by simp_all
  have "length (sent (mem s)) + 1 < p_view s + n" if "ppc (mem s) = PChecked x w nxt" for x w nxt
    using views_okD(5) [OF v] that by (simp add: producer_knows_def n_def)
  moreover have "length (got (mem s)) < c_view s" if "cpc (mem s) = CChecked i" for i
    using views_okD(6) [OF v] that by (simp add: consumer_knows_def)
  ultimately show ?thesis
    using d(4) rd(1,6) raw live lt by (intro exI [of _ vals]) (auto simp: n_def)
qed

text \<open>
  A run in which the consumer finds the queue empty with an old value of the write index after the
  producer has published an element, and then loads the new value.
\<close>

lemma stale_run:
  "\<exists>s. ra_step\<^sup>*\<^sup>* (ra_start small_queue) s \<and> cpc (mem s) = CChecked 0 \<and> sent (mem s) = [7] \<and> got (mem s) = []"
proof -
  let ?q = "small_queue" and ?r = "Region StdMalloc [Some 7, None]"
  have "replicate 2 None = [None, None :: u64 option]" by (simp add: numeral_2_eq_2)
  then have sel: "writeIndex ?q = 0" "readIndex ?q = 0" "qsize ?q = 2" "records ?q = Region StdMalloc [None, None]"
    by (simp_all add: small_queue_def default_queue_def alloc_region_def)
  let ?s0 = "ra_start ?q"
  let ?s1 = "?s0\<lparr>mem := (mem ?s0)\<lparr>ppc := PLoaded 7 0\<rparr>\<rparr>"
  let ?s2 = "?s1\<lparr>mem := (mem ?s1)\<lparr>ppc := PChecked 7 0 1\<rparr>, p_view := 0\<rparr>"
  let ?s3 = "?s2\<lparr>mem := (mem ?s2)\<lparr>ppc := PBuilt 7 1, sq := (sq (mem ?s2))\<lparr>records := ?r\<rparr>\<rparr>\<rparr>"
  let ?s4 = "?s3\<lparr>mem := (mem ?s3)\<lparr>ppc := PIdle, sq := (sq (mem ?s3))\<lparr>writeIndex := 1\<rparr>, sent := [7]\<rparr>, writes := [0, 1]\<rparr>"
  let ?s5 = "?s4\<lparr>mem := (mem ?s4)\<lparr>cpc := CLoaded 0\<rparr>\<rparr>"
  let ?s6 = "?s5\<lparr>mem := (mem ?s5)\<lparr>cpc := CIdle\<rparr>, c_view := 0\<rparr>"
  let ?s7 = "?s6\<lparr>mem := (mem ?s6)\<lparr>cpc := CLoaded 0\<rparr>\<rparr>"
  let ?s8 = "?s7\<lparr>mem := (mem ?s7)\<lparr>cpc := CChecked 0\<rparr>, c_view := 1\<rparr>"
  note [simp] = sel ra_start_def spsc_start_def next_index_def
  have "ra_step ?s0 ?s1" using RaPStart [of ?s0 7] by simp
  moreover have "ra_step ?s1 ?s2" using RaPCheck [of ?s1 7 0 0] by simp
  moreover have "ra_step ?s2 ?s3" using RaPBuild [of ?s2 7 0 1 ?r] by simp
  moreover have "ra_step ?s3 ?s4" using RaPPublish [of ?s3 7 1] by simp
  moreover have "ra_step ?s4 ?s5" using RaCStart [of ?s4] by simp
  moreover have "ra_step ?s5 ?s6" using RaCEmpty [of ?s5 0 0] by simp
  moreover have "ra_step ?s6 ?s7" using RaCStart [of ?s6] by simp
  moreover have "ra_step ?s7 ?s8" using RaCCheck [of ?s7 0 1] by simp
  ultimately have "ra_step\<^sup>*\<^sup>* ?s0 ?s8" by (meson converse_rtranclp_into_rtranclp rtranclp.rtrancl_refl)
  then show ?thesis by (intro exI [of _ ?s8]) simp
qed

theorem spsc_release_acquire_witness:
  "\<exists>s. ra_step\<^sup>*\<^sup>* (ra_start small_queue) s \<and> cpc (mem s) = CChecked 0 \<and>
       slot (records (sq (mem s))) 0 = Inr 7 \<and> 0 < c_view s"
proof -
  obtain s where s: "ra_step\<^sup>*\<^sup>* (ra_start small_queue) s" "cpc (mem s) = CChecked 0" "sent (mem s) = [7]" "got (mem s) = []"
    using stale_run by blast
  then show ?thesis using spsc_release_acquire [OF small_queue_inv s(1)] by auto
qed

end
