(* ===== verification/Request_Steps.thy ===== *)
theory Request_Steps
  imports Request_Contract Concurrent_Access "HOL-Library.Sublist"
begin

text \<open>
  The search of a request step by step (models/detail/DefaultRequestHandlerModel.hxx,
  \<open>get_fragment_pieces\<close>): reading the front, reading the back, the search, the test of the iterator, the
  treatment of an element and the advance of the iterator are steps between which received data is
  written to the buffer. (Cleanup is excluded while a request reads, see \<open>Cleanup_Protocol\<close>.) A request
  answers as it would have at a moment between its steps.
\<close>

section \<open>Steps\<close>

text \<open>
  Where the request is: with the timestamps of the oldest and the newest element, the iterator, the
  result code and the pieces gathered so far.
\<close>

datatype ('a, 'i) fetch_pc =
    Starting
  | FrontRead u64
  | BothRead u64 u64
  | Found u64 u64 'i
  | Gathering ResultCode 'i "'a piece list"
  | Handled ResultCode 'i "'a piece list"
  | Answered ResultCode "'a piece list"

inductive fetch_step ::
  "'a readout_ops \<Rightarrow> ('b, 'a, 'i) lb_ops \<Rightarrow> bool \<Rightarrow> u64 \<Rightarrow> u64 \<Rightarrow> 'b \<Rightarrow> ('a, 'i) fetch_pc \<Rightarrow> ('a, 'i) fetch_pc \<Rightarrow> bool"
  for R L with_errors start_win_ts end_win_ts b where
  ReadFront: "front_timestamp R L b = Inr last_ts \<Longrightarrow>
     fetch_step R L with_errors start_win_ts end_win_ts b Starting (FrontRead last_ts)"
| ReadBack: "back_timestamp R L b = Inr newest_ts \<Longrightarrow>
     fetch_step R L with_errors start_win_ts end_win_ts b (FrontRead last_ts) (BothRead last_ts newest_ts)"
| TooEarly: "start_win_ts > newest_ts \<Longrightarrow>
     fetch_step R L with_errors start_win_ts end_win_ts b (BothRead last_ts newest_ts) (Answered kNotYet [])"
| TooLate: "\<not> start_win_ts > newest_ts \<Longrightarrow> end_win_ts < last_ts \<Longrightarrow>
     fetch_step R L with_errors start_win_ts end_win_ts b (BothRead last_ts newest_ts) (Answered kTooOld [])"
| Search: "\<not> start_win_ts > newest_ts \<Longrightarrow> \<not> end_win_ts < last_ts \<Longrightarrow>
     lb_lower_bound L (request_element R start_win_ts) with_errors b = Some (Inr start_iter) \<Longrightarrow>
     fetch_step R L with_errors start_win_ts end_win_ts b (BothRead last_ts newest_ts) (Found last_ts newest_ts start_iter)"
| Missing: "\<not> it_good L b start_iter \<Longrightarrow>
     fetch_step R L with_errors start_win_ts end_win_ts b (Found last_ts newest_ts start_iter) (Answered kNotFound [])"
| Present: "it_good L b start_iter \<Longrightarrow>
     rc = (if end_win_ts > newest_ts then kPartial else if start_win_ts < last_ts then kPartiallyOld else kFound) \<Longrightarrow>
     fetch_step R L with_errors start_win_ts end_win_ts b (Found last_ts newest_ts start_iter) (Gathering rc start_iter [])"
| Handle: "it_good L b start_iter \<Longrightarrow> it_deref L b start_iter = Inr element \<Longrightarrow> get_timestamp R element < end_win_ts \<Longrightarrow>
     fetch_step R L with_errors start_win_ts end_win_ts b (Gathering rc start_iter frag_pieces)
       (Handled rc start_iter (frag_pieces @ element_pieces R start_win_ts end_win_ts element))"
| Behind: "it_good L b start_iter \<Longrightarrow> it_deref L b start_iter = Inr element \<Longrightarrow> \<not> get_timestamp R element < end_win_ts \<Longrightarrow>
     fetch_step R L with_errors start_win_ts end_win_ts b (Gathering rc start_iter frag_pieces) (Answered rc frag_pieces)"
| Exhausted: "\<not> it_good L b start_iter \<Longrightarrow>
     fetch_step R L with_errors start_win_ts end_win_ts b (Gathering rc start_iter frag_pieces) (Answered rc frag_pieces)"
| Advance: "fetch_step R L with_errors start_win_ts end_win_ts b (Handled rc start_iter frag_pieces)
     (Gathering rc (it_next L b start_iter) frag_pieces)"

inductive_cases fetch_stepE: "fetch_step R L we s e b pc pc'"

lemmas fetch_step_cases = fetch_stepE [consumes 1, case_names ReadFront ReadBack TooEarly TooLate Search Missing Present
    Handle Behind Exhausted Advance]

inductive fetch_run ::
  "'a readout_ops \<Rightarrow> ('b, 'a, 'i) lb_ops \<Rightarrow> bool \<Rightarrow> u64 \<Rightarrow> u64 \<Rightarrow> 'b \<times> ('a, 'i) fetch_pc \<Rightarrow> 'b \<times> ('a, 'i) fetch_pc \<Rightarrow> bool"
  for R L we s e where
  Arrives: "lb_write L x b = Inr (ok, b') \<Longrightarrow> fetch_run R L we s e (b, pc) (b', pc)"
| Fetches: "fetch_step R L we s e b pc pc' \<Longrightarrow> fetch_run R L we s e (b, pc) (b, pc')"

inductive_cases fetch_runE: "fetch_run R L we s e (b, pc) (b', pc')"

lemmas fetch_run_cases = fetch_runE [consumes 1, case_names Arrives Fetches]

lemmas fetch_run_induct =
  rtranclp_induct [of _ "(ax, ay)" "(bx, bz)", split_rule, consumes 1, case_names refl step]

section \<open>What the request knows\<close>

text \<open>
  \<open>ys\<close> is what was stored when the back was read: the result code is decided by it. The pieces are
  those of the elements up to the iterator, of the stored elements \<open>xs\<close>, or, at the end iterator, of
  what was stored when it got there.
\<close>

fun fetched ::
  "'a readout_ops \<Rightarrow> u64 \<Rightarrow> u64 \<Rightarrow> 'a list \<Rightarrow> ('i \<Rightarrow> nat \<Rightarrow> bool) \<Rightarrow> 'i \<Rightarrow> 'a list \<Rightarrow> 'a list \<Rightarrow> ('a, 'i) fetch_pc \<Rightarrow> bool"
where
  "fetched R s e xs pos end_it ys zs Starting \<longleftrightarrow> True"
| "fetched R s e xs pos end_it ys zs (FrontRead f) \<longleftrightarrow> f = get_timestamp R (hd xs)"
| "fetched R s e xs pos end_it ys zs (BothRead f n) \<longleftrightarrow> f = get_timestamp R (hd xs) \<and> n = get_timestamp R (last ys)"
| "fetched R s e xs pos end_it ys zs (Found f n i) \<longleftrightarrow>
     f = get_timestamp R (hd xs) \<and> n = get_timestamp R (last ys) \<and> s \<le> n \<and> f \<le> e \<and>
     (\<exists>k < length xs. pos i k \<and> window_pieces R s e (take k xs) = [])"
| "fetched R s e xs pos end_it ys zs (Gathering rc i ps) \<longleftrightarrow>
     rc = coverage_code R s e ys \<and> rc \<in> {kFound, kPartial} \<and>
     ((\<exists>k. pos i k \<and> ps = window_pieces R s e (take k xs)) \<or> i = end_it \<and> ps = window_pieces R s e zs)"
| "fetched R s e xs pos end_it ys zs (Handled rc i ps) \<longleftrightarrow>
     rc = coverage_code R s e ys \<and> rc \<in> {kFound, kPartial} \<and>
     (\<exists>k < length xs. pos i k \<and> ps = window_pieces R s e (take (k + 1) xs))"
| "fetched R s e xs pos end_it ys zs (Answered rc ps) \<longleftrightarrow>
     rc = coverage_code R s e ys \<and> ps = (if rc \<in> {kFound, kPartial} then window_pieces R s e zs else [])"

text \<open>The state: the buffer has grown from \<open>xs0\<close> through \<open>ys\<close> and \<open>zs\<close>.\<close>

definition fetch_ok ::
  "'a readout_ops \<Rightarrow> ('b, 'a, 'i) lb_ops \<Rightarrow> ('b \<Rightarrow> bool) \<Rightarrow> ('b \<Rightarrow> 'a list) \<Rightarrow> ('b \<Rightarrow> 'i \<Rightarrow> nat \<Rightarrow> bool) \<Rightarrow> u64 \<Rightarrow> u64 \<Rightarrow> 'a list \<Rightarrow>
   'b \<Rightarrow> ('a, 'i) fetch_pc \<Rightarrow> bool" where
  "fetch_ok R L lb_inv elements lb_pos s e xs0 b pc \<longleftrightarrow>
     lb_inv b \<and> (\<exists>ys zs. prefix xs0 ys \<and> prefix ys zs \<and> prefix zs (elements b) \<and>
       fetched R s e (elements b) (lb_pos b) (lb_end L b) ys zs pc)"

locale growing_searchable =
  searchable_buffer L lb_inv elements lb_pos R search_ready + growing_buffer L lb_inv elements lb_pos
  for L :: "('b, 'a, 'i) lb_ops" and lb_inv elements lb_pos and R :: "'a readout_ops" and search_ready +
  assumes never_good: "\<not> it_good L b (lb_end L b)"
    and ready_prefix: "search_ready we xs \<Longrightarrow> prefix ys xs \<Longrightarrow> ys \<noteq> [] \<Longrightarrow> search_ready we ys"
begin

lemma grow_fetched:
  assumes fo: "fetch_ok R L lb_inv elements lb_pos s e xs0 b pc" and w: "lb_write L x b = Inr (ok, b')"
    and ne: "xs0 \<noteq> []"
  shows "fetch_ok R L lb_inv elements lb_pos s e xs0 b' pc"
proof -
  obtain ys zs where inv: "lb_inv b" and pre: "prefix xs0 ys" "prefix ys zs" "prefix zs (elements b)"
    and f: "fetched R s e (elements b) (lb_pos b) (lb_end L b) ys zs pc" using fo by (auto simp: fetch_ok_def)
  have b': "lb_inv b'" "\<exists>ws. elements b' = elements b @ ws" using write_elements [OF inv, of x] w by auto
  then obtain ws where ws: "elements b' = elements b @ ws" by blast
  have hd: "hd (elements b') = hd (elements b)" using pre ne ws by (auto simp: prefix_def)
  have pos: "lb_pos b' i k" if "lb_pos b i k" "k < length (elements b)" for i k
    using write_pos [OF inv that(1) w] good_pos [OF inv that(1)] that(2) never_good [of b] end_same [of b' b] by auto
  have keep: "fetch_ok R L lb_inv elements lb_pos s e xs0 b' pc"
    if "fetched R s e (elements b') (lb_pos b') (lb_end L b') ys zs pc \<or>
        fetched R s e (elements b') (lb_pos b') (lb_end L b') ys (elements b) pc"
  proof -
    have "prefix zs (elements b')" "prefix ys (elements b)" "prefix (elements b) (elements b')"
      using pre ws prefix_order.trans by auto
    then show ?thesis using that pre(1,2) b'(1) unfolding fetch_ok_def by blast
  qed
  show ?thesis
  proof (cases pc)
    case (Gathering rc i ps)
    then have rc: "rc = coverage_code R s e ys" "rc \<in> {kFound, kPartial}" using f by auto
    have "(\<exists>k. lb_pos b' i k \<and> ps = window_pieces R s e (take k (elements b'))) \<or> i = lb_end L b' \<and> ps = window_pieces R s e zs \<or>
        i = lb_end L b' \<and> ps = window_pieces R s e (elements b)"
    proof -
      consider k where "lb_pos b i k" "ps = window_pieces R s e (take k (elements b))"
        | "i = lb_end L b" "ps = window_pieces R s e zs" using f Gathering by auto
      then show ?thesis
      proof cases
        case (1 k)
        have le: "k \<le> length (elements b)" by (rule pos_le [OF inv 1(1)])
        then have same: "take k (elements b') = take k (elements b)" using ws by simp
        show ?thesis using write_pos [OF inv 1(1) w] pos [OF 1(1)] le 1(2) same by (cases "k < length (elements b)") auto
      qed (use end_same [of b' b] in simp)
    qed
    then have "fetched R s e (elements b') (lb_pos b') (lb_end L b') ys zs pc \<or>
        fetched R s e (elements b') (lb_pos b') (lb_end L b') ys (elements b) pc" using Gathering rc by auto
    then show ?thesis by (rule keep)
  next
    case (Found f' n i)
    then show ?thesis using keep f ws hd pos by fastforce
  next
    case (Handled rc i ps)
    then show ?thesis using keep f ws hd pos by fastforce
  qed (rule keep; use f hd in simp)+
qed

text \<open>What an element at the iterator adds.\<close>

lemma window_pieces_take_Suc:
  "k < length xs \<Longrightarrow> get_timestamp R (xs ! k) < e \<Longrightarrow>
   window_pieces R s e (take (k + 1) xs) = window_pieces R s e (take k xs) @ element_pieces R s e (xs ! k)"
  by (auto simp: take_Suc_conv_app_nth window_pieces_append) (auto simp: window_pieces_def element_pieces_before not_less)

lemma window_pieces_behind:
  assumes srt: "ts_sorted R xs" and k: "k < length xs" "e \<le> get_timestamp R (xs ! k)"
  shows "window_pieces R s e xs = window_pieces R s e (take k xs)"
proof -
  have "\<not> get_timestamp R x < e" if x: "x \<in> set (drop k xs)" for x
  proof -
    obtain j where "j < length (drop k xs)" "drop k xs ! j = x" using x unfolding in_set_conv_nth by blast
    moreover from this have "get_timestamp R (xs ! k) \<le> get_timestamp R (xs ! (k + j))"
      by (intro ts_sorted_le [OF srt]) auto
    ultimately show ?thesis using k order_trans [OF k(2)] by (auto simp: not_less)
  qed
  then have "window_pieces R s e (drop k xs) = []" by (auto simp: window_pieces_def filter_empty_conv)
  then show ?thesis using window_pieces_append [of R s e "take k xs" "drop k xs"] by simp
qed

text \<open>The steps of the request keep what it knows; \<open>xs\<close> is what is stored.\<close>

lemma search_found:
  assumes inv: "lb_inv b" and ready: "search_ready we (elements b)" and uni: "uniform_span R (elements b)"
    and w: "window_reachable R s (elements b)" and x: "x \<in> set (elements b)" "s \<le> get_timestamp R x"
  shows "\<exists>i. lb_lower_bound L (request_element R s) we b = Some (Inr i) \<and>
             (\<exists>k < length (elements b). lb_pos b i k \<and> window_pieces R s e (take k (elements b)) = [])"
proof -
  let ?t = "s - default_span R"
  let ?k = "lb_index R ?t (elements b)"
  have ne: "elements b \<noteq> []" using x(1) by auto
  obtain i where i: "lb_lower_bound L (request_element R s) we b = Some (Inr i)" "lb_pos b i ?k"
    using lower_bound_pos [OF inv ready ne, of "request_element R s"] w by (auto simp: window_reachable_def request_element_ts)
  have "?t \<le> s" using w by (simp add: window_reachable_def word_sub_le)
  moreover obtain j where "j < length (elements b)" "x = elements b ! j" using x(1) by (auto simp: in_set_conv_nth)
  ultimately have "?k \<noteq> length (elements b)" using lb_index_below [of j R ?t "elements b"] x(2) by auto
  then have "?k < length (elements b)" using lb_index_le [of R ?t "elements b"] le_neq_implies_less by blast
  moreover have "window_pieces R s e (take ?k (elements b)) = []"
    using before_lower_bound [OF uni] w by (intro window_pieces_before) (auto simp: window_reachable_def)
  ultimately show ?thesis using i by blast
qed

lemma element_at:
  assumes "fetched R s e (elements b) (lb_pos b) (lb_end L b) ys zs (Gathering rc i ps)"
    and "it_good L b i" and "it_deref L b i = Inr x" and inv: "lb_inv b"
  shows "\<exists>k. lb_pos b i k \<and> ps = window_pieces R s e (take k (elements b)) \<and> k < length (elements b) \<and> x = elements b ! k"
proof -
  obtain k where k: "lb_pos b i k" "ps = window_pieces R s e (take k (elements b))"
    using assms(1,2) never_good [of b] by auto
  then show ?thesis using good_pos [OF inv k(1)] deref_pos [OF inv k(1)] assms(2,3) by (intro exI [of _ k]) simp
qed

lemma fetch_step_fetched:
  assumes step: "fetch_step R L we s e b pc pc'"
    and fo: "fetch_ok R L lb_inv elements lb_pos s e xs0 b pc" and ne: "xs0 \<noteq> []"
    and ready: "search_ready we (elements b)" and uni: "uniform_span R (elements b)" and w: "window_reachable R s (elements b)"
  shows "fetch_ok R L lb_inv elements lb_pos s e xs0 b pc'"
proof -
  let ?xs = "elements b"
  obtain ys zs where inv: "lb_inv b" and pre: "prefix xs0 ys" "prefix ys zs" "prefix zs ?xs"
    and f: "fetched R s e ?xs (lb_pos b) (lb_end L b) ys zs pc" using fo by (auto simp: fetch_ok_def)
  have ne': "?xs \<noteq> []" "ys \<noteq> []" and hd: "hd ys = hd ?xs" using pre ne by (auto simp: prefix_def)
  have srt: "ts_sorted R ?xs" by (rule ready_sorted [OF ready])
  have "prefix ys ?xs" using pre prefix_order.trans by blast
  then have last: "last ys \<in> set ?xs" using ne'(2) last_in_set [of ys] by (auto simp: prefix_def)
  have all: "fetch_ok R L lb_inv elements lb_pos s e xs0 b pc'"
    if "fetched R s e ?xs (lb_pos b) (lb_end L b) ys zs pc' \<or> fetched R s e ?xs (lb_pos b) (lb_end L b) ys ?xs pc' \<or>
        fetched R s e ?xs (lb_pos b) (lb_end L b) ?xs ?xs pc'"
    using that inv pre prefix_order.trans \<open>prefix ys ?xs\<close> unfolding fetch_ok_def by blast
  note ends = timestamps_of_ends [OF inv ne'(1), of R]
  show ?thesis
    using step
  proof (cases rule: fetch_step_cases)
    case (Search n f i)
    have "s \<le> get_timestamp R (last ys)" "f \<le> e" using Search f by auto
    then show ?thesis using all search_found [OF inv ready uni w last, of e] Search f by auto
  next
    case (Missing i f n)
    then show ?thesis using f good_pos [OF inv] by auto
  next
    case (Present i n f)
    then obtain k where k: "lb_pos b i k" "window_pieces R s e (take k ?xs) = []"
      and n: "n = get_timestamp R (last ys)" "f = get_timestamp R (hd ?xs)" "s \<le> n" "f \<le> e" using f by auto
    obtain rc where rc: "pc' = Gathering rc i []" "rc = (if e > n then kPartial else if s < f then kPartiallyOld else kFound)"
      using Present by auto
    have "rc = coverage_code R s e ys" "rc \<in> {kFound, kPartial}"
      using rc(2) n reachable_begin [OF uni ne'(1) w] hd by (auto simp: coverage_code_def)
    then have "fetched R s e ?xs (lb_pos b) (lb_end L b) ys zs pc'" using rc(1) k by auto
    then show ?thesis using all by blast
  next
    case (Handle i x rc ps)
    have rc: "rc = coverage_code R s e ys" "rc \<in> {kFound, kPartial}" using f Handle(1) by auto
    obtain k where k: "lb_pos b i k" "ps = window_pieces R s e (take k ?xs)" "k < length ?xs" "x = ?xs ! k"
      using element_at [OF f [unfolded Handle(1)] Handle(3,4) inv] by blast
    then have "fetched R s e ?xs (lb_pos b) (lb_end L b) ys zs pc'"
      using Handle window_pieces_take_Suc [of k ?xs e s] rc by auto
    then show ?thesis using all by blast
  next
    case (Behind i x rc ps)
    have rc: "rc = coverage_code R s e ys" "rc \<in> {kFound, kPartial}" using f Behind(1) by auto
    obtain k where k: "lb_pos b i k" "ps = window_pieces R s e (take k ?xs)" "k < length ?xs" "x = ?xs ! k"
      using element_at [OF f [unfolded Behind(1)] Behind(3,4) inv] by blast
    then have "fetched R s e ?xs (lb_pos b) (lb_end L b) ys ?xs pc'"
      using Behind window_pieces_behind [OF srt, of k e s] rc by auto
    then show ?thesis using all by blast
  next
    case (Exhausted i rc ps)
    have rc: "rc = coverage_code R s e ys" "rc \<in> {kFound, kPartial}" using f Exhausted(1) by auto
    from f Exhausted(1) consider k where "lb_pos b i k" "ps = window_pieces R s e (take k ?xs)" | "ps = window_pieces R s e zs"
      by auto
    then have "fetched R s e ?xs (lb_pos b) (lb_end L b) ys ?xs pc' \<or> fetched R s e ?xs (lb_pos b) (lb_end L b) ys zs pc'"
    proof cases
      case (1 k)
      then have "take k ?xs = ?xs" using good_pos [OF inv 1(1)] Exhausted by simp
      then show ?thesis using Exhausted(2) rc 1(2) by auto
    qed (use Exhausted(2) rc in auto)
    then show ?thesis using all by blast
  next
    case (Advance rc i ps)
    then obtain k where k: "lb_pos b i k" "k < length ?xs" "ps = window_pieces R s e (take (k + 1) ?xs)"
      using f by auto
    have "lb_pos b (it_next L b i) (k + 1)" by (rule next_pos [OF inv k(1,2)])
    then have "fetched R s e ?xs (lb_pos b) (lb_end L b) ys zs pc'" using f Advance k(3) by auto
    then show ?thesis using all by blast
  qed (use f all ends hd in \<open>auto simp: coverage_code_def\<close>)
qed

text \<open>As long as it has not answered, the request can go on.\<close>

lemma fetch_enabled:
  assumes fo: "fetch_ok R L lb_inv elements lb_pos s e xs0 b pc" and ne: "xs0 \<noteq> []" and "\<nexists>rc ps. pc = Answered rc ps"
    and ready: "search_ready we (elements b)" and uni: "uniform_span R (elements b)" and w: "window_reachable R s (elements b)"
  shows "\<exists>pc'. fetch_step R L we s e b pc pc'"
proof -
  obtain ys zs where inv: "lb_inv b" and pre: "prefix xs0 ys" "prefix ys zs" "prefix zs (elements b)"
    and f: "fetched R s e (elements b) (lb_pos b) (lb_end L b) ys zs pc" using fo by (auto simp: fetch_ok_def)
  have ne': "elements b \<noteq> []" "ys \<noteq> []" using pre ne by (auto simp: prefix_def)
  have "prefix ys (elements b)" using pre prefix_order.trans by blast
  then have last: "last ys \<in> set (elements b)" using ne'(2) last_in_set [of ys] by (auto simp: prefix_def)
  note ends = timestamps_of_ends [OF inv ne'(1), of R]
  show ?thesis
  proof (cases pc)
    case (BothRead f' n)
    show ?thesis
    proof (cases "n < s \<or> e < f'")
      case True
      then show ?thesis using TooEarly [of n s R L we e b f'] TooLate [of n s e f' R L we b] BothRead by blast
    next
      case False
      then have "s \<le> get_timestamp R (last ys)" using f BothRead by auto
      then obtain i where "lb_lower_bound L (request_element R s) we b = Some (Inr i)"
        using search_found [OF inv ready uni w last, of e] by blast
      then show ?thesis using Search [of n s e f' L R we b i] False BothRead by blast
    qed
  next
    case (Found f' n i)
    then show ?thesis using Missing [of L b i] Present [of L b i] by (cases "it_good L b i") blast+
  next
    case (Gathering rc i ps)
    show ?thesis
    proof (cases "it_good L b i")
      case True
      then obtain k where "lb_pos b i k" "k < length (elements b)"
        using f Gathering never_good [of b] good_pos [OF inv] by auto
      then obtain x where x: "it_deref L b i = Inr x" using deref_pos [OF inv] by blast
      then show ?thesis
        using Handle [OF True x] Behind [OF True x] Gathering by (cases "get_timestamp R x < e") blast+
    next
      case False
      then show ?thesis using Exhausted [of L b i] Gathering by blast
    qed
  next
    case (Handled rc i ps)
    then show ?thesis using Advance [of R L we s e b rc i ps] by blast
  qed (use ends assms(3) ReadFront [of R L b] ReadBack [of R L b] in blast)+
qed

lemma fetch_run_grows:
  assumes "rtranclp (fetch_run R L we s e) (b0, pc0) (b, pc)" and "lb_inv b0"
  shows "lb_inv b \<and> prefix (elements b0) (elements b)"
  using assms
proof (induction rule: fetch_run_induct)
  case (step b1 pc1 b2 pc2)
  then have inv: "lb_inv b1" and pre: "prefix (elements b0) (elements b1)" by auto
  from step.hyps(2) show ?case
  proof (cases rule: fetch_run_cases)
    case (Arrives x ok)
    then show ?thesis using write_elements [OF inv, of x] pre prefix_order.trans by fastforce
  qed (use inv pre in simp)
qed simp

lemma window_reachable_prefix: "prefix xs ys \<Longrightarrow> xs \<noteq> [] \<Longrightarrow> window_reachable R s xs \<Longrightarrow> window_reachable R s ys"
  by (auto simp: window_reachable_def prefix_def)

lemma uniform_span_prefix: "prefix xs ys \<Longrightarrow> uniform_span R ys \<Longrightarrow> uniform_span R xs"
  by (auto simp: uniform_span_def prefix_def)

lemma fetch_run_ok:
  assumes "rtranclp (fetch_run R L we s e) (b0, pc0) (b, pc)" and "fetch_ok R L lb_inv elements lb_pos s e xs0 b0 pc0"
    and ne: "xs0 \<noteq> []" and "search_ready we (elements b)" and "uniform_span R (elements b)" and w: "window_reachable R s xs0"
  shows "fetch_ok R L lb_inv elements lb_pos s e xs0 b pc"
  using assms(1,2,4,5)
proof (induction rule: fetch_run_induct)
  case (step b1 pc1 b2 pc2)
  have inv0: "lb_inv b0" and pre0: "prefix xs0 (elements b0)"
    using step.prems(1) prefix_order.trans by (auto simp: fetch_ok_def)
  have grown: "lb_inv b1" "prefix xs0 (elements b1)" "prefix (elements b1) (elements b2)"
    using fetch_run_grows [OF step.hyps(1) inv0] fetch_run_grows [OF r_into_rtranclp, OF step.hyps(2)] pre0
      prefix_order.trans by blast+
  have ne1: "elements b1 \<noteq> []" using grown(2) ne by (auto simp: prefix_def)
  have facts: "search_ready we (elements b1)" "uniform_span R (elements b1)" "window_reachable R s (elements b1)"
    using ready_prefix [OF step.prems(2) grown(3) ne1] uniform_span_prefix [OF grown(3) step.prems(3)]
      window_reachable_prefix [OF grown(2) ne w] by auto
  have ok: "fetch_ok R L lb_inv elements lb_pos s e xs0 b1 pc1" using step.IH step.prems(1) facts by blast
  from step.hyps(2) show ?case
  proof (cases rule: fetch_run_cases)
    case (Arrives x ok')
    then show ?thesis using grow_fetched [OF ok Arrives(2) ne] by simp
  next
    case Fetches
    then show ?thesis using fetch_step_fetched [OF Fetches(2) ok ne facts] by simp
  qed
qed

text \<open>An answer that the window was found is the answer of a request without interruption, at the end.\<close>

lemma window_pieces_covered:
  assumes srt: "ts_sorted R (ys @ ws)" and e: "ys \<noteq> []" "e \<le> get_timestamp R (last ys)"
  shows "window_pieces R s e (ys @ ws) = window_pieces R s e ys"
proof -
  have "\<not> get_timestamp R x < e" if "x \<in> set ws" for x
  proof -
    have "get_timestamp R (last ys) < get_timestamp R x"
      using srt e(1) that by (auto simp: ts_sorted_def sorted_wrt_append)
    then show ?thesis using e(2) by simp
  qed
  then have "window_pieces R s e ws = []" by (auto simp: window_pieces_def filter_empty_conv)
  then show ?thesis by (simp add: window_pieces_append)
qed

lemma found_is_final:
  assumes pre: "prefix xs0 ys" "prefix ys zs" "prefix zs (elements b)" and ne: "xs0 \<noteq> []"
    and code: "coverage_code R s e ys = kFound" and inv: "lb_inv b"
    and ready: "search_ready (has_error ''MISSING_FRAMES'' reg) (elements b)" and uni: "uniform_span R (elements b)"
    and w: "window_reachable R s (elements b)"
  shows "get_fragment_pieces R L reg b s e rc = Some (Inr (kFound, window_pieces R s e zs))"
proof -
  obtain vs ws where zs: "zs = ys @ vs" and els: "elements b = ys @ vs @ ws" using pre by (auto simp: prefix_def)
  have ne': "ys \<noteq> []" using pre(1) ne by (auto simp: prefix_def)
  have srt: "ts_sorted R (ys @ vs @ ws)" using ready_sorted [OF ready] els by simp
  have e: "e \<le> get_timestamp R (last ys)" "s \<le> get_timestamp R (last ys)" "get_timestamp R (hd ys) \<le> e"
    using code by (auto simp: coverage_code_def split: if_split_asm)
  have "window_pieces R s e (elements b) = window_pieces R s e zs"
    using window_pieces_covered [OF srt ne' e(1)] window_pieces_covered [of ys vs] srt ne' e(1) els zs
    by (simp add: ts_sorted_def sorted_wrt_append)
  moreover have "get_timestamp R (last ys) \<le> get_timestamp R (last (elements b))"
    using ts_sorted_le_last [OF srt, of "last ys"] ne' els by simp
  then have "coverage_code R s e (elements b) = kFound"
    using e ne' els by (auto simp: coverage_code_def)
  ultimately show ?thesis
    using get_fragment_pieces_reachable [OF inv ready _ uni w] ne' els by simp
qed

end

section \<open>A request without interruption\<close>

lemma gather_steps:
  assumes run: "gather_pieces R L b s e i acc = Some (Inr ps)"
  shows "rtranclp (fetch_step R L we s e b) (Gathering rc i acc) (Answered rc ps)"
proof -
  have "(R, L, b, s, e) = (R, L, b, s, e) \<longrightarrow> Inr ps = (Inr ps :: fault + _) \<longrightarrow>
        rtranclp (fetch_step R L we s e b) (Gathering rc i acc) (Answered rc ps)"
  proof (rule gather_pieces.raw_induct [where P = "\<lambda>R' L' b' s' e' i acc y. (R', L', b', s', e') = (R, L, b, s, e) \<longrightarrow>
        y = Inr ps \<longrightarrow> rtranclp (fetch_step R L we s e b) (Gathering rc i acc) (Answered rc ps)", OF _ run], intro impI)
    fix f R' L' b' s' e' i acc y
    assume IH: "\<And>R' L' b' s' e' i acc y. f R' L' b' s' e' i acc = Some y \<Longrightarrow> (R', L', b', s', e') = (R, L, b, s, e) \<longrightarrow>
          y = Inr ps \<longrightarrow> rtranclp (fetch_step R L we s e b) (Gathering rc i acc) (Answered rc ps)"
      and body: "(if \<not> it_good L' b' i then Some (Inr acc)
         else case it_deref L' b' i of Inl f \<Rightarrow> Some (Inl f)
              | Inr x \<Rightarrow> if get_timestamp R' x < e'
                  then f R' L' b' s' e' (it_next L' b' i) (acc @ element_pieces R' s' e' x) else Some (Inr acc)) = Some y"
      and eq: "(R', L', b', s', e') = (R, L, b, s, e)" and y: "y = Inr ps"
    show "rtranclp (fetch_step R L we s e b) (Gathering rc i acc) (Answered rc ps)"
    proof (cases "it_good L b i")
      case True
      then obtain x where x: "it_deref L b i = Inr x" using body eq y by (cases "it_deref L b i") auto
      show ?thesis
      proof (cases "get_timestamp R x < e")
        case less: True
        let ?acc = "acc @ element_pieces R s e x"
        have "f R L b s e (it_next L b i) ?acc = Some y" using body eq x True less by simp
        then have "rtranclp (fetch_step R L we s e b) (Gathering rc (it_next L b i) ?acc) (Answered rc ps)" using IH y by blast
        then have "rtranclp (fetch_step R L we s e b) (Handled rc i ?acc) (Answered rc ps)"
          using converse_rtranclp_into_rtranclp [of "fetch_step R L we s e b", OF Advance] by blast
        then show ?thesis
          using converse_rtranclp_into_rtranclp [of "fetch_step R L we s e b", OF Handle [OF True x less]] by blast
      next
        case False
        then show ?thesis using body eq x True y Behind [OF True x False] by auto
      qed
    next
      case False
      then show ?thesis using body eq y Exhausted [OF False] by auto
    qed
  qed
  then show ?thesis by simp
qed

lemma get_fragment_pieces_steps:
  assumes run: "get_fragment_pieces R L reg b s e rc0 = Some (Inr (rc, ps))"
  shows "rtranclp (fetch_step R L (has_error ''MISSING_FRAMES'' reg) s e b) Starting (Answered rc ps)"
proof -
  let ?step = "fetch_step R L (has_error ''MISSING_FRAMES'' reg) s e b"
  obtain f n where fn: "front_timestamp R L b = Inr f" "back_timestamp R L b = Inr n"
    using run by (auto simp: get_fragment_pieces_def bindE_def split: sum.split_asm)
  have to: "rtranclp ?step Starting (Answered rc ps)" if "rtranclp ?step (BothRead f n) (Answered rc ps)"
    using that ReadFront [OF fn(1)] ReadBack [OF fn(2)] by (meson converse_rtranclp_into_rtranclp)
  consider "n < s" | "\<not> n < s" "e < f" | "\<not> n < s" "\<not> e < f" by blast
  then show ?thesis
  proof cases
    case 3
    obtain i where i: "lb_lower_bound L (request_element R s) (has_error ''MISSING_FRAMES'' reg) b = Some (Inr i)"
      using run fn 3 by (auto simp: get_fragment_pieces_def split: option.split_asm sum.split_asm)
    note found = Search [OF 3 i]
    show ?thesis
    proof (cases "it_good L b i")
      case True
      let ?rc = "if e > n then kPartial else if s < f then kPartiallyOld else kFound"
      have "gather_pieces R L b s e i [] = Some (Inr ps)" "rc = ?rc"
        using run fn 3 i True by (auto simp: get_fragment_pieces_def Let_def split: option.split_asm sum.split_asm)
      then show ?thesis using to found Present [OF True refl] gather_steps by (meson converse_rtranclp_into_rtranclp)
    next
      case False
      then have "rc = kNotFound" "ps = []" using run fn 3 i by (auto simp: get_fragment_pieces_def)
      then show ?thesis using to found Missing [OF False] by (meson converse_rtranclp_into_rtranclp rtranclp.rtrancl_refl)
    qed
  next
    case 1
    then show ?thesis using run fn to [OF r_into_rtranclp] TooEarly [of n s R L _ e b f] by (auto simp: get_fragment_pieces_def)
  next
    case 2
    then show ?thesis using run fn to [OF r_into_rtranclp] TooLate [of n s e f R L _ b] by (auto simp: get_fragment_pieces_def)
  qed
qed

section \<open>The queue models\<close>

lemma fixed_rate_prefix:
  assumes fr: "fixed_rate R xs" and pre: "prefix ys xs" and ne: "ys \<noteq> []"
  shows "fixed_rate R ys"
proof -
  obtain zs where zs: "xs = ys @ zs" using pre by (auto simp: prefix_def)
  have hd: "hd xs = hd ys" "element_span R xs = element_span R ys" using zs ne by (simp_all add: element_span_def)
  have bound: "unat (get_timestamp R (hd ys)) + length xs * element_span R ys < 2 ^ 64" using fr hd by (simp add: fixed_rate_def)
  have "length ys * element_span R ys \<le> length xs * element_span R ys" using zs by (intro mult_le_mono1) simp
  then have "unat (get_timestamp R (hd ys)) + length ys * element_span R ys < 2 ^ 64"
    using bound by linarith
  moreover have "unat (get_timestamp R (ys ! k)) = unat (get_timestamp R (hd ys)) + k * element_span R ys"
    if "k < length ys" for k
    using fr that zs hd by (auto simp: fixed_rate_def nth_append dest!: spec [of _ k])
  ultimately show ?thesis using fr hd ne unfolding fixed_rate_def by auto
qed

lemma ts_sorted_prefix: "ts_sorted R xs \<Longrightarrow> prefix ys xs \<Longrightarrow> ts_sorted R ys"
  by (auto simp: ts_sorted_def prefix_def sorted_wrt_append)

lemma binary_search_growing:
  assumes "readout_order R"
  shows "growing_searchable (BinarySearchQueueModel R) queue_inv contents queue_pos R (\<lambda>_. ts_sorted R)"
proof (intro growing_searchable.intro growing_searchable_axioms.intro)
  show "searchable_buffer (BinarySearchQueueModel R) queue_inv contents queue_pos R (\<lambda>_. ts_sorted R)"
    by (rule forward_searchable_buffer.axioms(1) [OF readout_order.binary_search_provides [OF assms]])
  show "growing_buffer (BinarySearchQueueModel R) queue_inv contents queue_pos"
    unfolding BinarySearchQueueModel_def by (rule concurrent_queue.growing_buffer_axioms)
qed (auto simp: BinarySearchQueueModel_def queue_lb_ops_def intro: ts_sorted_prefix)

lemma fixed_rate_growing:
  assumes "readout_order R"
  shows "growing_searchable (FixedRateQueueModel R) queue_inv contents queue_pos R (fixed_rate_ready R)"
proof (intro growing_searchable.intro growing_searchable_axioms.intro)
  show "searchable_buffer (FixedRateQueueModel R) queue_inv contents queue_pos R (fixed_rate_ready R)"
    by (rule forward_searchable_buffer.axioms(1) [OF readout_order.fixed_rate_provides [OF assms]])
  show "growing_buffer (FixedRateQueueModel R) queue_inv contents queue_pos"
    unfolding FixedRateQueueModel_def by (rule concurrent_queue.growing_buffer_axioms)
qed (auto simp: FixedRateQueueModel_def queue_lb_ops_def fixed_rate_ready_def intro: ts_sorted_prefix fixed_rate_prefix)

interpretation dummy_growing: growing_searchable "BinarySearchQueueModel (dummy_ops tick)" queue_inv contents queue_pos
  "dummy_ops tick" "\<lambda>_. ts_sorted (dummy_ops tick)"
  by (rule binary_search_growing [OF dummy.readout_order_axioms])

section \<open>The property\<close>



end
