(* ===== verification/Handler_Stream.thy ===== *)
theory Handler_Stream
  imports Handler_Typing
begin

text \<open>
  What the latency buffer of a running data handler holds. The state is paired with the stream of
  the elements that were accepted since the buffer was last emptied; however the threads interleave,
  the buffer holds the newest part of that stream, so that requests are answered from what was
  received.
\<close>

section \<open>The stream of accepted elements\<close>

text \<open>The element is accepted when the write into the buffer says so.\<close>

definition accepted :: "('b, 'a, 'i) lb_ops \<Rightarrow> 'a \<Rightarrow> ('b, 'q, 'a, 'f) data_handler \<Rightarrow> 'a list" where
  "accepted L x s =
     (case lb_write L (preprocessed s x) (latency_buffer_impl s) of
        Inr (True, b) \<Rightarrow> [preprocessed s x]
      | _ \<Rightarrow> [])"

fun accepted_items ::
  "'a readout_ops \<Rightarrow> ('b, 'a, 'i) lb_ops \<Rightarrow> ('q, 'a option) pcq_ops \<Rightarrow> 'a list \<Rightarrow> ('b, 'q, 'a, 'f) data_handler \<Rightarrow> 'a list"
where
  "accepted_items R L P [] s = []"
| "accepted_items R L P (x # xs) s =
     accepted L x s @ (case process_item R L P x s of Inr s' \<Rightarrow> accepted_items R L P xs s' | Inl f \<Rightarrow> [])"

definition accepted_round ::
  "'a readout_ops \<Rightarrow> ('b, 'a, 'i) lb_ops \<Rightarrow> ('q, 'a option) pcq_ops \<Rightarrow> 'a list option \<Rightarrow>
   ('b, 'q, 'a, 'f) data_handler \<Rightarrow> 'a list" where
  "accepted_round R L P received s = (case received of Some items \<Rightarrow> accepted_items R L P items s | None \<Rightarrow> [])"

text \<open>The operations of all threads, with the stream.\<close>

inductive history_step ::
  "'a readout_ops \<Rightarrow> ('b, 'a, 'i) lb_ops \<Rightarrow> ('q, 'a option) pcq_ops \<Rightarrow> ('a, 'f) daq_env \<Rightarrow> file_env \<Rightarrow> ('b \<Rightarrow> fault + 'b) \<Rightarrow>
   ('b, 'q, 'a, 'f) data_handler \<times> 'a list \<Rightarrow> ('b, 'q, 'a, 'f) data_handler \<times> 'a list \<Rightarrow> bool"
  for R L P D fenv scrap_buffer where
  Consumed: "consumer_running s \<Longrightarrow> consume_round R L P now received (c, s) = Some (Inr (c', s')) \<Longrightarrow>
     history_step R L P D fenv scrap_buffer (s, xs) (s', xs @ accepted_round R L P received s)"
| CalledBack: "callback_mode s \<Longrightarrow> consume_payload R L P x s = Inr s' \<Longrightarrow>
     history_step R L P D fenv scrap_buffer (s, xs) (s', xs @ accepted L x s)"
| Stopped: "rh_threads_done (request_handler_impl s) \<Longrightarrow> stop_dh L P s = Inr s' \<Longrightarrow> history_step R L P D fenv scrap_buffer (s, xs) (s', [])"
| Scrapped: "scrap_dh fenv scrap_buffer s = Inr s' \<Longrightarrow> history_step R L P D fenv scrap_buffer (s, xs) (s', [])"
| Handled: "handler_step R L P D fenv s s' \<Longrightarrow> history_step R L P D fenv scrap_buffer (s, xs) (s', xs)"

text \<open>The stream only observes: the steps are those of the handler.\<close>

lemma history_step_dh:
  "history_step R L P D fenv scrap_buffer (s, xs) (s', xs') \<Longrightarrow> dh_step R L P D fenv scrap_buffer s s'"
  by (erule history_step.cases) (auto intro: dh_step.intros)

lemma dh_step_history:
  "dh_step R L P D fenv scrap_buffer s s' \<Longrightarrow> \<exists>xs'. history_step R L P D fenv scrap_buffer (s, xs) (s', xs')"
  by (erule dh_step.cases) (blast intro: history_step.intros)+

lemma history_steps_dh:
  assumes "rtranclp (history_step R L P D fenv scrap_buffer) (s, xs) (s', xs')"
  shows "rtranclp (dh_step R L P D fenv scrap_buffer) s s'"
  using assms
proof (induction "(s', xs')" arbitrary: s' xs' rule: rtranclp_induct)
  case (step t)
  obtain s1 xs1 where "t = (s1, xs1)" by fastforce
  then show ?case using step by (auto dest: history_step_dh)
qed simp

section \<open>Receiving appends what is accepted\<close>

context fifo_buffer
begin

lemma store_item_accepts:
  assumes "lb_inv (latency_buffer_impl s)" and "store_item R L x s = Inr s'"
  shows "lb_inv (latency_buffer_impl s') \<and>
         elements (latency_buffer_impl s') = elements (latency_buffer_impl s) @ accepted L x s"
proof -
  obtain x' reg where pre: "preprocess_item (raw_processor_impl s) (x, error_registry (request_handler_impl s)) = (x', reg)"
    by fastforce
  then have x': "preprocessed s x = x'" by (simp add: preprocessed_def)
  obtain ok b where b: "lb_write L x' (latency_buffer_impl s) = Inr (ok, b)" "lb_inv b"
      "elements b = (if ok then elements (latency_buffer_impl s) @ [x'] else elements (latency_buffer_impl s))"
    using write_elements [OF assms(1), of x'] by blast
  then show ?thesis
    using assms(2) pre x' by (auto simp: store_item_def accepted_def dh_emit_def Let_def split: if_splits)
qed

lemma process_item_accepts:
  assumes "lb_inv (latency_buffer_impl s)"
  shows "process_item R L P x s = Inr s' \<Longrightarrow> lb_inv (latency_buffer_impl s') \<and>
           elements (latency_buffer_impl s') = elements (latency_buffer_impl s) @ accepted L x s"
    and "consume_payload R L P x s = Inr s' \<Longrightarrow> lb_inv (latency_buffer_impl s') \<and>
           elements (latency_buffer_impl s') = elements (latency_buffer_impl s) @ accepted L x s"
  using store_item_accepts [OF assms]
  by (auto simp: process_item_def consume_payload_def bindE_eq_Inr_iff split: if_split_asm)

lemma process_items_accepts:
  "process_items R L P xs s = Inr s' \<Longrightarrow> lb_inv (latency_buffer_impl s) \<Longrightarrow> lb_inv (latency_buffer_impl s') \<and>
   elements (latency_buffer_impl s') = elements (latency_buffer_impl s) @ accepted_items R L P xs s"
proof (induction xs arbitrary: s)
  case (Cons x xs)
  then obtain s1 where s1: "process_item R L P x s = Inr s1" "process_items R L P xs s1 = Inr s'"
    by (auto simp: bindE_eq_Inr_iff)
  with Cons.IH [OF s1(2)] process_item_accepts(1) [OF Cons.prems(2) s1(1)] show ?case by simp
qed simp

text \<open>A cleanup takes elements from the front only, and never the last one.\<close>

lemma pop_loop_suffix:
  "pop_loop R L t n popped b = Inr (count, b') \<Longrightarrow> lb_inv b \<Longrightarrow> lb_inv b' \<and> (\<exists>k. elements b' = drop k (elements b))"
proof (induction n arbitrary: b popped)
  case 0
  then show ?case by (auto intro: exI [of _ 0])
next
  case (Suc n)
  show ?case
  proof (cases "count = popped \<and> b' = b")
    case False
    then obtain b1 where b1: "lb_pop L 1 b = Inr b1" "pop_loop R L t n (popped + 1) b1 = Inr (count, b')"
      using Suc.prems(1) by (auto simp: bindE_eq_Inr_iff split: if_split_asm)
    then have "lb_inv b1 \<and> elements b1 = drop 1 (elements b)"
      using pop_elements [OF Suc.prems(2), of 1] pop_too_many [OF Suc.prems(2), of 1]
      by (cases "elements b") auto
    then show ?thesis using Suc.IH [OF b1(2)] by auto
  qed (use Suc.prems in \<open>auto intro: exI [of _ 0]\<close>)
qed

lemma cleanup_suffix:
  assumes "cleanup_check R L (b, h) = Inr (b', h')" and "lb_inv b"
  shows "\<exists>k. elements b' = drop k (elements b) \<and> (elements b \<noteq> [] \<longrightarrow> elements b' \<noteq> [])"
proof (cases "b' = b")
  case False
  then obtain t n count ts where "pop_loop R L t n 0 b = Inr (count, b')" "front_timestamp R L b' = Inr ts"
    using assms(1) by (auto simp: cleanup_check_def cleanup_rh_def bindE_eq_Inr_iff Let_def split: if_split_asm prod.split_asm)
  moreover from pop_loop_suffix [OF this(1) assms(2)] have "lb_inv b' \<and> (\<exists>k. elements b' = drop k (elements b))" .
  moreover have "elements b' \<noteq> []" using calculation(2,3) front_elements [of b'] by (auto simp: front_timestamp_def)
  ultimately show ?thesis by blast
qed (auto intro: exI [of _ 0])

end

section \<open>The invariant\<close>

text \<open>The handler is well-formed, and the buffer holds the newest part of the stream.\<close>

definition history_inv ::
  "('q \<Rightarrow> bool) \<Rightarrow> ('a iterable_queue, 'q, 'a, 'f) data_handler \<times> 'a list \<Rightarrow> bool" where
  "history_inv pcq_inv = (\<lambda>(s, xs). dh_ok pcq_inv s \<and>
     (\<exists>k. contents (latency_buffer_impl s) = drop k xs \<and> (xs \<noteq> [] \<longrightarrow> k < length xs)))"

text \<open>Post-processing leaves the buffer alone.\<close>

lemma post_all_buffer [simp]: "latency_buffer_impl (post_all P xs s) = latency_buffer_impl s"
  by (induction xs arbitrary: s) simp_all

context pointer_queues
begin

lemma deferred_buffer:
  assumes "deferred_postprocess R L P now (c, s) = Some (Inr (c', s'))"
  shows "latency_buffer_impl s' = latency_buffer_impl s"
proof -
  have "s' = s \<or> (\<exists>i j. post_range L P i j s = Some (Inr s'))"
    using assms by (auto simp: deferred_postprocess_def Let_def split: if_split_asm option.split_asm sum.split_asm)
  then show ?thesis using post_range_all by fastforce
qed

lemma consume_round_accepts:
  assumes "consume_round R (queue_lb_ops search) P now received (c, s) = Some (Inr (c', s'))"
    and "queue_inv (latency_buffer_impl s)"
  shows "contents (latency_buffer_impl s') =
         contents (latency_buffer_impl s) @ accepted_round R (queue_lb_ops search) P received s"
  using assms
  by (auto simp: consume_round_def accepted_round_def split: if_split_asm option.split_asm sum.split_asm
      dest!: deferred_buffer dest: queue.process_items_accepts)

lemma handler_step_suffix:
  assumes step: "handler_step R (queue_lb_ops search) P D fenv s s'" and inv: "queue_inv (latency_buffer_impl s)"
  shows "\<exists>k. contents (latency_buffer_impl s') = drop k (contents (latency_buffer_impl s)) \<and>
           (contents (latency_buffer_impl s) \<noteq> [] \<longrightarrow> contents (latency_buffer_impl s') \<noteq> [])"
proof -
  consider (same) "latency_buffer_impl s' = latency_buffer_impl s"
    | (cleaned) b' h' where "cleanup_check R (queue_lb_ops search) (latency_buffer_impl s, request_handler_impl s) = Inr (b', h')"
        "latency_buffer_impl s' = b'"
    using step
    by cases (auto simp: start_dh_def dispatch_requests_def dh_emit_def count_request_def opmon_dh_def timesync_round_def
        bindE_eq_Inr_iff Let_def split: if_splits)
  then show ?thesis
  proof cases
    case cleaned
    then show ?thesis using queue.cleanup_suffix [OF cleaned(1) inv] by simp
  qed (auto intro: exI [of _ 0])
qed

lemma history_inv_append:
  assumes "history_inv pcq_inv (s, xs)" and "dh_ok pcq_inv s'"
    and "contents (latency_buffer_impl s') = contents (latency_buffer_impl s) @ ys"
  shows "history_inv pcq_inv (s', xs @ ys)"
proof -
  obtain k where k: "contents (latency_buffer_impl s) = drop k xs" "xs \<noteq> [] \<longrightarrow> k < length xs"
    using assms(1) by (auto simp: history_inv_def)
  show ?thesis
  proof (cases "xs = []")
    case True
    then show ?thesis using assms(2,3) k(1) by (auto simp: history_inv_def intro: exI [of _ 0])
  next
    case False
    then show ?thesis using assms(2,3) k by (auto simp: history_inv_def intro!: exI [of _ k])
  qed
qed

lemma history_inv_drop:
  assumes "history_inv pcq_inv (s, xs)" and "dh_ok pcq_inv s'"
    and "contents (latency_buffer_impl s') = drop j (contents (latency_buffer_impl s))"
    and "contents (latency_buffer_impl s) \<noteq> [] \<longrightarrow> contents (latency_buffer_impl s') \<noteq> []"
  shows "history_inv pcq_inv (s', xs)"
proof -
  obtain k where k: "contents (latency_buffer_impl s) = drop k xs" "xs \<noteq> [] \<longrightarrow> k < length xs"
    using assms(1) by (auto simp: history_inv_def)
  then have "contents (latency_buffer_impl s') = drop (j + k) xs" "xs \<noteq> [] \<longrightarrow> j + k < length xs"
    using assms(3,4) by auto
  then show ?thesis using assms(2) by (auto simp: history_inv_def)
qed

lemma history_step_inv:
  assumes step: "history_step R (queue_lb_ops search) P D fenv scrap_buffer (s, xs) (s', xs')"
    and inv: "history_inv pcq_inv (s, xs)"
    and scrap: "\<And>b b'. scrap_buffer b = Inr b' \<Longrightarrow> queue_inv b' \<and> contents b' = []"
  shows "history_inv pcq_inv (s', xs')"
proof -
  have ok: "dh_ok pcq_inv s" and q: "queue_inv (latency_buffer_impl s)" using inv by (auto simp: history_inv_def dh_ok_def)
  have ok': "dh_ok pcq_inv s'" using dh_step_ok [OF history_step_dh [OF step] ok] scrap by blast
  have empty: "history_inv pcq_inv (s', [])" if "contents (latency_buffer_impl s') = []"
    using that ok' by (simp add: history_inv_def)
  show ?thesis
    using step
  proof cases
    case (Consumed now received c c')
    then show ?thesis using history_inv_append [OF inv ok' consume_round_accepts [OF Consumed(3) q]] by simp
  next
    case (CalledBack x)
    then show ?thesis using history_inv_append [OF inv ok'] queue.process_item_accepts(2) [OF q CalledBack(3)] by simp
  next
    case Stopped
    then show ?thesis using empty queue.flush_elements [OF q, of search]
      by (auto simp: stop_dh_def bindE_eq_Inr_iff Let_def split: if_splits)
  next
    case Scrapped
    then show ?thesis using empty scrap by (auto simp: scrap_dh_def bindE_eq_Inr_iff Let_def)
  next
    case Handled
    obtain j where "contents (latency_buffer_impl s') = drop j (contents (latency_buffer_impl s))"
        "contents (latency_buffer_impl s) \<noteq> [] \<longrightarrow> contents (latency_buffer_impl s') \<noteq> []"
      using handler_step_suffix [OF Handled(2) q] by blast
    then show ?thesis using history_inv_drop [OF inv ok'] Handled(1) by simp
  qed
qed

lemma history_steps_inv:
  assumes steps: "rtranclp (history_step R (queue_lb_ops search) P D fenv scrap_buffer) (s, xs) (s', xs')"
    and inv: "history_inv pcq_inv (s, xs)"
    and scrap: "\<And>b b'. scrap_buffer b = Inr b' \<Longrightarrow> queue_inv b' \<and> contents b' = []"
  shows "history_inv pcq_inv (s', xs')"
  using steps
proof (induction "(s', xs')" arbitrary: s' xs' rule: rtranclp_induct)
  case (step t)
  obtain s1 xs1 where t: "t = (s1, xs1)" by fastforce
  show ?case using history_step_inv [OF step.hyps(2) [unfolded t] step.hyps(3) [OF t] scrap] .
qed (rule inv)

end

section \<open>Which items are accepted\<close>

text \<open>A queue accepts items until it is full.\<close>

lemma write_q_verdict:
  assumes "queue_inv q"
  shows "\<exists>q'. write_q x q = Inr (stored q + 1 < unat (qsize q), q') \<and> qsize q' = qsize q"
proof (cases "stored q + 1 < unat (qsize q)")
  case True
  then show ?thesis using write_q_room [OF assms True, of x] by (auto simp: same_config_def)
next
  case False
  then have "stored q + 1 = unat (qsize q)" using stored_less_size [OF assms] by simp
  then show ?thesis using write_q_no_room [OF assms, of x] by simp
qed

lemma accepted_queue:
  "queue_inv (latency_buffer_impl s) \<Longrightarrow>
   accepted (queue_lb_ops search) x s =
     (if stored (latency_buffer_impl s) + 1 < unat (qsize (latency_buffer_impl s)) then [preprocessed s x] else [])"
  using write_q_verdict [of "latency_buffer_impl s" "preprocessed s x"] by (auto simp: accepted_def queue_lb_ops_def)

lemma store_item_frame:
  assumes inv: "queue_inv (latency_buffer_impl s)" and run: "store_item R (queue_lb_ops search) x s = Inr s'"
  shows "qsize (latency_buffer_impl s') = qsize (latency_buffer_impl s) \<and> raw_processor_impl s' = raw_processor_impl s \<and>
         request_handler_impl s' = (request_handler_impl s)\<lparr>error_registry :=
           snd (preprocess_item (raw_processor_impl s) (x, error_registry (request_handler_impl s)))\<rparr>"
proof -
  obtain x' reg where pre: "preprocess_item (raw_processor_impl s) (x, error_registry (request_handler_impl s)) = (x', reg)"
    by fastforce
  obtain ok q' where "write_q x' (latency_buffer_impl s) = Inr (ok, q')" "qsize q' = qsize (latency_buffer_impl s)"
    using write_q_verdict [OF inv, of x'] by blast
  then show ?thesis
    using run pre by (auto simp: store_item_def queue_lb_ops_def dh_emit_def Let_def split: if_splits)
qed

lemma post_frame [simp]:
  "request_handler_impl (post_pointer P ptr s) = request_handler_impl s"
  "request_handler_impl (count_payload s) = request_handler_impl s"
  by (simp_all add: post_pointer_def count_payload_def)

definition item_frame :: "'a \<Rightarrow> ('a iterable_queue, 'q, 'a, 'f) data_handler \<Rightarrow> ('a iterable_queue, 'q, 'a, 'f) data_handler \<Rightarrow> bool"
where
  "item_frame x s s' \<longleftrightarrow>
     qsize (latency_buffer_impl s') = qsize (latency_buffer_impl s) \<and>
     preprocess_functions (raw_processor_impl s') = preprocess_functions (raw_processor_impl s) \<and>
     request_handler_impl s' = (request_handler_impl s)\<lparr>error_registry :=
       snd (preprocess_item (raw_processor_impl s) (x, error_registry (request_handler_impl s)))\<rparr>"

lemma process_item_frame:
  assumes "queue_inv (latency_buffer_impl s)"
  shows "process_item R (queue_lb_ops search) P x s = Inr s' \<Longrightarrow> item_frame x s s'"
    and "consume_payload R (queue_lb_ops search) P x s = Inr s' \<Longrightarrow> item_frame x s s'"
  using store_item_frame [OF assms]
  by (auto simp: process_item_def consume_payload_def item_frame_def bindE_eq_Inr_iff split: if_split_asm)

context pointer_queues
begin

lemma accepted_items_fit:
  "dh_ok pcq_inv s \<Longrightarrow>
   accepted_items R (queue_lb_ops search) P xs s =
     take (unat (qsize (latency_buffer_impl s)) - 1 - stored (latency_buffer_impl s))
       (fst (preprocess_stream (raw_processor_impl s) (error_registry (request_handler_impl s)) xs))"
proof (induction xs arbitrary: s)
  case (Cons x xs)
  let ?q = "latency_buffer_impl s" and ?p = "raw_processor_impl s"
  define room where "room = unat (qsize ?q) - 1 - stored ?q"
  have inv: "queue_inv ?q" using Cons.prems by (simp add: dh_ok_def)
  obtain x' reg where pre: "preprocess_item ?p (x, error_registry (request_handler_impl s)) = (x', reg)" by fastforce
  obtain s1 where s1: "process_item R (queue_lb_ops search) P x s = Inr s1" "dh_ok pcq_inv s1"
    using process_item_ok(1) [OF Cons.prems, of R search x] by blast
  note frame = process_item_frame(1) [OF inv s1(1), unfolded item_frame_def]
  have a: "accepted (queue_lb_ops search) x s = (if room = 0 then [] else [x'])"
    unfolding accepted_queue [OF inv] using pre by (auto simp: preprocessed_def room_def)
  have c: "contents (latency_buffer_impl s1) = contents ?q @ accepted (queue_lb_ops search) x s"
    using queue.process_item_accepts(1) [OF inv s1(1)] by blast
  have "length (contents (latency_buffer_impl s1)) = length (contents ?q) + (if room = 0 then 0 else 1)"
    unfolding c a by (simp del: length_contents)
  then have "stored (latency_buffer_impl s1) = stored ?q + (if room = 0 then 0 else 1)" by (simp only: length_contents)
  then have "unat (qsize (latency_buffer_impl s1)) - 1 - stored (latency_buffer_impl s1) = room - 1"
    using frame by (simp add: room_def)
  moreover have "preprocess_stream (raw_processor_impl s1) reg xs = preprocess_stream ?p reg xs"
    by (rule preprocess_stream_cong) (use frame in simp)
  ultimately have "accepted_items R (queue_lb_ops search) P xs s1 = take (room - 1) (fst (preprocess_stream ?p reg xs))"
    using Cons.IH [OF s1(2)] frame pre by simp
  then show ?case
    unfolding room_def [symmetric] using pre s1(1) a by (cases room) (simp_all split: prod.split)
qed simp

end

section \<open>A handler of dummy frames\<close>

text \<open>An empty buffer of eight slots.\<close>

definition empty_ring :: "dummy_frame iterable_queue" where
  "empty_ring = (default_queue plain_env)\<lparr>qsize := 8, records := Region StdMalloc (replicate 8 None)\<rparr>"

lemma empty_ring_inv: "queue_inv empty_ring" "contents empty_ring = []" "unat (qsize empty_ring) = 8"
  using fresh_queue_inv [of empty_ring StdMalloc] by (simp_all add: empty_ring_def default_queue_def)

text \<open>
  A handler with one connection for requests and one for raw data, without pre-processing functions,
  for concrete runs.
\<close>

definition init_sample :: "string \<Rightarrow> request_handler_conf \<Rightarrow>
    fault + (dummy_frame iterable_queue, dummy_frame option iterable_queue, dummy_frame, plain_fragment) data_handler" where
  "init_sample raw_uid conf =
     init_dh ring_pcq plain_daq sample_file_env (\<lambda>_. True)
       [\<lparr>conn_data_type = ''DataRequest'', conn_uid = ''requests''\<rparr>, \<lparr>conn_data_type = ''Frame'', conn_uid = raw_uid\<rparr>] []
       (Inr empty_ring) frames_queue (add_postprocess_task (new_raw_processor True)) 16 conf 0
       (new_data_handler 1 \<lparr>subsystem = 0, source_id = 0\<rparr> 0 0 frames_queue (new_raw_processor True) sample_handler 0)"

definition sample_conf :: "float32 \<Rightarrow> float32 \<Rightarrow> request_handler_conf" where
  "sample_conf limit_pct size_pct = plain_conf\<lparr>hc_pop_limit_pct := limit_pct, hc_pop_size_pct := size_pct\<rparr>"

lemma sample_queues:
  "items_to_postprocess_queues (add_postprocess_task (new_raw_processor True)) = []"
  "2 \<le> (16::u64) \<and> unat (16::u64) < 2 ^ 31" "alloc_succeeds plain_env StdMalloc 2"
  by (simp_all add: add_postprocess_task_def new_raw_processor_def plain_env_def)

lemmas sample_from_init = ring.bounded_fifo_axioms sample_queues(2,1)

definition fresh_sample :: "float32 \<Rightarrow> float32 \<Rightarrow>
    (dummy_frame iterable_queue, dummy_frame option iterable_queue, dummy_frame, plain_fragment) data_handler \<Rightarrow> bool" where
  "fresh_sample limit_pct size_pct s \<longleftrightarrow>
     dh_ok queue_inv s \<and> has_data_request_receiver s \<and> latency_buffer_impl s = empty_ring \<and>
     preprocess_functions (raw_processor_impl s) = [] \<and> posted (request_handler_impl s) = [] \<and>
     waiting_requests (request_handler_impl s) = [] \<and> sint (request_timeout_ms (request_handler_impl s)) = 100 \<and>
     pop_limit_size (request_handler_impl s) = of_nat (scaled_count limit_pct 8) \<and>
     pop_size_pct (request_handler_impl s) = size_pct \<and> next_timestamp_to_record (request_handler_impl s) = UINT64_MAX"

lemma init_sample_fresh:
  assumes "is_fraction p" and "is_fraction q" and raw: "raw_uid = ''raw_0'' \<or> raw_uid = ''cb_0''"
  shows "\<exists>s0. init_sample raw_uid (sample_conf p q) = Inr s0 \<and> fresh_sample p q s0 \<and>
              callback_mode s0 = (raw_uid = ''cb_0'') \<and> has_raw_data_receiver s0 = (raw_uid = ''raw_0'')"
proof -
  have "\<exists>s0. init_sample raw_uid (sample_conf p q) = Inr s0 \<and> callback_mode s0 = (raw_uid = ''cb_0'') \<and>
      has_raw_data_receiver s0 = (raw_uid = ''raw_0'') \<and> (dh_ok queue_inv s0 \<longrightarrow> fresh_sample p q s0)"
    using fraction_range [OF assms(1)] fraction_range [OF assms(2)] raw
    by (auto simp: init_sample_def sample_conf_def init_dh_def init_outputs_def conf_rh_def conf_recorder_def conf_auto_pop_def
        plain_conf_def new_request_handler_def Let_def new_data_handler_def conf_rp_def add_postprocess_task_def
        new_raw_processor_def fresh_sample_def)
  moreover have "dh_ok queue_inv s0" if "init_sample raw_uid (sample_conf p q) = Inr s0" for s0
    using that unfolding init_sample_def
    by (rule ring_pointers.init_dh_ok [OF _ empty_ring_inv(1) sample_queues(1,2)]) (simp_all add: new_data_handler_def)
  ultimately show ?thesis by blast
qed

lemma start_sample:
  assumes "fresh_sample p q s0"
  shows "\<exists>s1. start_dh 5 0 s0 = Inr s1 \<and> fresh_sample p q s1 \<and> has_request_callback s1 \<and>
              consumer_running s1 = (\<not> callback_mode s0) \<and> callback_mode s1 = callback_mode s0 \<and>
              has_raw_data_receiver s1 = has_raw_data_receiver s0 \<and> run_marker (request_handler_impl s1)"
proof -
  have ok: "dh_ok queue_inv s0" "has_data_request_receiver s0" using assms by (simp_all add: fresh_sample_def)
  obtain s1 where s1: "start_dh 5 0 s0 = Inr s1" using ring_pointers.start_dh_ok(1) [OF ok(1)] ok(2) by blast
  then show ?thesis
    using assms ring_pointers.start_dh_ok(2) [OF ok(1) s1]
    by (auto simp: fresh_sample_def start_dh_def start_rp_def start_rh_def bindE_eq_Inr_iff Let_def split: if_splits)
qed

text \<open>Receiving elements for which there is room, without pre-processing and post-processing delay.\<close>

lemma store_item_flags:
  "store_item R L x s = Inr s' \<Longrightarrow> consumer_running s' = consumer_running s \<and> has_raw_data_receiver s' = has_raw_data_receiver s"
  by (auto simp: store_item_def dh_emit_def bindE_eq_Inr_iff Let_def simp del: not_le split: if_split_asm prod.split_asm)

lemma process_item_flags:
  "process_item R L P x s = Inr s' \<Longrightarrow> consumer_running s' = consumer_running s \<and>
     has_raw_data_receiver s' = has_raw_data_receiver s"
  by (auto simp: process_item_def count_payload_def post_pointer_def bindE_eq_Inr_iff split: if_split_asm dest: store_item_flags)

lemma process_items_flags:
  "process_items R (queue_lb_ops search) P xs s = Inr s' \<Longrightarrow> queue_inv (latency_buffer_impl s) \<Longrightarrow>
   consumer_running s' = consumer_running s \<and> has_raw_data_receiver s' = has_raw_data_receiver s \<and>
   qsize (latency_buffer_impl s') = qsize (latency_buffer_impl s) \<and>
   preprocess_functions (raw_processor_impl s') = preprocess_functions (raw_processor_impl s)"
proof (induction xs arbitrary: s)
  case (Cons x xs)
  then obtain s1 where s1: "process_item R (queue_lb_ops search) P x s = Inr s1"
      "process_items R (queue_lb_ops search) P xs s1 = Inr s'" by (auto simp: bindE_eq_Inr_iff)
  have "queue_inv (latency_buffer_impl s1)" using queue.process_item_accepts(1) [OF Cons.prems(2) s1(1)] by blast
  then show ?case
    using Cons.IH [OF s1(2)] process_item_flags [OF s1(1)] process_item_frame(1) [OF Cons.prems(2) s1(1)]
    by (simp add: item_frame_def)
qed simp

lemma no_preprocessing: "preprocess_functions p = [] \<Longrightarrow> preprocess_stream p reg xs = (xs, reg)"
  by (induction xs) (simp_all add: preprocess_item_def)

context pointer_queues
begin

lemma plain_receive:
  assumes ok: "dh_ok pcq_inv s" and on: "has_raw_data_receiver s"
    and none: "preprocess_functions (raw_processor_impl s) = []"
    and room: "length (contents (latency_buffer_impl s)) + length xs < unat (qsize (latency_buffer_impl s))"
    and early: "\<not> (now - cl_last_post_proc_time c) div 1000000 > 1"
  shows "\<exists>s'. consume_round R (queue_lb_ops search) P now (Some xs) (c, s) = Some (Inr (c, s')) \<and>
           dh_ok pcq_inv s' \<and> contents (latency_buffer_impl s') = contents (latency_buffer_impl s) @ xs \<and>
           request_handler_impl s' = request_handler_impl s \<and> consumer_running s' = consumer_running s \<and>
           has_raw_data_receiver s' \<and> qsize (latency_buffer_impl s') = qsize (latency_buffer_impl s) \<and>
           preprocess_functions (raw_processor_impl s') = [] \<and>
           accepted_round R (queue_lb_ops search) P (Some xs) s = xs"
proof -
  have inv: "queue_inv (latency_buffer_impl s)" using ok by (simp add: dh_ok_def)
  have fits: "stored (latency_buffer_impl s) + length xs < unat (qsize (latency_buffer_impl s))" using room by simp
  obtain s' where s': "process_items R (queue_lb_ops search) P xs s = Inr s'"
      "contents (latency_buffer_impl s') = contents (latency_buffer_impl s) @ xs"
      "request_handler_impl s' = (request_handler_impl s)\<lparr>error_registry := error_registry (request_handler_impl s)\<rparr>"
    using process_items_room [OF inv fits no_preprocessing [OF none], of R search P] by blast
  have "consume_round R (queue_lb_ops search) P now (Some xs) (c, s) = Some (Inr (c, s'))"
    using on early by (simp add: consume_round_def deferred_postprocess_def s'(1) Let_def)
  moreover have "accepted_round R (queue_lb_ops search) P (Some xs) s = xs"
    unfolding accepted_round_def option.case accepted_items_fit [OF ok] no_preprocessing [OF none] using fits by simp
  ultimately show ?thesis
    using s' consume_round_ok [OF _ ok] process_items_flags [OF s'(1) inv] on none by force
qed

end

section \<open>The property\<close>

lemma scrap_q_empty:
  assumes "scrap_q env q = Inr q'" and "alloc_succeeds env StdMalloc 2"
  shows "queue_inv q' \<and> contents q' = []"
  using assms fresh_queue_inv(2) [of q' StdMalloc] scrap_q_inv [OF assms]
  by (auto simp: scrap_q_def bindE_eq_Inr_iff alloc_region_def)

lemma history_from_init:
  assumes q: "pointer_queues P pcq_inv elems valid_size" "valid_size n" "items_to_postprocess_queues processor = []"
    and b: "queue_inv b" "contents b = []" and mem: "alloc_succeeds env StdMalloc 2"
    and init: "init_dh P D fenv iom_ok inputs outputs (Inr b) broken processor n hconf delay
        (new_data_handler pid unset_id unset_run unset_delay no_buffer no_processor no_handler unset_t0) = Inr s0"
    and steps: "rtranclp (history_step R (queue_lb_ops search) P D fenv (scrap_q env)) (s0, []) (s, xs)"
  shows "history_inv pcq_inv (s, xs)"
proof (rule pointer_queues.history_steps_inv [OF q(1) steps])
  have "dh_ok pcq_inv s0"
    by (rule pointer_queues.init_dh_ok [OF q(1) init b(1) q(3,2)]) (simp_all add: new_data_handler_def)
  moreover have "latency_buffer_impl s0 = b"
    using init by (auto simp: init_dh_def bindE_eq_Inr_iff Let_def)
  ultimately show "history_inv pcq_inv (s0, [])" using b(2) by (simp add: history_inv_def)
qed (rule scrap_q_empty [OF _ mem])

text \<open>
  C5. After an \<open>init\<close> with an empty buffer, and in every interleaving of the operations of all threads,
  the latency buffer holds the newest part of the stream of the elements that were accepted since
  it was last emptied by a stop or a scrap: nothing is reordered, repeated or lost, except that
  cleanups take elements away, oldest first, and never the newest one. Of a list of received items,
  exactly the first ones for which the queue has free slots are accepted, as pre-processing left them.
\<close>

theorem buffer_holds_newest_of_stream:
  fixes P :: "('q, 'a option) pcq_ops" and R :: "'a readout_ops"
  assumes queues: "bounded_fifo P pcq_inv elems valid_size" "valid_size n" "items_to_postprocess_queues processor = []"
    and b: "queue_inv b" "contents b = []" and mem: "alloc_succeeds env StdMalloc 2"
    and init: "init_dh P D fenv iom_ok inputs outputs (Inr b) broken processor n hconf delay
        (new_data_handler pid unset_id unset_run unset_delay no_buffer no_processor no_handler unset_t0) = Inr s0"
    and steps: "rtranclp (history_step R (queue_lb_ops search) P D fenv (scrap_q env)) (s0, []) (s, xs)"
  shows "(\<exists>k. contents (latency_buffer_impl s) = drop k xs \<and> (xs \<noteq> [] \<longrightarrow> k < length xs)) \<and>
         (\<forall>items. accepted_items R (queue_lb_ops search) P items s =
            take (unat (qsize (latency_buffer_impl s)) - 1 - length (contents (latency_buffer_impl s)))
              (fst (preprocess_stream (raw_processor_impl s) (error_registry (request_handler_impl s)) items)))"
proof -
  note q = pointer_queues.intro [OF queues(1)]
  have inv: "history_inv pcq_inv (s, xs)" by (rule history_from_init [OF q queues(2,3) b mem init steps])
  then have ok: "dh_ok pcq_inv s" by (simp add: history_inv_def)
  show ?thesis using inv pointer_queues.accepted_items_fit [OF q ok] by (simp add: history_inv_def)
qed

theorem buffer_holds_newest_of_stream_witness:
  "\<exists>s0 s1 s2. init_sample ''cb_0'' (sample_conf \<lparr>numerator = 1, scale = 1\<rparr> \<lparr>numerator = 1, scale = 1\<rparr>) = Inr s0 \<and>
     start_dh 5 0 s0 = Inr s1 \<and>
     consume_payload (dummy_ops 16) (BinarySearchQueueModel (dummy_ops 16)) ring_pcq (frame_at 164) s1 = Inr s2 \<and>
     contents (latency_buffer_impl s2) = [frame_at 164]"
proof -
  let ?R = "dummy_ops 16" and ?p = "\<lparr>numerator = 1, scale = 1\<rparr>"
  let ?L = "queue_lb_ops (bs_lower_bound ?R)"
  let ?H = "history_step ?R ?L ring_pcq plain_daq sample_file_env (scrap_q plain_env)"
  have half: "is_fraction ?p" by (simp add: is_fraction_def)
  obtain s0 where s0: "init_sample ''cb_0'' (sample_conf ?p ?p) = Inr s0" "fresh_sample ?p ?p s0" "callback_mode s0"
    using init_sample_fresh [OF half half, of "''cb_0''"] by auto
  obtain s1 where s1: "start_dh 5 0 s0 = Inr s1" "fresh_sample ?p ?p s1" "callback_mode s1"
    using start_sample [OF s0(2)] s0(3) by auto
  then have s1': "dh_ok queue_inv s1" "latency_buffer_impl s1 = empty_ring" "preprocess_functions (raw_processor_impl s1) = []"
    by (simp_all add: fresh_sample_def)
  obtain s2 where s2: "consume_payload ?R ?L ring_pcq (frame_at 164) s1 = Inr s2"
    using ring_pointers.process_item_ok(2) [OF s1'(1)] by blast
  have "stored empty_ring = 0" using empty_ring_inv(2) length_contents [of empty_ring] by simp
  then have x: "accepted ?L (frame_at 164) s1 = [frame_at 164]"
    using accepted_queue [of s1 "bs_lower_bound ?R" "frame_at 164"] s1'(2,3) empty_ring_inv
    by (simp add: preprocessed_def preprocess_item_def)
  have "?H (s0, []) (s1, [])" using s1(1) by (blast intro: Handled Start)
  moreover have "?H (s1, []) (s2, [] @ [frame_at 164])"
    unfolding x [symmetric] by (rule CalledBack [OF s1(3) s2])
  ultimately have "rtranclp ?H (s0, []) (s2, [frame_at 164])" by (simp add: rtranclp.rtrancl_into_rtrancl)
  from buffer_holds_newest_of_stream [OF sample_from_init empty_ring_inv(1,2) sample_queues(3)
      s0(1) [unfolded init_sample_def] this]
  have "contents (latency_buffer_impl s2) = [frame_at 164]" by auto
  then show ?thesis using s0(1) s1(1) s2 unfolding BinarySearchQueueModel_def by blast
qed

end
