(* ===== verification/Retention.thy ===== *)
theory Retention
  imports Handler_Stream
begin

text \<open>
  The sizes a handler is configured with suffice: when the cleanup thread is called often enough for the
  rate of the data, no element is refused by the latency buffer, whatever the threads do in between.
\<close>

section \<open>What the steps leave alone\<close>

definition limits :: "'f request_handler \<Rightarrow> u32 \<times> float32" where
  "limits h = (pop_limit_size h, pop_size_pct h)"

lemma limits_updates [simp]:
  "limits (h\<lparr>error_registry := reg\<rparr>) = limits h" "limits (h\<lparr>posted := ps\<rparr>) = limits h"
  "limits (h\<lparr>waiting_requests := ws\<rparr>) = limits h" "limits (h\<lparr>requests_running := k\<rparr>) = limits h"
  "limits (h\<lparr>next_timestamp_to_record := t\<rparr>) = limits h" "limits (h\<lparr>num_requests_bad := k1\<rparr>) = limits h"
  "limits (h\<lparr>num_requests_bad := k1, num_requests_timed_out := k2\<rparr>) = limits h"
  "limits (start_rh now h) = limits h" "limits (issue_request dr is_retry h) = limits h" "limits (emit ev h) = limits h"
  "limits (snd (generate_opmon_data now h)) = limits h" "limits (account_response took h) = limits h"
  "limits (respond D now dr is_retry r h) = limits h" "limits (record_chunk R D fenv x h) = limits h"
  "limits (record_command h) = limits h" "limits (record_end fenv h) = limits h"
  by (auto simp: limits_def start_rh_def issue_request_def emit_def generate_opmon_data_def
      account_response_def respond_def record_chunk_def record_command_def record_accepted_def record_begin_def record_end_def
      Let_def split: prod.split)

lemma limits_count_result [simp]: "limits (count_result rc h) = limits h"
  by (cases rc) (simp_all add: limits_def)

lemma limits_request_task: "request_task R L D now took dr is_retry b h = Some (Inr h') \<Longrightarrow> limits h' = limits h"
  by (auto simp: request_task_def data_request_def Let_def split: if_splits option.splits sum.splits)

lemma limits_check_loop: "check_waiting_loop now t ws h = (rest, h') \<Longrightarrow> limits h' = limits h"
  by (induction ws arbitrary: h rest) (auto simp: Let_def split: if_splits prod.splits)

lemma limits_check_waiting: "check_waiting_requests R L now b h = Inr h' \<Longrightarrow> limits h' = limits h"
  by (auto simp: check_waiting_requests_def bindE_def Let_def split: if_split_asm sum.split_asm prod.split_asm
      dest: limits_check_loop)

lemma limits_cleanup: "cleanup_check R L (b, h) = Inr (b', h') \<Longrightarrow>
    limits h' = limits h \<and> next_timestamp_to_record h' = next_timestamp_to_record h"
  by (auto simp: cleanup_check_def cleanup_rh_def limits_def bindE_eq_Inr_iff Let_def split: if_splits prod.splits)

lemma limits_record_round:
  assumes "record_round R L D fenv b h = Some (Inr h')" and "rh_ok h"
  shows "limits h' = limits h"
proof -
  have one: "limits h2 = limits h1" if "task_step R L D fenv b (h1, pc) (h2, pc')" for h1 h2 pc pc'
    using that by (cases rule: task_step_cases) (auto simp: record_front_def bindE_eq_Inr_iff split: if_splits)
  have "limits (fst s') = limits (fst s)" if "rtranclp (task_step R L D fenv b) s s'" for s s'
    using that by (induction rule: rtranclp_induct) (auto dest: one)
  then show ?thesis using record_round_steps [OF assms(1)] assms(2) by (fastforce simp: rh_ok_def)
qed

lemma limits_handler_step:
  assumes "handler_step R L P D fenv s s'" and "rh_ok (request_handler_impl s)"
  shows "limits (request_handler_impl s') = limits (request_handler_impl s)"
  using assms
proof cases
  case (RunTask xs dr is_retry ys now took h')
  then show ?thesis using limits_request_task [OF RunTask(3)] by simp
next
  case (Record h')
  then show ?thesis using limits_record_round [OF Record(3) assms(2)] by simp
qed (auto simp: start_dh_def dispatch_requests_def dh_emit_def count_request_def timesync_round_def opmon_dh_def
    bindE_eq_Inr_iff Let_def split: if_splits dest: limits_check_waiting limits_cleanup)

text \<open>A cleanup keeps the slots of the queue.\<close>

lemma pop_loop_qsize:
  "pop_loop R (queue_lb_ops search) t n popped b = Inr (count, b') \<Longrightarrow> queue_inv b \<Longrightarrow> qsize b' = qsize b"
proof (induction n arbitrary: b popped)
  case (Suc n)
  have one: "queue_inv b1 \<and> qsize b1 = qsize b" if "lb_pop (queue_lb_ops search) 1 b = Inr b1" for b1
    using that pop_q_spec [OF Suc.prems(2), of 1] queue.pop_too_many [OF Suc.prems(2), of 1 search]
    by (cases "1 \<le> stored b") (auto simp: queue_lb_ops_def same_config_def)
  show ?case using Suc one by (fastforce simp: bindE_eq_Inr_iff split: if_split_asm)
qed simp

lemma cleanup_qsize:
  "cleanup_check R (queue_lb_ops search) (b, h) = Inr (b', h') \<Longrightarrow> queue_inv b \<Longrightarrow> qsize b' = qsize b"
  by (auto simp: cleanup_check_def cleanup_rh_def bindE_eq_Inr_iff Let_def split: if_split_asm prod.split_asm
      dest: pop_loop_qsize)

lemma handler_step_qsize:
  assumes "handler_step R (queue_lb_ops search) P D fenv s s'" and "queue_inv (latency_buffer_impl s)"
  shows "qsize (latency_buffer_impl s') = qsize (latency_buffer_impl s)"
  using assms
  by cases (auto simp: start_dh_def dispatch_requests_def dh_emit_def count_request_def timesync_round_def opmon_dh_def
      bindE_eq_Inr_iff Let_def split: if_splits dest: cleanup_qsize)

text \<open>Receiving changes only the error registry of the request handler.\<close>

definition receive_frame :: "('a iterable_queue, 'q, 'a, 'f) data_handler \<Rightarrow> ('a iterable_queue, 'q, 'a, 'f) data_handler \<Rightarrow> bool"
where
  "receive_frame s s' \<longleftrightarrow> qsize (latency_buffer_impl s') = qsize (latency_buffer_impl s) \<and>
     (\<exists>reg. request_handler_impl s' = (request_handler_impl s)\<lparr>error_registry := reg\<rparr>)"

lemma receive_frame_refl: "receive_frame s s"
  by (auto simp: receive_frame_def intro: exI [of _ "error_registry (request_handler_impl s)"])

lemma receive_frame_trans: "receive_frame s s' \<Longrightarrow> receive_frame s' s'' \<Longrightarrow> receive_frame s s''"
  by (auto simp: receive_frame_def)

lemma item_receive_frame: "item_frame x s s' \<Longrightarrow> receive_frame s s'"
  by (auto simp: item_frame_def receive_frame_def)

lemma process_items_frame:
  "process_items R (queue_lb_ops search) P xs s = Inr s' \<Longrightarrow> queue_inv (latency_buffer_impl s) \<Longrightarrow> receive_frame s s'"
proof (induction xs arbitrary: s)
  case (Cons x xs)
  then obtain s1 where s1: "process_item R (queue_lb_ops search) P x s = Inr s1"
      "process_items R (queue_lb_ops search) P xs s1 = Inr s'" by (auto simp: bindE_eq_Inr_iff)
  have "queue_inv (latency_buffer_impl s1)" using queue.process_item_accepts(1) [OF Cons.prems(2) s1(1)] by blast
  then show ?case
    using Cons.IH [OF s1(2)] item_receive_frame [OF process_item_frame(1) [OF Cons.prems(2) s1(1)]] receive_frame_trans by blast
qed (simp add: receive_frame_refl)

lemma post_all_frame: "receive_frame s (post_all P xs s)"
proof (induction xs arbitrary: s)
  case (Cons x xs)
  have "receive_frame s (count_payload (post_pointer P (Some x) s))"
    using receive_frame_refl [of s] by (simp add: receive_frame_def)
  then show ?case using receive_frame_trans Cons.IH by fastforce
qed (simp add: receive_frame_refl)

context pointer_queues
begin

lemma consume_round_frame:
  fixes s' :: "('a iterable_queue, 'q, 'a, 'f) data_handler"
  assumes run: "consume_round R (queue_lb_ops search) P now received (c, s) = Some (Inr (c', s'))"
    and inv: "queue_inv (latency_buffer_impl s)"
  shows "receive_frame s s'"
proof -
  obtain s1 where s1: "receive_frame s s1" "deferred_postprocess R (queue_lb_ops search) P now (c, s1) = Some (Inr (c', s'))"
  proof (cases received)
    case (Some items)
    then show ?thesis using that run process_items_frame [OF _ inv, of R search P items]
      by (auto simp: consume_round_def split: if_split_asm sum.split_asm)
  next
    case None
    then show ?thesis using that [of "s\<lparr>rawq_timeout_count := rawq_timeout_count s + 1\<rparr>"] run receive_frame_refl [of s]
      by (auto simp: consume_round_def receive_frame_def split: if_split_asm)
  qed
  have "s' = s1 \<or> (\<exists>i j. post_range (queue_lb_ops search) P i j s1 = Some (Inr s'))"
    using s1(2) by (auto simp: deferred_postprocess_def Let_def split: if_split_asm option.split_asm sum.split_asm)
  then show ?thesis using s1(1) post_range_all post_all_frame receive_frame_trans by metis
qed

end

section \<open>Steps at a bounded pace\<close>

text \<open>
  The state is paired with the number of items received since the last cleanup check, which never
  exceeds \<open>a\<close>. Nothing is being recorded.
\<close>

inductive paced_step ::
  "'a readout_ops \<Rightarrow> ('b, 'a, 'i) lb_ops \<Rightarrow> ('q, 'a option) pcq_ops \<Rightarrow> ('a, 'f) daq_env \<Rightarrow> file_env \<Rightarrow> nat \<Rightarrow>
   ('b, 'q, 'a, 'f) data_handler \<times> nat \<Rightarrow> ('b, 'q, 'a, 'f) data_handler \<times> nat \<Rightarrow> bool"
  for R L P D fenv a where
  PacedConsume: "consumer_running s \<Longrightarrow> consume_round R L P now received (c, s) = Some (Inr (c', s')) \<Longrightarrow>
     n' = n + (case received of Some items \<Rightarrow> length items | None \<Rightarrow> 0) \<Longrightarrow> n' \<le> a \<Longrightarrow>
     \<forall>x \<in> set (accepted_round R L P received s). get_timestamp R x < UINT64_MAX \<Longrightarrow>
     paced_step R L P D fenv a (s, n) (s', n')"
| PacedCallback: "callback_mode s \<Longrightarrow> consume_payload R L P x s = Inr s' \<Longrightarrow> n + 1 \<le> a \<Longrightarrow>
     \<forall>y \<in> set (accepted L x s). get_timestamp R y < UINT64_MAX \<Longrightarrow>
     paced_step R L P D fenv a (s, n) (s', n + 1)"
| CleanupRun: "cleanup_check R L (latency_buffer_impl s, request_handler_impl s) = Inr (b', h') \<Longrightarrow>
     paced_step R L P D fenv a (s, n) (s\<lparr>latency_buffer_impl := b', request_handler_impl := h'\<rparr>, 0)"
| Between: "handler_step R L P D fenv s s' \<Longrightarrow> next_timestamp_to_record (request_handler_impl s') = UINT64_MAX \<Longrightarrow>
     paced_step R L P D fenv a (s, n) (s', n)"

text \<open>The configured sizes fit the pace: the limit leaves room, and one cleanup makes room again.\<close>

definition sizes_fit :: "u32 \<times> float32 \<Rightarrow> u32 \<Rightarrow> nat \<Rightarrow> bool" where
  "sizes_fit lim slots a \<longleftrightarrow>
     unat (fst lim) + a < unat slots \<and> unat slots \<le> 2 ^ 24 \<and> is_fraction (snd lim) \<and>
     numerator (snd lim) \<noteq> 2 ^ scale (snd lim) \<and> a \<le> scaled_count (snd lim) (unat (fst lim) + 1)"

definition paced_inv ::
  "('q \<Rightarrow> bool) \<Rightarrow> 'a readout_ops \<Rightarrow> u32 \<times> float32 \<Rightarrow> u32 \<Rightarrow> nat \<Rightarrow> ('a iterable_queue, 'q, 'a, 'f) data_handler \<times> nat \<Rightarrow> bool"
where
  "paced_inv pcq_inv R lim slots a = (\<lambda>(s, n).
     dh_ok pcq_inv s \<and> stored (latency_buffer_impl s) \<le> unat (fst lim) + n \<and> n \<le> a \<and>
     qsize (latency_buffer_impl s) = slots \<and> limits (request_handler_impl s) = lim \<and>
     next_timestamp_to_record (request_handler_impl s) = UINT64_MAX \<and>
     (\<forall>x \<in> set (contents (latency_buffer_impl s)). get_timestamp R x < UINT64_MAX))"

text \<open>A cleanup check brings the occupancy back below the limit.\<close>

lemma cleanup_restores:
  assumes run: "cleanup_check R (queue_lb_ops search) (b, h) = Inr (b', h')" and inv: "queue_inv b"
    and lim: "limits h = lim" and fit: "sizes_fit lim (qsize b) a" and idle: "\<not> cleanup_requested h"
    and full: "stored b \<le> unat (fst lim) + a" and next_ts: "next_timestamp_to_record h = UINT64_MAX"
    and below: "\<forall>x \<in> set (contents b). get_timestamp R x < UINT64_MAX"
  shows "stored b' \<le> unat (fst lim) \<and> set (contents b') \<subseteq> set (contents b)"
proof (cases "unat (pop_limit_size h) < length (contents b)")
  case True
  let ?m = "length (contents b)" and ?p = "unat (fst lim)"
  have lim': "pop_limit_size h = fst lim" "pop_size_pct h = snd lim" using lim by (auto simp: limits_def)
  have m: "?m < 2 ^ 24" using full fit by (simp add: sizes_fit_def)
  have pct: "is_fraction (pop_size_pct h)" "numerator (pop_size_pct h) \<noteq> 2 ^ scale (pop_size_pct h)"
      "a \<le> scaled_count (pop_size_pct h) (?p + 1)"
    using fit unfolding sizes_fit_def lim' by blast+
  let ?c = "scaled_count (pop_size_pct h) ?m"
  let ?k = "removable R (next_timestamp_to_record h) ?c (contents b)"
  obtain q where "cleanup_check R (queue_lb_ops search) (b, h) =
        Inr (q, cleaned ?m ?k (get_timestamp R (contents b ! ?k)) h)" "contents q = drop ?k (contents b)"
    using queue.cleanup_removes(2) [OF inv m True pct(1,2) idle refl refl, of R search] by blast
  then have "contents b' = drop ?k (contents b)" using run by simp
  moreover have "?k = min ?m ?c"
  proof -
    have "takeWhile (\<lambda>x. get_timestamp R x < UINT64_MAX) (take ?c (contents b)) = take ?c (contents b)"
      unfolding takeWhile_eq_all_conv using below by (blast dest: in_set_takeD)
    then show ?thesis unfolding removable_def next_ts by (simp only: length_take)
  qed
  moreover have "a \<le> scaled_count (pop_size_pct h) ?m"
  proof -
    have "scaled_count (pop_size_pct h) (?p + 1) \<le> scaled_count (pop_size_pct h) ?m"
      using pct True lim'(1) by (intro scaled_count_mono) (auto simp: is_fraction_def)
    then show ?thesis using pct by simp
  qed
  ultimately have "length (contents b') \<le> ?p" "set (contents b') \<subseteq> set (contents b)"
    using full by (simp_all add: set_drop_subset)
  then show ?thesis by simp
next
  case False
  have "unat (lb_occupancy (queue_lb_ops search) b) = length (contents b)" by (rule queue.occupancy_elements [OF inv])
  then have "\<not> lb_occupancy (queue_lb_ops search) b > ucast (pop_limit_size h)"
    using False by (simp add: word_less_nat_alt)
  then have "b' = b" using run by (simp add: cleanup_check_def)
  then show ?thesis using False lim by (auto simp: limits_def)
qed

lemma preprocess_stream_length: "preprocess_stream p reg xs = (ys, reg') \<Longrightarrow> length ys = length xs"
  by (induction xs arbitrary: reg ys) (auto split: prod.splits)

lemma accepted_length: "length (accepted L x s) \<le> 1"
  by (simp add: accepted_def split: sum.split prod.split bool.split)

lemma accepted_items_length: "length (accepted_items R L P xs s) \<le> length xs"
proof (induction xs arbitrary: s)
  case (Cons x xs)
  then show ?case using accepted_length [of L x s] by (auto split: sum.split simp: add_le_mono [where i = _ and j = 1, simplified])
qed simp

context pointer_queues
begin

lemma paced_receive:
  assumes inv: "paced_inv pcq_inv R lim slots a (s, n)" and ok: "dh_ok pcq_inv s'" and frame: "receive_frame s s'"
    and c: "contents (latency_buffer_impl s') = contents (latency_buffer_impl s) @ ys"
    and ys: "length ys \<le> k" "\<forall>x \<in> set ys. get_timestamp R x < UINT64_MAX" and le: "n + k \<le> a"
  shows "paced_inv pcq_inv R lim slots a (s', n + k)"
proof -
  have "length (contents (latency_buffer_impl s')) = length (contents (latency_buffer_impl s)) + length ys" by (simp only: c length_append)
  then have "stored (latency_buffer_impl s') = stored (latency_buffer_impl s) + length ys" by simp
  moreover have "limits (request_handler_impl s') = limits (request_handler_impl s)"
      "next_timestamp_to_record (request_handler_impl s') = next_timestamp_to_record (request_handler_impl s)"
    using frame by (auto simp: receive_frame_def)
  ultimately show ?thesis
    using inv ok frame c ys le by (auto simp: paced_inv_def receive_frame_def)
qed

lemma paced_step_inv:
  assumes step: "paced_step R (queue_lb_ops search) P D fenv a (s, n) (s', n')"
    and inv: "paced_inv pcq_inv R lim slots a (s, n)" and fit: "sizes_fit lim slots a"
  shows "paced_inv pcq_inv R lim slots a (s', n')"
proof -
  have ok: "dh_ok pcq_inv s" and q: "queue_inv (latency_buffer_impl s)" and h: "rh_ok (request_handler_impl s)"
    using inv by (auto simp: paced_inv_def dh_ok_def)
  show ?thesis
    using step
  proof cases
    case (PacedConsume now received c c')
    have "length (accepted_round R (queue_lb_ops search) P received s) \<le> (case received of Some items \<Rightarrow> length items | None \<Rightarrow> 0)"
      using accepted_items_length by (auto simp: accepted_round_def split: option.split)
    then show ?thesis
      using paced_receive [OF inv consume_round_ok [OF PacedConsume(2) ok] consume_round_frame [OF PacedConsume(2) q]
          consume_round_accepts [OF PacedConsume(2) q] _ PacedConsume(5)] PacedConsume(3,4) by blast
  next
    case (PacedCallback x)
    have "dh_ok pcq_inv s'" using process_item_ok(2) [OF ok, of R search x] PacedCallback(3) by auto
    then show ?thesis
      using paced_receive [OF inv _ item_receive_frame [OF process_item_frame(2) [OF q PacedCallback(3)]] _ accepted_length PacedCallback(5)]
        queue.process_item_accepts(2) [OF q PacedCallback(3)] PacedCallback(1,4) by blast
  next
    case (CleanupRun b' h')
    have "stored (latency_buffer_impl s) \<le> unat (fst lim) + a" "\<not> cleanup_requested (request_handler_impl s)"
      using inv h by (auto simp: paced_inv_def rh_ok_def)
    then have "stored b' \<le> unat (fst lim) \<and> set (contents b') \<subseteq> set (contents (latency_buffer_impl s))"
      using inv fit by (intro cleanup_restores [OF CleanupRun(3) q]) (auto simp: paced_inv_def)
    moreover have "dh_ok pcq_inv s'"
      unfolding CleanupRun(1) using handler_step_ok [OF Cleanup [OF CleanupRun(3)] ok] .
    ultimately show ?thesis
      using inv CleanupRun(1,2) cleanup_qsize [OF CleanupRun(3) q] limits_cleanup [OF CleanupRun(3)] by (auto simp: paced_inv_def)
  next
    case Between
    obtain k where k: "contents (latency_buffer_impl s') = drop k (contents (latency_buffer_impl s))"
      using handler_step_suffix [OF Between(2) q] by blast
    then have "length (contents (latency_buffer_impl s')) \<le> length (contents (latency_buffer_impl s))" by (simp del: length_contents)
    then have "stored (latency_buffer_impl s') \<le> stored (latency_buffer_impl s)" by (simp only: length_contents)
    then show ?thesis
      using inv Between(1,3) k handler_step_ok [OF Between(2) ok] handler_step_qsize [OF Between(2) q]
        limits_handler_step [OF Between(2) h] by (auto simp: paced_inv_def dest: in_set_dropD)
  qed
qed

lemma paced_steps_inv:
  assumes steps: "rtranclp (paced_step R (queue_lb_ops search) P D fenv a) (s, n) (s', n')"
    and inv: "paced_inv pcq_inv R lim slots a (s, n)" and fit: "sizes_fit lim slots a"
  shows "paced_inv pcq_inv R lim slots a (s', n')"
  using steps
proof (induction "(s', n')" arbitrary: s' n' rule: rtranclp_induct)
  case (step t)
  obtain s1 n1 where t: "t = (s1, n1)" by fastforce
  show ?case using paced_step_inv [OF step.hyps(2) [unfolded t] step.hyps(3) [OF t] fit] .
qed (rule inv)

end

section \<open>No data is refused\<close>

text \<open>
  C6. No data is lost when the sizes fit: let the pop limit and the number \<open>a\<close> of items that may arrive
  between two cleanup checks fit into the queue together, and let the pop percentage of one element
  more than the limit be at least \<open>a\<close>. Then in every interleaving of the operations of all threads in
  which at most \<open>a\<close> items arrive between two cleanup checks, and while nothing is recorded, the queue holds at
  most the limit plus what has arrived since the last check, and every further list of items within
  the pace is accepted completely and none of it counted as overwritten.
\<close>

theorem paced_data_is_never_refused:
  fixes P :: "('q, 'a option) pcq_ops" and R :: "'a readout_ops"
  assumes queues: "bounded_fifo P pcq_inv elems valid_size" and ok: "dh_ok pcq_inv s0"
    and fit: "sizes_fit (pop_limit_size (request_handler_impl s0), pop_size_pct (request_handler_impl s0))
                (qsize (latency_buffer_impl s0)) a"
    and first: "length (contents (latency_buffer_impl s0)) \<le> unat (pop_limit_size (request_handler_impl s0))"
      "\<forall>x \<in> set (contents (latency_buffer_impl s0)). get_timestamp R x < UINT64_MAX"
    and idle: "next_timestamp_to_record (request_handler_impl s0) = UINT64_MAX"
    and steps: "rtranclp (paced_step R (queue_lb_ops search) P D fenv a) (s0, 0) (s, n)" and pace: "n + length items \<le> a"
  shows "length (contents (latency_buffer_impl s)) \<le> unat (pop_limit_size (request_handler_impl s0)) + n \<and>
         accepted_items R (queue_lb_ops search) P items s =
           fst (preprocess_stream (raw_processor_impl s) (error_registry (request_handler_impl s)) items) \<and>
         (\<exists>s'. process_items R (queue_lb_ops search) P items s = Inr s' \<and>
               num_payloads_overwritten s' = num_payloads_overwritten s)"
proof -
  note q = pointer_queues.intro [OF queues]
  let ?lim = "limits (request_handler_impl s0)" and ?slots = "qsize (latency_buffer_impl s0)"
  have "paced_inv pcq_inv R ?lim ?slots a (s0, 0)"
    using ok first idle by (simp add: paced_inv_def limits_def)
  from pointer_queues.paced_steps_inv [OF q steps this] have inv: "paced_inv pcq_inv R ?lim ?slots a (s, n)"
    using fit by (simp add: limits_def)
  then have s: "dh_ok pcq_inv s" "queue_inv (latency_buffer_impl s)" by (auto simp: paced_inv_def dh_ok_def)
  have occ: "stored (latency_buffer_impl s) \<le> unat (pop_limit_size (request_handler_impl s0)) + n"
    using inv by (simp add: paced_inv_def limits_def)
  have room: "stored (latency_buffer_impl s) + length items < unat (qsize (latency_buffer_impl s))"
    using inv fit pace by (simp add: paced_inv_def limits_def sizes_fit_def)
  obtain ys reg where pre: "preprocess_stream (raw_processor_impl s) (error_registry (request_handler_impl s)) items = (ys, reg)"
    by fastforce
  have "accepted_items R (queue_lb_ops search) P items s = fst (ys, reg)"
    unfolding pointer_queues.accepted_items_fit [OF q s(1)] pre using room preprocess_stream_length [OF pre] by simp
  then show ?thesis using occ process_items_room [OF s(2) room pre, of R search P] unfolding pre by auto
qed

text \<open>A limit of one half and a pop size of one half of eight slots, for two items between cleanups.\<close>

lemma half_fits: "sizes_fit (4, \<lparr>numerator = 1, scale = 1\<rparr>) 8 2"
  by (simp add: sizes_fit_def is_fraction_def scaled_count_eq round24_small)

theorem paced_data_is_never_refused_witness:
  "\<exists>s0 s1 c s2. init_sample ''raw_0'' (sample_conf \<lparr>numerator = 1, scale = 1\<rparr> \<lparr>numerator = 1, scale = 1\<rparr>) = Inr s0 \<and>
     start_dh 5 0 s0 = Inr s1 \<and>
     consume_round (dummy_ops 16) (BinarySearchQueueModel (dummy_ops 16)) ring_pcq 0 (Some [frame_at 100, frame_at 116])
       (fst (consume_begin (frame_at 0) 0 s1), s1) = Some (Inr (c, s2)) \<and>
     cleanup_check (dummy_ops 16) (BinarySearchQueueModel (dummy_ops 16)) (latency_buffer_impl s2, request_handler_impl s2) =
       Inr (latency_buffer_impl s2, request_handler_impl s2) \<and>
     length (contents (latency_buffer_impl s2)) \<le> 4 \<and>
     length (accepted_items (dummy_ops 16) (BinarySearchQueueModel (dummy_ops 16)) ring_pcq [frame_at 132, frame_at 148] s2) = 2"
proof -
  let ?R = "dummy_ops 16" and ?L = "queue_lb_ops (bs_lower_bound (dummy_ops 16))"
  let ?xs = "[frame_at 100, frame_at 116]" and ?ys = "[frame_at 132, frame_at 148]" and ?p = "\<lparr>numerator = 1, scale = 1\<rparr>"
  let ?S = "paced_step ?R ?L ring_pcq plain_daq sample_file_env 2"
  have four: "scaled_count ?p 8 = 4" and half: "is_fraction ?p" by (simp_all add: scaled_count_eq round24_small is_fraction_def)
  obtain s0 where s0: "init_sample ''raw_0'' (sample_conf ?p ?p) = Inr s0" "fresh_sample ?p ?p s0" "\<not> callback_mode s0" "has_raw_data_receiver s0"
    using init_sample_fresh [OF half half, of "''raw_0''"] by auto
  obtain s1 where s1: "start_dh 5 0 s0 = Inr s1" "fresh_sample ?p ?p s1" "consumer_running s1" "has_raw_data_receiver s1"
    using start_sample [OF s0(2)] s0(3,4) by auto
  note fresh = s1(2) [unfolded fresh_sample_def four]
  let ?c = "fst (consume_begin (frame_at 0) 0 s1)"
  have "length (contents (latency_buffer_impl s1)) + length ?xs < unat (qsize (latency_buffer_impl s1))"
    using fresh empty_ring_inv by simp
  moreover have "\<not> (0 - cl_last_post_proc_time ?c) div 1000000 > 1" by (simp add: consume_begin_def)
  ultimately obtain s2 where s2: "consume_round ?R ?L ring_pcq 0 (Some ?xs) (?c, s1) = Some (Inr (?c, s2))" "dh_ok queue_inv s2"
      "contents (latency_buffer_impl s2) = ?xs" "request_handler_impl s2 = request_handler_impl s1"
      "accepted_round ?R ?L ring_pcq (Some ?xs) s1 = ?xs"
    using ring_pointers.plain_receive [of s1 ?xs 0 ?c ?R "bs_lower_bound ?R"] fresh s1(4) empty_ring_inv(2) by auto
  have "unat (lb_occupancy ?L (latency_buffer_impl s2)) = 2"
    using queue.occupancy_elements [of "latency_buffer_impl s2" "bs_lower_bound ?R"] s2(2) unfolding s2(3) dh_ok_def by simp
  then have clean: "cleanup_check ?R ?L (latency_buffer_impl s2, request_handler_impl s2) = Inr (latency_buffer_impl s2, request_handler_impl s2)"
    using fresh by (simp add: cleanup_check_def word_less_nat_alt s2(4))
  have "?S (s0, 0) (s1, 0)" using fresh by (intro Between Start [OF s1(1)]) simp
  moreover have "?S (s1, 0) (s2, 2)"
    by (rule PacedConsume [OF s1(3) s2(1)]) (simp_all only: s2(5) option.case, simp_all add: UINT64_MAX_def)
  moreover have "?S (s2, 2) (s2, 0)"
    using CleanupRun [OF clean, of ring_pcq plain_daq sample_file_env 2 2] by simp
  ultimately have steps: "rtranclp ?S (s0, 0) (s2, 0)" by (meson rtranclp.rtrancl_into_rtrancl rtranclp.rtrancl_refl)
  note fresh0 = s0(2) [unfolded fresh_sample_def four]
  have "qsize empty_ring = 8" by (simp add: empty_ring_def)
  then have fit: "sizes_fit (pop_limit_size (request_handler_impl s0), pop_size_pct (request_handler_impl s0)) (qsize (latency_buffer_impl s0)) 2"
    using fresh0 half_fits by simp
  have lim: "pop_limit_size (request_handler_impl s0) = 4" and none: "contents (latency_buffer_impl s0) = []"
    and ok: "dh_ok queue_inv s0" and idle: "next_timestamp_to_record (request_handler_impl s0) = UINT64_MAX"
    using fresh0 empty_ring_inv(2) by simp_all
  have "length (contents (latency_buffer_impl s2)) \<le> unat (4 :: u32) + 0 \<and>
      accepted_items ?R ?L ring_pcq ?ys s2 =
        fst (preprocess_stream (raw_processor_impl s2) (error_registry (request_handler_impl s2)) ?ys)"
    using paced_data_is_never_refused [OF ring.bounded_fifo_axioms ok fit _ _ idle steps, of ?ys] unfolding none lim by auto
  moreover have "length (fst (preprocess_stream (raw_processor_impl s2) (error_registry (request_handler_impl s2)) ?ys)) = 2"
    unfolding preprocess_stream_length [OF prod.collapse [symmetric]] by simp
  ultimately show ?thesis using s0(1) s1(1) s2(1) clean unfolding BinarySearchQueueModel_def by fastforce
qed

end
