(* ===== verification/Object_Lifetimes.thy ===== *)
theory Object_Lifetimes
  imports Queue_Contract Buffered_Files
begin

text \<open>
  Construction and destruction: the destructor of \<open>IterableQueueModel\<close> (models/IterableQueueModel.hpp)
  after any use, configuration and scrap of the queue, and the constructors and the destructor of the
  buffered files (utils/BufferedFileWriter.hpp, utils/BufferedFileReader.hpp), which open and close the
  file. The iterators' increment by an amount and the monitoring of the queue are here as well.
\<close>

section \<open>The life of a queue\<close>

definition destroy_q :: "build_env \<Rightarrow> 'a iterable_queue \<Rightarrow> fault + 'a iterable_queue" where
  "destroy_q env q = free_memory env q"

datatype 'a life_op = Operate "'a queue_op list" | Configure latency_buffer_conf | Unconfigure

fun run_life :: "build_env \<Rightarrow> 'a \<Rightarrow> 'a life_op list \<Rightarrow> 'a iterable_queue \<Rightarrow> fault + 'a iterable_queue" where
  "run_life env dflt [] q = Inr q"
| "run_life env dflt (Operate ops # life) q = run_life env dflt life (snd (run_queue ops q))"
| "run_life env dflt (Configure cfg # life) q = bindE (conf_q env dflt cfg q) (run_life env dflt life)"
| "run_life env dflt (Unconfigure # life) q = bindE (scrap_q env q) (run_life env dflt life)"

text \<open>No queue operation changes how the memory will be freed.\<close>

lemma exec_op_config:
  assumes inv: "queue_inv q" and run: "exec_op op q = Inr (r, q')"
  shows "same_config q q'"
proof -
  have pop: "same_config q q2" if "pop_q n q = Inr q2" for n q2
    using that pop_q_spec [OF inv, of n] pop_q_too_many [of q n] inv by (cases "n \<le> stored q") (auto simp: not_le)
  show ?thesis
  proof (cases op)
    case (Write x)
    show ?thesis
    proof (cases "stored q + 1 < unat (qsize q)")
      case True
      then show ?thesis using write_q_room [OF inv True, of x] run Write by auto
    next
      case False
      then have "stored q + 1 = unat (qsize q)" using stored_less_size [OF inv] by simp
      then show ?thesis using write_q_no_room [OF inv, of x] run Write by (auto simp: same_config_def alloc_inv_def split: region.split)
    qed
  next
    case Read
    then show ?thesis using run popFront_spec [OF inv] read_q_empty [OF inv] by (cases "contents q = []") auto
  next
    case PopFront
    then show ?thesis using run popFront_spec [OF inv] read_q_empty [OF inv] by (cases "contents q = []") auto
  next
    case (Pop n)
    then show ?thesis using run pop by (auto simp: bindE_eq_Inr_iff)
  next
    case Flush
    then show ?thesis using run flush_q_spec [OF inv] by auto
  qed (use run in \<open>auto simp: bindE_eq_Inr_iff\<close>)
qed

lemma run_queue_config: "queue_inv q \<Longrightarrow> same_config q (snd (run_queue ops q)) \<and> queue_inv (snd (run_queue ops q))"
proof (induction ops arbitrary: q)
  case (Cons op ops)
  show ?case
  proof (cases "exec_op op q")
    case (Inl f)
    then show ?thesis using Cons.prems by simp
  next
    case (Inr p)
    obtain r q' where p: "exec_op op q = Inr (r, q')" using Inr by (cases p) auto
    have "represents q (unat (qsize q) - 1) (contents q)"
      using Cons.prems stored_less_size [OF Cons.prems] by (simp add: represents_def)
    from exec_op_corresponds [OF this, of op] have "queue_inv q'"
      using p by (auto simp: corresponds_def represents_def split: sum.splits)
    then have "same_config q' (snd (run_queue ops q')) \<and> queue_inv (snd (run_queue ops q'))" by (rule Cons.IH)
    moreover have "snd (run_queue (op # ops) q) = snd (run_queue ops q')" using p by (simp split: prod.split)
    ultimately show ?thesis using same_config_trans [OF exec_op_config [OF Cons.prems p]] by simp
  qed
qed simp

text \<open>Configurations with which allocation and release agree, and succeed.\<close>

definition usable_cfg :: "build_env \<Rightarrow> latency_buffer_conf \<Rightarrow> bool" where
  "usable_cfg env cfg \<longleftrightarrow> coherent_cfg env cfg \<and> 2 \<le> cfg_size cfg \<and> unat (cfg_size cfg) < 2 ^ 31 \<and>
     alloc_succeeds env (selected_allocator cfg) (cfg_size cfg)"

definition freeable :: "build_env \<Rightarrow> 'a iterable_queue \<Rightarrow> bool" where
  "freeable env q \<longleftrightarrow> queue_inv q \<and> alloc_inv q \<and> (numa_aware q \<longrightarrow> with_libnuma env)"

lemma freeable_default: "alloc_succeeds env StdMalloc 2 \<Longrightarrow> freeable env (default_queue env)"
  using default_queue_inv [of env] default_queue_alloc_inv [of env] by (simp add: freeable_def default_queue_def)

lemma run_life_freeable:
  assumes mem: "alloc_succeeds env StdMalloc 2"
  shows "freeable env q \<Longrightarrow> \<forall>cfg. Configure cfg \<in> set life \<longrightarrow> usable_cfg env cfg \<Longrightarrow>
         \<exists>q'. run_life env dflt life q = Inr q' \<and> freeable env q'"
proof (induction life arbitrary: q)
  case (Cons op life)
  note rest = Cons.IH Cons.prems(2)
  have f: "queue_inv q" "alloc_inv q" "numa_aware q \<longrightarrow> with_libnuma env" using Cons.prems(1) by (simp_all add: freeable_def)
  show ?case
  proof (cases op)
    case (Operate ops)
    then show ?thesis using rest f run_queue_config [OF f(1), of ops] by (auto simp: freeable_def same_config_def)
  next
    case (Configure cfg)
    then have "usable_cfg env cfg" using Cons.prems(2) by simp
    then obtain q' where "conf_q env dflt cfg q = Inr q'" "freeable env q'"
      using conf_q_coherent [OF f, of cfg dflt] by (auto simp: usable_cfg_def freeable_def)
    then show ?thesis using Configure rest by auto
  next
    case Unconfigure
    have "scrap_q env q = Inr ((default_queue env)\<lparr>overflow_ctr := overflow_ctr q\<rparr>)"
      by (simp add: scrap_q_def free_memory_spec [OF f] default_queue_def)
    moreover have "freeable env ((default_queue env)\<lparr>overflow_ctr := overflow_ctr q\<rparr>)"
      using freeable_default [OF mem]
      by (auto simp: freeable_def queue_inv_def alloc_inv_def stored_def ring_slot_def split: region.splits)
    ultimately show ?thesis using Unconfigure rest by auto
  qed
qed simp

text \<open>
  C24. The memory of a queue is released exactly once and by the matching function: after any
  sequence of queue operations, configurations (with an allocation strategy that allocation and
  release agree on) and scraps of a default-constructed queue, each of which returns, the
  destructor returns as well, has destroyed the stored elements and freed the memory.
\<close>

theorem queue_releases_its_memory:
  assumes "alloc_succeeds env StdMalloc 2" and "\<forall>cfg. Configure cfg \<in> set life \<longrightarrow> usable_cfg env cfg"
  shows "\<exists>q. run_life env dflt life (default_queue env) = Inr q \<and> queue_inv q \<and>
             destroy_q env q = Inr (q\<lparr>records := Dangling\<rparr>)"
proof -
  obtain q where q: "run_life env dflt life (default_queue env) = Inr q" "freeable env q"
    using run_life_freeable [OF assms(1) freeable_default [OF assms(1)] assms(2)] by blast
  then show ?thesis using free_memory_spec [of q env] by (simp add: destroy_q_def freeable_def)
qed

theorem queue_releases_its_memory_witness:
  "\<exists>q. run_life plain_env 0 [Configure (sample_cfg 4 False 0 False 64), Operate [Write 7, Write 8, Read], Unconfigure,
          Configure (sample_cfg 8 False 0 True 64), Operate [Write (9::u64)]] (default_queue plain_env) = Inr q \<and>
       destroy_q plain_env q = Inr (q\<lparr>records := Dangling\<rparr>)"
  using queue_releases_its_memory [of plain_env "[Configure (sample_cfg 4 False 0 False 64), Operate [Write (7::u64), Write 8, Read], Unconfigure,
          Configure (sample_cfg 8 False 0 True 64), Operate [Write 9]]" 0]
  by (auto simp: usable_cfg_def sample_simps)

section \<open>Iterators and monitoring\<close>

text \<open>
  The increment with an argument: it returns the old position and advances by the argument. C++ calls it
  with 0 for the postfix form, which therefore stays where it is.
\<close>

definition iter_post_increment :: "'a iterable_queue \<Rightarrow> int \<Rightarrow> u32 \<Rightarrow> u32 \<times> u32" where
  "iter_post_increment q amount m = (m, iter_advance q (nat amount) m)"

lemma postfix_form_stays: "iter_post_increment q 0 m = (m, m)"
  by (simp add: iter_post_increment_def)

lemma post_increment_position:
  "queue_inv q \<Longrightarrow> at_pos q i k \<Longrightarrow> 0 \<le> amount \<Longrightarrow> k + nat amount < stored q \<Longrightarrow>
   \<exists>j. iter_post_increment q amount i = (i, j) \<and> at_pos q j (k + nat amount)"
  using iter_advance_at_pos [of q i k "nat amount"] by (simp add: iter_post_increment_def)

definition opmon_q :: "'a iterable_queue \<Rightarrow> u64" where
  "opmon_q q = occupancy_q q"

lemma opmon_q_counts: "queue_inv q \<Longrightarrow> unat (opmon_q q) = length (contents q)"
  using occupancy_q_spec [of q] by (auto simp: opmon_q_def)

section \<open>The life of a buffered file\<close>

definition make_writer :: "file_env \<Rightarrow> string \<Rightarrow> u64 \<Rightarrow> string \<Rightarrow> bool \<Rightarrow> files \<Rightarrow> fault + (file_writer \<times> files)" where
  "make_writer env filename buffer_size compression_algorithm use_o_direct fs =
     open_w env filename buffer_size compression_algorithm use_o_direct (closed_writer, fs)"

definition destroy_writer :: "file_env \<Rightarrow> file_writer \<times> files \<Rightarrow> files" where
  "destroy_writer env = (\<lambda>(w, fs). if w_is_open w then snd (close_w env (w, fs)) else fs)"

definition make_reader :: "file_env \<Rightarrow> string \<Rightarrow> u64 \<Rightarrow> string \<Rightarrow> files \<Rightarrow> fault + file_reader" where
  "make_reader env filename buffer_size compression_algorithm fs =
     open_r env filename buffer_size compression_algorithm fs closed_reader"

text \<open>
  What is written between construction and destruction of a writer is in the file, whether the
  writer is closed before it is destroyed or not.
\<close>

lemma scoped_writer_file:
  assumes "can_open env name" and "is_compressor alg \<or> alg = ''None''" and "reliable env name bsize direct"
  shows "bindE (make_writer env name bsize alg direct fs) (\<lambda>(w, fs'). Inr (destroy_writer env (write_all env xs w, fs'))) =
         write_file env name bsize alg direct xs fs"
    and "bindE (make_writer env name bsize alg direct fs)
           (\<lambda>(w, fs'). Inr (destroy_writer env (close_w env (write_all env xs w, fs')))) =
         write_file env name bsize alg direct xs fs"
proof -
  let ?w = "closed_writer\<lparr>w_use_o_direct := direct, w_filename := name, w_buffer_size := bsize, w_algorithm := alg,
              w_is_open := True, w_fd_direct := direct\<rparr>"
  have "open_w env name bsize alg direct (closed_writer, fs) = Inr (?w, create_file name fs)"
    using assms(1,2) by (simp add: open_w_def closed_writer_def)
  moreover have "write_all env xs ?w = ?w\<lparr>w_stream := concat xs\<rparr>"
    using write_each_reliable [of ?w env xs] assms(3) by (simp add: closed_writer_def write_all_def)
  ultimately show "bindE (make_writer env name bsize alg direct fs)
      (\<lambda>(w, fs'). Inr (destroy_writer env (write_all env xs w, fs'))) = write_file env name bsize alg direct xs fs"
    and "bindE (make_writer env name bsize alg direct fs)
           (\<lambda>(w, fs'). Inr (destroy_writer env (close_w env (write_all env xs w, fs')))) =
         write_file env name bsize alg direct xs fs"
    by (simp_all add: make_writer_def write_file_def destroy_writer_def close_w_def Let_def)
qed

end
