(* ===== verification/Issues.thy ===== *)
theory Issues
  imports Data_Handling "HOL-Library.Char_ord"
begin

text \<open>
  The issues the library reports (DataHandlingIssues.hpp): their attributes, the issue each derives
  from, and their texts, and which of them the warnings and errors of the request handler, the raw
  data processor and the data handling model are. How a source identifier and a double are printed is
  other packages' business, \<open>show_source\<close> and \<open>show_double\<close>.
\<close>

section \<open>Numbers in messages\<close>

definition digit :: "nat \<Rightarrow> char" where
  "digit n = char_of (48 + n)"

fun decimal :: "nat \<Rightarrow> string" where
  "decimal n = (if n < 10 then [digit n] else decimal (n div 10) @ [digit (n mod 10)])"

declare decimal.simps [simp del]

definition signed_decimal :: "int \<Rightarrow> string" where
  "signed_decimal n = (if n < 0 then CHR ''-'' # decimal (nat (- n)) else decimal (nat n))"

definition decimal_value :: "string \<Rightarrow> nat" where
  "decimal_value = foldl (\<lambda>n c. 10 * n + (of_char c - 48)) 0"

definition is_digit :: "char \<Rightarrow> bool" where
  "is_digit c \<longleftrightarrow> of_char c \<in> {48..57 :: nat}"

lemma of_char_digit: "n < 10 \<Longrightarrow> of_char (digit n) = 48 + n"
  by (simp add: digit_def)

lemma decimal_value_decimal [simp]: "decimal_value (decimal n) = n"
proof (induction n rule: decimal.induct)
  case (1 n)
  then show ?case
    by (subst decimal.simps) (simp add: decimal_value_def of_char_digit)
qed

lemma decimal_digits: "c \<in> set (decimal n) \<Longrightarrow> is_digit c"
proof (induction n rule: decimal.induct)
  case (1 n)
  then show ?case
    by (subst (asm) (2) decimal.simps) (auto simp: is_digit_def of_char_digit split: if_splits)
qed

text \<open>A number ends where something else than a digit follows.\<close>

lemma digits_split:
  assumes "xs @ c # us = ys @ d # vs" and "\<forall>x \<in> set xs. P x" and "\<forall>y \<in> set ys. P y" and "\<not> P c" and "\<not> P d"
  shows "xs = ys \<and> c # us = d # vs"
  using assms
proof (induction xs arbitrary: ys)
  case Nil
  then show ?case by (cases ys) auto
next
  case (Cons x xs)
  then show ?case by (cases ys) auto
qed

lemma decimal_then:
  assumes "\<not> is_digit c"
  shows "decimal m @ c # us = decimal n @ c # vs \<longleftrightarrow> m = n \<and> us = vs"
  using digits_split [of "decimal m" c us "decimal n" c vs is_digit] assms decimal_digits decimal_value_decimal [of m]
  by (metis list.inject decimal_value_decimal)

section \<open>The issues\<close>

datatype 'd issue =
    InternalError SourceID string
  | CommandError SourceID string
  | InitializationError string
  | ConfigurationError SourceID string
  | BufferedReaderWriterConfigurationError string
  | DataRecorderConfigurationError string
  | GenericConfigurationError string
  | TimeSyncTransmissionFailed SourceID string
  | CannotOpenFile string
  | BufferedReaderWriterCannotOpenFile string
  | CannotReadFile SourceID string string
  | CannotWriteToFile string
  | PostprocessingNotKeepingUp SourceID nat
  | EmptySourceBuffer SourceID string
  | CannotReadFromQueue SourceID string
  | CannotWriteToQueue SourceID string
  | CannotDispatch string
  | RequestSourceIDMismatch SourceID SourceID
  | TrmWithEmptyFragment SourceID string
  | RequestOnEmptyBuffer SourceID string
  | FailedReadoutInitialization string string
  | FailedFakeCardInitialization string
  | NoImplementationAvailableError SourceID string string
  | ResourceQueueError string string
  | DataRecorderModuleResourceQueueError string string
  | GenericResourceQueueError string string
  | ConfigurationNote string string
  | ConfigurationProblem SourceID string
  | RequestTimedOut SourceID
  | VerboseRequestTimedOut SourceID u64 u16 u32 u64 u64 string
  | EndOfRunEmptyFragment SourceID
  | DataPacketArrivedTooLate u32 u64 u64 "64 word" 'd

text \<open>The text of each issue.\<close>

fun issue_message :: "(SourceID \<Rightarrow> string) \<Rightarrow> ('d \<Rightarrow> string) \<Rightarrow> 'd issue \<Rightarrow> string" where
  "issue_message show_source show_double (InternalError sid error) =
     ''SourceID['' @ show_source sid @ ''] Internal Error: '' @ error"
| "issue_message show_source show_double (CommandError sid commanderror) =
     ''SourceID['' @ show_source sid @ ''] Command Error: '' @ commanderror"
| "issue_message show_source show_double (InitializationError initerror) =
     ''Readout Initialization Error: '' @ initerror"
| "issue_message show_source show_double (ConfigurationError sid conferror) =
     ''SourceID['' @ show_source sid @ ''] Readout Configuration Error: '' @ conferror"
| "issue_message show_source show_double (BufferedReaderWriterConfigurationError conferror) =
     ''Configuration Error: '' @ conferror"
| "issue_message show_source show_double (DataRecorderConfigurationError conferror) =
     ''Configuration Error: '' @ conferror"
| "issue_message show_source show_double (GenericConfigurationError conferror) =
     ''Configuration Error: '' @ conferror"
| "issue_message show_source show_double (TimeSyncTransmissionFailed sid dest) =
     ''SourceID '' @ show_source sid @ '' failed to send send TimeSync message to '' @ dest @ ''.''"
| "issue_message show_source show_double (CannotOpenFile filename) =
     ''Couldn't open binary file: '' @ filename"
| "issue_message show_source show_double (BufferedReaderWriterCannotOpenFile filename) =
     ''Couldn't open file: '' @ filename"
| "issue_message show_source show_double (CannotReadFile sid filename errorstr) =
     '' Couldn't read properly the binary file: '' @ filename @ '' Cause: '' @ errorstr"
| "issue_message show_source show_double (CannotWriteToFile filename) =
     ''Could not write to file: '' @ filename"
| "issue_message show_source show_double (PostprocessingNotKeepingUp sid i) =
     ''SourceID['' @ show_source sid @ ''] Postprocessing has too much backlog, thread: '' @ decimal i"
| "issue_message show_source show_double (EmptySourceBuffer sid filename) =
     ''SourceID['' @ show_source sid @ ''] Source Buffer is empty, check file: '' @ filename"
| "issue_message show_source show_double (CannotReadFromQueue sid queuename) =
     ''SourceID['' @ show_source sid @ ''] Failed attempt to read from the queue: '' @ queuename"
| "issue_message show_source show_double (CannotWriteToQueue sid queuename) =
     ''SourceID['' @ show_source sid @ ''] Failed attempt to write to the queue: '' @ queuename @
     ''. Data will be lost!''"
| "issue_message show_source show_double (CannotDispatch name) =
     ''Module ['' @ name @ ''] Failed attempt to write to the queue: '' @ ''. Data will be lost!''"
| "issue_message show_source show_double (RequestSourceIDMismatch sid other) =
     ''SourceID['' @ show_source sid @ ''] Got request for SourceID: '' @ show_source other"
| "issue_message show_source show_double (TrmWithEmptyFragment sid trmdetails) =
     ''SourceID['' @ show_source sid @ ''] Trigger Matching result with empty fragment: '' @ trmdetails"
| "issue_message show_source show_double (RequestOnEmptyBuffer sid trmdetails) =
     ''SourceID['' @ show_source sid @ ''] Request on empty buffer: '' @ trmdetails"
| "issue_message show_source show_double (FailedReadoutInitialization name initparams) =
     '' Couldnt initialize Readout with current Init arguments '' @ initparams @ '' ''"
| "issue_message show_source show_double (FailedFakeCardInitialization name) =
     ''Could not initialize fake card '' @ name"
| "issue_message show_source show_double (NoImplementationAvailableError sid impl rawt) =
     '' No '' @ impl @ '' implementation available for raw type: '' @ rawt @ '' ''"
| "issue_message show_source show_double (ResourceQueueError queueType moduleName) =
     '' The '' @ queueType @ '' queue was not successfully created for '' @ moduleName"
| "issue_message show_source show_double (DataRecorderModuleResourceQueueError name queueType) =
     '' The '' @ queueType @ '' queue was not successfully created. ''"
| "issue_message show_source show_double (GenericResourceQueueError queueType moduleName) =
     ''The '' @ queueType @ '' queue was not successfully created for '' @ moduleName"
| "issue_message show_source show_double (ConfigurationNote name txt) =
     ''ConfigurationNote: '' @ txt"
| "issue_message show_source show_double (ConfigurationProblem sid txt) =
     ''SourceID['' @ show_source sid @ ''] Configuration problem: '' @ txt"
| "issue_message show_source show_double (RequestTimedOut sid) =
     ''SourceID['' @ show_source sid @ ''] Request timed out''"
| "issue_message show_source show_double (VerboseRequestTimedOut sid trignum seqnum runnum win_begin win_end dest) =
     ''SourceID['' @ show_source sid @ ''] Request timed out for trig/seq_num '' @ decimal (unat trignum) @
     ''.'' @ decimal (unat seqnum) @ '', run_num '' @ decimal (unat runnum) @ '', window begin/end '' @
     decimal (unat win_begin) @ ''/'' @ decimal (unat win_end) @ '', data_destination: '' @ dest"
| "issue_message show_source show_double (EndOfRunEmptyFragment sid) =
     ''SourceID['' @ show_source sid @ ''] Empty fragment at the end of the run''"
| "issue_message show_source show_double (DataPacketArrivedTooLate run ts1 ts2 tick_diff msec_diff) =
     ''Received a late data packet in run '' @ decimal (unat run) @ '', payload first timestamp = '' @
     decimal (unat ts1) @ '', request_handler cutoff timestamp = '' @ decimal (unat ts2) @ '', difference = '' @
     signed_decimal (sint tick_diff) @ '' ticks, '' @ show_double msec_diff @ '' msec.''"

text \<open>The issue an issue derives from, with its attributes; code that handles the base handles it too.\<close>

fun base_issue :: "'d issue \<Rightarrow> 'd issue option" where
  "base_issue (CannotReadFile sid filename errorstr) = Some (ConfigurationError sid filename)"
| "base_issue (FailedReadoutInitialization name initparams) = Some (InitializationError name)"
| "base_issue (NoImplementationAvailableError sid impl rawt) = Some (ConfigurationError sid impl)"
| "base_issue (DataRecorderModuleResourceQueueError name queueType) = Some (DataRecorderConfigurationError name)"
| "base_issue _ = None"

section \<open>What the models report\<close>

text \<open>The issue of each event of a request handler; a sent fragment is none.\<close>

fun rh_issue :: "'f request_handler \<Rightarrow> 'f rh_event \<Rightarrow> 'd issue option" where
  "rh_issue h (FragmentSent dest frag) = None"
| "rh_issue h (rh_event.CannotWriteToQueue dest) = Some (CannotWriteToQueue (sourceid h) dest)"
| "rh_issue h rh_event.RequestOnEmptyBuffer = Some (RequestOnEmptyBuffer (sourceid h) ''Data not found'')"
| "rh_issue h (rh_event.VerboseRequestTimedOut dr) =
     Some (VerboseRequestTimedOut (sourceid h) (trigger_number dr) (sequence_number dr) (run_number dr)
             (window_begin dr) (window_end dr) (data_destination dr))"
| "rh_issue h AutoPopOutOfRange = Some (ConfigurationError (sourceid h) ''Auto-pop percentage out of range.'')"
| "rh_issue h RecordingStillRunning =
     Some (CommandError (sourceid h) ''A recording is still running, no new recording was started!'')"
| "rh_issue h NotConfiguredForRecording = Some (CommandError (sourceid h) ''DLH is not configured for recording'')"
| "rh_issue h (rh_event.CannotWriteToFile file) = Some (CannotWriteToFile file)"

text \<open>The issues of a data handler; 62500 ticks make a millisecond.\<close>

fun dh_issue :: "(int \<Rightarrow> 'd) \<Rightarrow> ('b, 'q, 'a, 'f) data_handler \<Rightarrow> dh_event \<Rightarrow> 'd issue option" where
  "dh_issue div_62500 s (dh_event.DataPacketArrivedTooLate ts) =
     (let diff1 = ts - cutoff_timestamp s
      in Some (DataPacketArrivedTooLate (dh_run_number s) ts (cutoff_timestamp s) diff1 (div_62500 (sint diff1))))"
| "dh_issue div_62500 s (TimeSyncSent msg) = None"
| "dh_issue div_62500 s (dh_event.TimeSyncTransmissionFailed dest) = Some (TimeSyncTransmissionFailed (dh_sourceid s) dest)"
| "dh_issue div_62500 s (dh_event.RequestSourceIDMismatch other) = Some (RequestSourceIDMismatch (dh_sourceid s) other)"
| "dh_issue div_62500 s ReceiverUnset = Some (ConfigurationError (dh_sourceid s) ''Non callback mode, and receiver is unset!'')"
| "dh_issue div_62500 s LatencyBufferNotAllocated =
     Some (ConfigurationError (dh_sourceid s) ''Latency Buffer can't be allocated with size!'')"

section \<open>What the messages tell\<close>

text \<open>
  The warning about a request that waited too long identifies it: two such warnings of a handler
  are the same only for requests with the same trigger, sequence and run numbers, window and
  destination.
\<close>

lemma timeout_warning_identifies_request:
  "map_option (issue_message show_source show_double) (rh_issue h (rh_event.VerboseRequestTimedOut dr)) =
   map_option (issue_message show_source show_double) (rh_issue h (rh_event.VerboseRequestTimedOut dr')) \<longleftrightarrow>
   trigger_number dr = trigger_number dr' \<and> sequence_number dr = sequence_number dr' \<and> run_number dr = run_number dr' \<and>
   window_begin dr = window_begin dr' \<and> window_end dr = window_end dr' \<and> data_destination dr = data_destination dr'"
proof -
  have sep: "\<not> is_digit (CHR ''.'')" "\<not> is_digit (CHR '','')" "\<not> is_digit (CHR ''/'')"
    by (simp_all add: is_digit_def)
  show ?thesis
    by (simp add: decimal_then sep word_unat_eq_iff)
qed

text \<open>Every report of a request handler names its source, but for a failed write to the recording file.\<close>

lemma handler_issue_names_source:
  assumes "rh_issue h ev = Some i"
  shows "prefix (''SourceID['' @ show_source (sourceid h) @ '']'') (issue_message show_source show_double i) \<or>
         (\<exists>file. i = CannotWriteToFile file)"
  using assms by (cases ev) (auto simp: prefix_def)

end
