(* ===== verification/Spec2Isabelle.thy ===== *)
theory Spec2Isabelle
  imports Request_Lifecycle Cleanup_Protocol Spsc_Protocol Utilities Recording_Contract Time_Sync Callback_Registry
    Skip_List_Contract Empty_Fragments Recorder Module_Contract Zero_Copy_Contract Request_Tests
    Spsc_Memory Recording_Steps Request_Steps Retention Object_Lifetimes Issues
begin

text \<open>
  A verification library of \<open>datahandlinglibs\<close>, the C++ templates with which DUNE DAQ applications
  receive detector data, keep the last seconds of it in a latency buffer, and cut from it the
  fragments that a trigger asks for.

  \<^bold>\<open>The program.\<close> A data handler module (\<open>RawDataHandlerBase\<close>) owns a \<open>DataHandlingModel\<close>, which owns
  three parts and passes data between them: every received element goes through the pre-processing
  functions of a \<open>TaskRawDataProcessorModel\<close> into a latency buffer (\<open>IterableQueueModel\<close> with the
  searches of \<open>BinarySearchQueueModel\<close> or \<open>FixedRateQueueModel\<close>, or \<open>SkipListLatencyBufferModel\<close>), and
  pointers to stored elements go to the post-processing threads. Requests are dispatched to a
  request handler (\<open>DefaultRequestHandlerModel\<close> and the variants for skip lists, empty fragments and
  zero-copy recording), which looks up the window in the buffer, keeps requests for data that is not
  there yet, removes old data, and records the stream to disk. A fake card reader
  (\<open>FakeCardReaderBase\<close>) runs source emulators that replay a file; recorder and subscriber models and a
  few utilities (buffered files, rate limiter, buffer copy) complete the library.

  \<^bold>\<open>Conventions.\<close> A class is a record of its members, a method a function on the record that returns
  the new state. Exceptions, failed assertions and undefined behaviour (null or out-of-range
  access, use of freed memory) are values of \<open>fault\<close> in \<open>fault + 'a\<close>; \<open>None\<close> in an option around it is
  a loop that does not return. Unsigned and atomic integers are words of their width. What is not
  in the repository is an argument: the readout type (\<open>readout_ops\<close>), fragments, senders and error
  bits (\<open>daq_env\<close>), the file system and compression (\<open>file_env\<close>), clocks (lists of readings), random
  numbers, folly's queue and skip list (records of operations with their laws as locales), the content of
  a variable without an initialiser (\<open>uninit_element\<close>, the key of the recording). A
  thread's loop is modelled round by round; what other threads do in between is part of the
  schedule. An operation that waits for other threads either includes what they still do (\<open>stop_rp\<close>
  runs the post-processing threads until their queues are empty) or is a step that is possible only when
  the wait is over (\<open>rh_threads_done\<close> for the recording and the request pool in \<open>stop\<close>).

  \<^bold>\<open>Theories.\<close>
  \<^item> \<open>Prelude\<close>: words, faults and their sequencing, ring indices; collections \<open>ring_simps\<close>, \<open>fault_simps\<close>.
  \<^item> \<open>Iterable_Queue\<close>, \<open>Queue_Contract\<close> (models/IterableQueueModel.hpp, .hxx): memory management, queue
    operations, iterators, \<open>conf\<close> and \<open>scrap\<close>; the invariant \<open>queue_inv\<close> and the abstraction \<open>contents\<close>,
    refinement of a bounded list, iteration, configuration and its two broken combinations of flags.
  \<^item> \<open>Spsc_Protocol\<close> (the same file): \<open>write\<close> and \<open>read\<close> cut at their atomic accesses, one producer and one
    consumer in any interleaving; \<open>Spsc_Memory\<close>: the same steps under the memory orders of the code, where an
    acquire load may return an old value.
  \<^item> \<open>Readout_Types\<close> (ReadoutTypes.hpp), \<open>Searchable_Queues\<close> (models/detail/BinarySearchQueueModel.hxx,
    FixedRateQueueModel.hxx), \<open>Latency_Buffer\<close> (concepts/LatencyBufferConcept.hpp): the lower bounds, and
    the contracts \<open>latency_buffer\<close>, \<open>fifo_buffer\<close>, \<open>searchable_buffer\<close> through which clients use a buffer;
    \<open>Concurrent_Access\<close>: the contracts \<open>growing_buffer\<close> and \<open>concurrent_buffer\<close>, what an iterator of one thread
    is worth after writes and pops of another.
  \<^item> \<open>Frame_Error_Registry\<close> (FrameErrorRegistry.hpp); \<open>Float32\<close>: the single-precision arithmetic of the
    auto-pop sizes and of the tests; \<open>Buffered_Files\<close> (utils/BufferedFileWriter.hpp, BufferedFileReader.hpp,
    FileSourceBuffer.hpp): a device may refuse writes (\<open>device_takes\<close>; so it does for buffers that \<open>O_DIRECT\<close> does
    not allow), after which the stream is bad and the following writes fail; a reader looks at the file when it reads.
    What is proved of file contents assumes a device that takes the writes made (\<open>reliable\<close>).
  \<^item> \<open>Request_Handler\<close> (concepts/RequestHandlerConcept.hpp, models/DefaultRequestHandlerModel.hpp, .hxx):
    every operation; \<open>Request_Contract\<close>: which frames an answer holds, termination, what cleanup removes;
    \<open>Request_Steps\<close>: a request whose reads are interleaved with writes to the buffer;
    \<open>Recording_Contract\<close>: what a recording writes while data arrives and cleanup runs (a round of the
    recording task is one step); \<open>Recording_Steps\<close>: the same with writes and cleanups between any two reads
    of a round;
    \<open>Request_Lifecycle\<close>: requests across the threads; \<open>Cleanup_Protocol\<close>: the condition variable between
    requests and cleanup, for any number of threads.
  \<^item> \<open>Skip_List\<close>, \<open>Skip_List_Contract\<close> (models/SkipListLatencyBufferModel, DefaultSkipListRequestHandler),
    \<open>Empty_Fragments\<close> (models/EmptyFragmentRequestHandlerModel), \<open>Zero_Copy_Recording\<close>, \<open>Zero_Copy_Contract\<close>
    (models/ZeroCopyRecordingRequestHandlerModel): the other buffer and the other handlers; the element size and
    \<open>fixed_payload_size\<close> of the readout type are separate arguments of zero-copy recording.
  \<^item> \<open>Raw_Processor\<close> (models/TaskRawDataProcessorModel), \<open>Data_Handling\<close>, \<open>Data_Contract\<close>,
    \<open>Time_Sync\<close> (models/DataHandlingModel), \<open>Callback_Registry\<close> (DataMoveCallbackRegistry);
    \<open>Handler_Typing\<close>: the data handler with its request handler as one step relation over all threads (record
    commands and the rounds of the recordings they begin included), the type property of its state;
    \<open>Handler_Stream\<close>: the same steps paired with the stream of accepted elements, of which the buffer holds
    the newest part; \<open>Retention\<close>: the sizes and the pace with which no element is refused.
  \<^item> \<open>Object_Lifetimes\<close>: construction and destruction of the queue and of the buffered files.
  \<^item> \<open>Issues\<close> (DataHandlingIssues.hpp): the issue types with their messages, and which issue each fault and
    event of the handlers stands for.
  \<^item> \<open>Utilities\<close> (utils/BufferCopy.hpp, RateLimiter.hpp, ErrorBitGenerator.hpp), \<open>Source_Emulator\<close>
    (models/SourceEmulatorModel), \<open>Recorder\<close> (models/RecorderModel, DataSubscriberModel).
  \<^item> \<open>Module_Control\<close>, \<open>Module_Contract\<close> (FakeCardReaderBase, RawDataHandlerBase): the commands of the
    modules over the concepts of their models.
  \<^item> \<open>Test_Utilities\<close> (testutils/TestUtilities.hpp): filling a buffer, and the tests of the lower bound,
    which pass for every readout type; \<open>Request_Tests\<close>: the same for the tests of fragment pieces, over the
    contract \<open>framed_payload\<close> of the frames in a payload.
  \<^item> This theory: the path from received data to a served request, across data handler, buffer and
    request handler; requests see all of the stream that was received, also when they come before their data.

  \<^bold>\<open>Loops and bounds.\<close> Loops that end by structure are \<open>fun\<close> or \<open>function\<close> with a measure; searches,
  iterations up to an iterator, cleanup by age, deferred post-processing, circular copying and the
  search for an aligned element are \<open>partial_function (option)\<close>, and the properties say when they return
  (or, for the last one, when they do not). No fuel is used. Queues have at least 2 and fewer than
  \<open>2 ^ 31\<close> slots, because occupancy is computed in an \<open>int\<close>; elements are assumed to end within 64 bits
  of ticks. Post-processing, monitoring and requests of several threads are interleaved freely;
  memory accesses are sequentially consistent, except in \<open>Spsc_Memory\<close>, where loads may be stale.

  \<^bold>\<open>Not modelled.\<close> Log messages, names of threads, sleeps, and rates in double precision (they are
  published only); the numbers of the log levels (ReadoutLogging.hpp); pure interfaces without an implementation here
  (concepts/SourceConcept.hpp); the monitoring schema, scripts, test applications and unit tests.
\<close>

section \<open>From received data to a served request\<close>

text \<open>A task whose request is found sends its fragment.\<close>

lemma request_task_sends:
  assumes "data_request R L D dr b (h\<lparr>requests_running := requests_running h + 1\<rparr>) =
             Some (Inr (result, h'))"
    and "result_code result \<noteq> kNotYet" and "result_code result \<noteq> kPartial"
    and "send_ok D (data_destination dr) (fragment result)"
  shows "request_task R L D now took dr is_retry b h =
           Some (Inr (account_response took
             (emit (FragmentSent (data_destination dr) (fragment result))
               (h'\<lparr>requests_running := requests_running h' - 1\<rparr>))))"
  using assms by (simp add: request_task_def respond_def)

text \<open>A request for a covered window is answered with the frames of the buffer in that window.\<close>

lemma covered_request_answered:
  fixes b :: "'a iterable_queue" and dr :: DataRequest
  assumes ord: "readout_order R" and inv: "queue_inv b" and ne: "contents b \<noteq> []" and srt: "ts_sorted R (contents b)"
    and uni: "uniform_span R (contents b)" and reg: "\<forall>x \<in> set (contents b). regular_frames R x"
    and w: "window_reachable R (window_begin dr) (contents b)"
    and covered: "coverage_code R (window_begin dr) (window_end dr) (contents b) = kFound"
    and sent: "\<forall>f. send_ok D (data_destination dr) f"
  shows "\<exists>h' pieces. request_task R (BinarySearchQueueModel R) D now took dr is_retry b h = Some (Inr h') \<and>
     events h' = events h @
       [FragmentSent (data_destination dr)
          (set_header_fields D (create_fragment_header D h dr) (make_fragment D pieces))] \<and>
     (\<Union>p \<in> set pieces. piece_frames R p) = frames_in_window R (window_begin dr) (window_end dr) (contents b)"
proof -
  let ?L = "BinarySearchQueueModel R" and ?pieces = "window_pieces R (window_begin dr) (window_end dr) (contents b)"
  let ?g = "h\<lparr>requests_running := requests_running h + 1\<rparr>"
  have sb: "searchable_buffer ?L queue_inv contents queue_pos R (\<lambda>_. ts_sorted R)"
    using readout_order.binary_search_provides [OF ord] by (rule forward_searchable_buffer.axioms(1))
  have hdr: "mark_result D kFound (create_fragment_header D ?g dr) = create_fragment_header D h dr"
    by (simp add: create_fragment_header_def)
  have req: "data_request R ?L D dr b ?g =
      Some (Inr (finish_fragment D dr kFound (create_fragment_header D h dr) ?pieces, count_result kFound ?g))"
    using searchable_buffer.data_request_reachable [OF sb inv, where h = ?g and dr = dr and D = D] ne srt uni w covered hdr
    by simp
  have "expected_tick_difference R \<le> window_begin dr"
    using tick_le_begin [OF _ uni, of "hd (contents b)"] reg w ne by (simp add: window_reachable_def)
  then show ?thesis
    using request_task_sends [OF req, of now took is_retry] sent window_pieces_frames [OF reg]
    by (intro exI [of _ ?pieces] exI conjI) (auto simp: finish_fragment_def account_response_def emit_def)
qed

text \<open>
  Received data is served: when a data handler with a binary-search queue has room for the items
  it receives, and what pre-processing makes of them continues the stored elements in increasing
  order of timestamps, then all of them are stored, none is counted as overwritten, and a request
  that is dispatched to this handler afterwards, for a covered window, is posted and answered by
  its task with one fragment, sent to the request's destination, whose pieces cover exactly the
  frames of the old and the new elements that overlap the window.
\<close>

theorem received_data_is_served:
  fixes s :: "('a iterable_queue, 'q, 'a, 'f) data_handler" and ar :: AddressedRequest
  assumes ord: "readout_order R" and inv: "queue_inv (latency_buffer_impl s)"
    and room: "stored (latency_buffer_impl s) + length xs < unat (qsize (latency_buffer_impl s))"
    and pre: "preprocess_stream (raw_processor_impl s) (error_registry (request_handler_impl s)) xs = (ys, reg)"
  defines "dr \<equiv> addressed_request ar" and "zs \<equiv> contents (latency_buffer_impl s) @ ys"
  assumes here: "addressed_to ar = dh_sourceid s"
    and ne: "zs \<noteq> []" and srt: "ts_sorted R zs" and uni: "uniform_span R zs"
    and reg: "\<forall>x \<in> set zs. regular_frames R x"
    and w: "window_reachable R (window_begin dr) zs"
    and covered: "coverage_code R (window_begin dr) (window_end dr) zs = kFound"
    and sent: "\<forall>f. send_ok D (data_destination dr) f"
  shows "\<exists>s' h' pieces.
     process_items R (BinarySearchQueueModel R) P xs s = Inr s' \<and>
     contents (latency_buffer_impl s') = zs \<and>
     num_payloads_overwritten s' = num_payloads_overwritten s \<and>
     posted (request_handler_impl (dispatch_requests ar s')) = posted (request_handler_impl s) @ [(dr, False)] \<and>
     request_task R (BinarySearchQueueModel R) D now took dr False (latency_buffer_impl s')
       ((request_handler_impl (dispatch_requests ar s'))\<lparr>posted := posted (request_handler_impl s)\<rparr>) = Some (Inr h') \<and>
     events h' = events (request_handler_impl s) @
       [FragmentSent (data_destination dr)
          (set_header_fields D (create_fragment_header D (request_handler_impl s) dr) (make_fragment D pieces))] \<and>
     (\<Union>p \<in> set pieces. piece_frames R p) = frames_in_window R (window_begin dr) (window_end dr) zs"
proof -
  let ?L = "BinarySearchQueueModel R" and ?h = "request_handler_impl s"
  obtain s' where s': "process_items R ?L P xs s = Inr s'" "queue_inv (latency_buffer_impl s')"
      "contents (latency_buffer_impl s') = zs" "request_handler_impl s' = ?h\<lparr>error_registry := reg\<rparr>"
      "dh_sourceid s' = dh_sourceid s" "num_payloads_overwritten s' = num_payloads_overwritten s"
    using process_items_room [OF inv room pre, of R "bs_lower_bound R" P]
    unfolding BinarySearchQueueModel_def zs_def by blast
  define h1 where "h1 = (request_handler_impl (dispatch_requests ar s'))\<lparr>posted := posted ?h\<rparr>"
  have h1: "posted (request_handler_impl (dispatch_requests ar s')) = posted ?h @ [(dr, False)]"
      "h1 = ?h\<lparr>error_registry := reg\<rparr>"
    using here s'(4,5) by (simp_all add: h1_def dispatch_requests_def issue_request_def count_request_def dr_def)
  have hdr: "create_fragment_header D h1 dr = create_fragment_header D ?h dr" "events h1 = events ?h"
    by (simp_all add: h1(2) create_fragment_header_def)
  obtain h' pieces where "request_task R ?L D now took dr False (latency_buffer_impl s') h1 = Some (Inr h')"
      "events h' = events ?h @ [FragmentSent (data_destination dr)
         (set_header_fields D (create_fragment_header D ?h dr) (make_fragment D pieces))]"
      "(\<Union>p \<in> set pieces. piece_frames R p) = frames_in_window R (window_begin dr) (window_end dr) zs"
    using covered_request_answered [OF ord s'(2), of dr D now took False h1] s'(3) ne srt uni reg w covered sent hdr
    by auto
  then show ?thesis using s'(1,3,6) h1(1) unfolding h1_def by blast
qed

theorem received_data_is_served_witness:
  "\<exists>s' h' pieces.
     process_items (dummy_ops 16) (BinarySearchQueueModel (dummy_ops 16)) ring_pcq [frame_at 164, frame_at 180]
       (sample_dh frames_queue 0) = Inr s' \<and>
     contents (latency_buffer_impl s') = map frame_at [100, 116, 132, 148, 164, 180] \<and>
     request_task (dummy_ops 16) (BinarySearchQueueModel (dummy_ops 16)) plain_daq 0 5 (sample_request 120 170) False
       (latency_buffer_impl s')
       ((request_handler_impl (dispatch_requests
           \<lparr>addressed_to = \<lparr>subsystem = 1, source_id = 1\<rparr>, addressed_request = sample_request 120 170\<rparr> s'))
        \<lparr>posted := []\<rparr>) = Some (Inr h') \<and>
     length (events h') = 1 \<and>
     (\<Union>p \<in> set pieces. piece_frames (dummy_ops 16) p) =
       {(frame_at 116, 0), (frame_at 132, 0), (frame_at 148, 0), (frame_at 164, 0)}"
proof -
  let ?R = "dummy_ops 16" and ?s = "sample_dh frames_queue 0" and ?xs = "[frame_at 164, frame_at 180]"
  let ?ar = "\<lparr>addressed_to = \<lparr>subsystem = 1, source_id = 1\<rparr>, addressed_request = sample_request 120 170\<rparr>"
  let ?zs = "contents (latency_buffer_impl ?s) @ ?xs" and ?dr = "addressed_request ?ar"
  have zs: "?zs = map frame_at [100, 116, 132, 148, 164, 180]" by (simp add: frames_queue_contents)
  have frames: "frames_in_window ?R (window_begin ?dr) (window_end ?dr) ?zs =
      {(frame_at 116, 0), (frame_at 132, 0), (frame_at 148, 0), (frame_at 164, 0)}"
    unfolding zs by (auto simp: frames_in_window_def frame_overlaps_def)
  have inv: "queue_inv (latency_buffer_impl ?s)" using frames_queue_inv by simp
  have room: "stored (latency_buffer_impl ?s) + length ?xs < unat (qsize (latency_buffer_impl ?s))"
    by (simp add: frames_stored) (simp add: frames_queue_def)
  have pre: "preprocess_stream (raw_processor_impl ?s) (error_registry (request_handler_impl ?s)) ?xs = (?xs, [])"
    by (simp add: preprocess_item_def new_raw_processor_def sample_dh_def)
  have here: "addressed_to ?ar = dh_sourceid ?s" by (simp add: sample_dh_def)
  have ne: "?zs \<noteq> []" by simp
  have elems: "ts_sorted ?R ?zs" "uniform_span ?R ?zs" "\<forall>x \<in> set ?zs. regular_frames ?R x"
    unfolding zs by (simp_all add: uniform_span_def regular_frames_def ts_sorted_def)
  have w: "window_reachable ?R (window_begin ?dr) ?zs"
    unfolding zs by (simp add: window_reachable_def request_element_def dummy_less_def dummy_default)
  have c: "coverage_code ?R (window_begin ?dr) (window_end ?dr) ?zs = kFound"
    unfolding zs by (simp add: coverage_code_def)
  have sent: "\<forall>f. send_ok plain_daq (data_destination ?dr) f" by (simp add: plain_daq_def)
  have none: "posted (request_handler_impl ?s) = []" "events (request_handler_impl ?s) = []"
    by (simp_all add: sample_dh_def sample_handler_def new_request_handler_def)
  obtain s' h' pieces where
    "process_items ?R (BinarySearchQueueModel ?R) ring_pcq ?xs ?s = Inr s'" "contents (latency_buffer_impl s') = ?zs"
    "request_task ?R (BinarySearchQueueModel ?R) plain_daq 0 5 ?dr False (latency_buffer_impl s')
       ((request_handler_impl (dispatch_requests ?ar s'))\<lparr>posted := posted (request_handler_impl ?s)\<rparr>) = Some (Inr h')"
    "length (events h') = 1"
    "(\<Union>p \<in> set pieces. piece_frames ?R p) = frames_in_window ?R (window_begin ?dr) (window_end ?dr) ?zs"
    using received_data_is_served [OF dummy.readout_order_axioms inv room pre here ne elems w c sent,
        of ring_pcq 0 5] none(2)
    by (metis append_Nil length_Cons list.size(3) One_nat_def)
  then show ?thesis unfolding frames unfolding zs none(1) AddressedRequest.simps by blast
qed

section \<open>Requests see what was received\<close>

text \<open>Elements that cleanups have taken away do not matter to a window that the buffer can serve.\<close>

lemma window_ignores_removed:
  assumes ord: "readout_order R" and srt: "ts_sorted R xs" and uni: "uniform_span R xs"
    and reg: "\<forall>x \<in> set xs. regular_frames R x" and k: "k < length xs" and w: "window_reachable R s (drop k xs)"
  shows "frames_in_window R s e (drop k xs) = frames_in_window R s e xs"
proof -
  have old: "element_end R x \<le> s" if x: "x \<in> set (take k xs)" for x
  proof -
    have "xs = take k xs @ drop k xs" by simp
    moreover have "hd (drop k xs) \<in> set (drop k xs)" using k by simp
    ultimately have "get_timestamp R x < get_timestamp R (hd (drop k xs))"
      using srt x unfolding ts_sorted_def by (metis sorted_wrt_append)
    also have "\<dots> \<le> s - default_span R"
      using w readout_order.not_less_ts [OF ord] readout_order.get_set_timestamp [OF ord]
      by (metis (no_types, lifting) window_reachable_def request_element_def default_span_def)
    finally have "unat (get_timestamp R x) + unat (default_span R) \<le> unat s"
      using w by (simp add: window_reachable_def word_less_nat_alt word_le_nat_alt unat_sub)
    then show ?thesis using unat_element_end [OF uni in_set_takeD [OF x]] by (simp add: word_le_nat_alt)
  qed
  have "\<not> frame_overlaps R s e x j" if "x \<in> set (take k xs)" "j < length (frame_timestamps R x)" for x j
    using old [OF that(1)] frame_within_element(2) [of R x j] reg in_set_takeD [OF that(1)] that(2)
    by (auto simp: frame_overlaps_def word_le_nat_alt)
  moreover have "set xs = set (take k xs) \<union> set (drop k xs)" by (metis append_take_drop_id set_append)
  ultimately show ?thesis by (auto simp: frames_in_window_def)
qed

text \<open>
  C3. Requests see the stream of received data, not only the buffer: in every state that a data
  handler with a binary-search queue reaches from \<open>init\<close>, whatever was received, cleaned up, dispatched,
  answered, recorded by record commands, started and stopped before and in whichever order, a posted request
  for a covered window is answered by its task with one fragment that covers exactly the frames, of all the
  elements accepted since the buffer was last emptied, that overlap the window. It is assumed that the
  accepted elements (there is one at least) have increasing timestamps, span equally many ticks, end within
  64 bits and hold their frames one after the other; that the window is covered by what is stored in the
  state: it ends not after the newest stored element begins, and begins at least one element span after the
  oldest one that is still stored (more exactly, the key of the search is not ordered before that element:
  \<open>window_reachable\<close>), so cleanup has not come near it; and that sending the fragment succeeds. \<open>init\<close> gets a
  well-formed empty buffer, a processor without queues and a valid size for them; the post-processing queues
  are bounded FIFOs, and a default allocation (of a scrapped buffer) succeeds.
\<close>

theorem request_sees_received_stream:
  fixes P :: "('q, 'a option) pcq_ops" and R :: "'a readout_ops" and dr :: DataRequest
  assumes queues: "bounded_fifo P pcq_inv elems valid_size" "valid_size n" "items_to_postprocess_queues processor = []"
    and b: "queue_inv b" "contents b = []" and mem: "alloc_succeeds env StdMalloc 2"
    and init: "init_dh P D fenv iom_ok inputs outputs (Inr b) broken processor n hconf delay
        (new_data_handler pid unset_id unset_run unset_delay no_buffer no_processor no_handler unset_t0) = Inr s0"
    and steps: "rtranclp (history_step R (BinarySearchQueueModel R) P D fenv (scrap_q env)) (s0, []) (s, xs)"
    and ord: "readout_order R" and ne: "xs \<noteq> []" and srt: "ts_sorted R xs" and uni: "uniform_span R xs"
    and reg: "\<forall>x \<in> set xs. regular_frames R x"
  defines "h \<equiv> request_handler_impl s" and "stored_now \<equiv> contents (latency_buffer_impl s)"
  assumes posted: "posted h = earlier @ (dr, is_retry) # later"
    and w: "window_reachable R (window_begin dr) stored_now"
    and covered: "coverage_code R (window_begin dr) (window_end dr) stored_now = kFound"
    and sent: "\<forall>f. send_ok D (data_destination dr) f"
  shows "\<exists>h' pieces.
     request_task R (BinarySearchQueueModel R) D now took dr is_retry (latency_buffer_impl s)
       (h\<lparr>posted := earlier @ later\<rparr>) = Some (Inr h') \<and>
     history_step R (BinarySearchQueueModel R) P D fenv (scrap_q env) (s, xs) (s\<lparr>request_handler_impl := h'\<rparr>, xs) \<and>
     events h' = events h @
       [FragmentSent (data_destination dr)
          (set_header_fields D (create_fragment_header D h dr) (make_fragment D pieces))] \<and>
     (\<Union>p \<in> set pieces. piece_frames R p) = frames_in_window R (window_begin dr) (window_end dr) xs"
proof -
  let ?g = "h\<lparr>posted := earlier @ later\<rparr>"
  have "history_inv pcq_inv (s, xs)"
    by (rule history_from_init [OF pointer_queues.intro [OF queues(1)] queues(2,3) b mem init steps [unfolded BinarySearchQueueModel_def]])
  then obtain k where k: "stored_now = drop k xs" "k < length xs" and inv: "queue_inv (latency_buffer_impl s)"
    using ne by (auto simp: history_inv_def dh_ok_def stored_now_def)
  have sub: "set stored_now \<subseteq> set xs" unfolding k(1) by (rule set_drop_subset)
  have now: "stored_now \<noteq> []" "ts_sorted R stored_now" "uniform_span R stored_now" "\<forall>x \<in> set stored_now. regular_frames R x"
    using k ts_sorted_drop [OF srt, of k] uni reg sub by (auto simp: uniform_span_def)
  have g: "create_fragment_header D ?g dr = create_fragment_header D h dr" "events ?g = events h"
    by (simp_all add: create_fragment_header_def)
  obtain h' pieces where task: "request_task R (BinarySearchQueueModel R) D now took dr is_retry (latency_buffer_impl s) ?g = Some (Inr h')"
      "events h' = events h @ [FragmentSent (data_destination dr)
         (set_header_fields D (create_fragment_header D h dr) (make_fragment D pieces))]"
      "(\<Union>p \<in> set pieces. piece_frames R p) = frames_in_window R (window_begin dr) (window_end dr) stored_now"
    using covered_request_answered [OF ord inv, of dr D now took is_retry ?g] now w covered sent
    unfolding g stored_now_def by blast
  moreover have "frames_in_window R (window_begin dr) (window_end dr) stored_now =
      frames_in_window R (window_begin dr) (window_end dr) xs"
    unfolding k(1) by (rule window_ignores_removed [OF ord srt uni reg k(2) w [unfolded k(1)]])
  moreover have "history_step R (BinarySearchQueueModel R) P D fenv (scrap_q env) (s, xs) (s\<lparr>request_handler_impl := h'\<rparr>, xs)"
    using posted task(1) unfolding h_def by (intro Handled RunTask)
  ultimately show ?thesis by blast
qed

text \<open>A request of the sample handler for a window, and the frames it is to be answered with.\<close>

definition sample_sent :: "('b, 'q, 'a, 'f) data_handler \<Rightarrow> AddressedRequest" where
  "sample_sent s = \<lparr>addressed_to = dh_sourceid s, addressed_request = sample_request 120 140\<rparr>"

lemma dispatch_sample:
  "latency_buffer_impl (dispatch_requests (sample_sent s) s) = latency_buffer_impl s"
  "raw_processor_impl (dispatch_requests (sample_sent s) s) = raw_processor_impl s"
  "consumer_running (dispatch_requests (sample_sent s) s) = consumer_running s"
  "has_raw_data_receiver (dispatch_requests (sample_sent s) s) = has_raw_data_receiver s"
  "request_handler_impl (dispatch_requests (sample_sent s) s) = issue_request (sample_request 120 140) False (request_handler_impl s)"
  by (simp_all add: dispatch_requests_def sample_sent_def count_request_def)

lemma sample_frames:
  "ts_sorted (dummy_ops 16) (map frame_at [100, 116, 132, 148])" "uniform_span (dummy_ops 16) (map frame_at [100, 116, 132, 148])"
  "\<forall>x \<in> set (map frame_at [100, 116, 132, 148]). regular_frames (dummy_ops 16) x"
  "window_reachable (dummy_ops 16) 120 (map frame_at [100, 116, 132, 148])"
  "coverage_code (dummy_ops 16) 120 140 (map frame_at [100, 116, 132, 148]) = kFound"
  "frames_in_window (dummy_ops 16) 120 140 (map frame_at [100, 116, 132, 148]) = {(frame_at 116, 0), (frame_at 132, 0)}"
  by (auto simp: ts_sorted_def uniform_span_def regular_frames_def window_reachable_def request_element_def dummy_less_def
      dummy_default coverage_code_def frames_in_window_def frame_overlaps_def)

text \<open>A run that starts the handler, dispatches the request and receives frames.\<close>

type_synonym sample_state =
  "(dummy_frame iterable_queue, dummy_frame option iterable_queue, dummy_frame, plain_fragment) data_handler"

definition sample_run ::
  "dummy_frame list \<Rightarrow> sample_state \<Rightarrow> sample_state \<Rightarrow> dummy_frame consumer_locals \<Rightarrow> sample_state \<Rightarrow> bool" where
  "sample_run xs s0 s1 c s2 \<longleftrightarrow>
     init_sample ''raw_0'' (sample_conf \<lparr>numerator = 1, scale = 1\<rparr> \<lparr>numerator = 1, scale = 1\<rparr>) = Inr s0 \<and>
     start_dh 5 0 s0 = Inr s1 \<and>
     consume_round (dummy_ops 16) (BinarySearchQueueModel (dummy_ops 16)) ring_pcq 0 (Some xs)
       (fst (consume_begin (frame_at 0) 0 s1), dispatch_requests (sample_sent s1) s1) = Some (Inr (c, s2)) \<and>
     rtranclp (history_step (dummy_ops 16) (BinarySearchQueueModel (dummy_ops 16)) ring_pcq plain_daq sample_file_env (scrap_q plain_env))
       (s0, []) (s2, xs) \<and>
     contents (latency_buffer_impl s2) = xs \<and> dh_ok queue_inv s2 \<and> unat (qsize (latency_buffer_impl s2)) = 8 \<and>
     posted (request_handler_impl s2) = [(sample_request 120 140, False)] \<and> waiting_requests (request_handler_impl s2) = [] \<and>
     sint (request_timeout_ms (request_handler_impl s2)) = 100 \<and> run_marker (request_handler_impl s2) \<and>
     consumer_running s2 \<and> has_raw_data_receiver s2 \<and> preprocess_functions (raw_processor_impl s2) = [] \<and>
     cl_last_post_proc_time c = 0"

lemma sample_run_exists:
  assumes "length xs < 8"
  shows "\<exists>s0 s1 c s2. sample_run xs s0 s1 c s2"
proof -
  let ?R = "dummy_ops 16" and ?L = "BinarySearchQueueModel (dummy_ops 16)" and ?p = "\<lparr>numerator = 1, scale = 1\<rparr>"
  let ?H = "history_step ?R ?L ring_pcq plain_daq sample_file_env (scrap_q plain_env)"
  note L = BinarySearchQueueModel_def [of ?R]
  have half: "is_fraction ?p" by (simp add: is_fraction_def)
  obtain s0 where s0: "init_sample ''raw_0'' (sample_conf ?p ?p) = Inr s0" "fresh_sample ?p ?p s0" "\<not> callback_mode s0"
      "has_raw_data_receiver s0" using init_sample_fresh [OF half half, of "''raw_0''"] by auto
  obtain s1 where s1: "start_dh 5 0 s0 = Inr s1" "fresh_sample ?p ?p s1" "consumer_running s1" "has_raw_data_receiver s1"
      "has_request_callback s1" "run_marker (request_handler_impl s1)" using start_sample [OF s0(2)] s0(3,4) by auto
  let ?t = "dispatch_requests (sample_sent s1) s1" and ?c = "fst (consume_begin (frame_at 0) 0 s1)"
  have steps0: "?H (s0, []) (s1, [])" "?H (s1, []) (?t, [])"
    by (rule Handled, rule Start [OF s1(1)], rule Handled, rule Dispatch, rule s1(5))
  then have okt: "dh_ok queue_inv ?t"
    using s1(2) ring_pointers.handler_step_ok [OF Dispatch [OF s1(5)]] unfolding fresh_sample_def by blast
  have "length (contents (latency_buffer_impl ?t)) + length xs < unat (qsize (latency_buffer_impl ?t))"
    using s1(2) empty_ring_inv assms unfolding fresh_sample_def by (simp add: dispatch_sample)
  moreover have "\<not> (0 - cl_last_post_proc_time ?c) div 1000000 > 1" by (simp add: consume_begin_def)
  moreover have t: "preprocess_functions (raw_processor_impl ?t) = []" "has_raw_data_receiver ?t" "contents (latency_buffer_impl ?t) = []"
      "consumer_running ?t" "unat (qsize (latency_buffer_impl ?t)) = 8"
      "posted (request_handler_impl ?t) = [(sample_request 120 140, False)]" "waiting_requests (request_handler_impl ?t) = []"
      "sint (request_timeout_ms (request_handler_impl ?t)) = 100" "run_marker (request_handler_impl ?t)"
    using s1(2-6) empty_ring_inv by (simp_all add: fresh_sample_def dispatch_sample issue_request_def)
  ultimately obtain s2 where s2: "consume_round ?R ?L ring_pcq 0 (Some xs) (?c, ?t) = Some (Inr (?c, s2))"
      "contents (latency_buffer_impl s2) = xs" "request_handler_impl s2 = request_handler_impl ?t"
      "accepted_round ?R ?L ring_pcq (Some xs) ?t = xs" "dh_ok queue_inv s2" "qsize (latency_buffer_impl s2) = qsize (latency_buffer_impl ?t)"
      "consumer_running s2" "has_raw_data_receiver s2" "preprocess_functions (raw_processor_impl s2) = []"
    using ring_pointers.plain_receive [OF okt, of xs 0 ?c ?R "bs_lower_bound ?R"] unfolding L by auto
  have "?H (?t, []) (s2, [] @ xs)"
    using Consumed [OF t(4) s2(1), of plain_daq sample_file_env "scrap_q plain_env" "[]"] unfolding s2(4) .
  then have steps: "rtranclp ?H (s0, []) (s2, xs)" using steps0 by (simp add: rtranclp.rtrancl_into_rtrancl)
  have "cl_last_post_proc_time ?c = 0" by (simp add: consume_begin_def)
  then have "sample_run xs s0 s1 ?c s2"
    unfolding sample_run_def s2(3,6) using s0(1) s1(1) s2 steps t(5-9) by blast
  then show ?thesis by blast
qed

theorem request_sees_received_stream_witness:
  "\<exists>s0 s1 c s2 h' pieces.
     init_sample ''raw_0'' (sample_conf \<lparr>numerator = 1, scale = 1\<rparr> \<lparr>numerator = 1, scale = 1\<rparr>) = Inr s0 \<and>
     start_dh 5 0 s0 = Inr s1 \<and>
     consume_round (dummy_ops 16) (BinarySearchQueueModel (dummy_ops 16)) ring_pcq 0 (Some (map frame_at [100, 116, 132, 148]))
       (fst (consume_begin (frame_at 0) 0 s1), dispatch_requests (sample_sent s1) s1) = Some (Inr (c, s2)) \<and>
     request_task (dummy_ops 16) (BinarySearchQueueModel (dummy_ops 16)) plain_daq 0 5 (sample_request 120 140) False
       (latency_buffer_impl s2) ((request_handler_impl s2)\<lparr>posted := []\<rparr>) = Some (Inr h') \<and>
     length (events h') = Suc (length (events (request_handler_impl s2))) \<and>
     (\<Union>p \<in> set pieces. piece_frames (dummy_ops 16) p) = {(frame_at 116, 0), (frame_at 132, 0)}"
proof -
  let ?R = "dummy_ops 16" and ?L = "BinarySearchQueueModel (dummy_ops 16)"
  let ?xs = "map frame_at [100, 116, 132, 148]" and ?dr = "sample_request 120 140"
  obtain s0 s1 c s2 where run: "sample_run ?xs s0 s1 c s2" using sample_run_exists [of ?xs] by auto
  note r = run [unfolded sample_run_def]
  note init = r [THEN conjunct1, unfolded init_sample_def] and steps = r [THEN conjunct2, THEN conjunct2, THEN conjunct2, THEN conjunct1]
  have posted: "posted (request_handler_impl s2) = [] @ (?dr, False) # []" using r by simp
  have sent: "\<forall>f. send_ok plain_daq (data_destination ?dr) f" by (simp add: plain_daq_def)
  have now: "contents (latency_buffer_impl s2) = ?xs" using r by blast
  have w: "window_reachable ?R (window_begin ?dr) (contents (latency_buffer_impl s2))"
    and covered: "coverage_code ?R (window_begin ?dr) (window_end ?dr) (contents (latency_buffer_impl s2)) = kFound"
    unfolding now sample_request_sel by (rule sample_frames)+
  obtain h' pieces where "request_task ?R ?L plain_daq 0 5 ?dr False (latency_buffer_impl s2) ((request_handler_impl s2)\<lparr>posted := []\<rparr>) = Some (Inr h')"
      "length (events h') = Suc (length (events (request_handler_impl s2)))"
      "(\<Union>p \<in> set pieces. piece_frames ?R p) = {(frame_at 116, 0), (frame_at 132, 0)}"
    using request_sees_received_stream [OF sample_from_init empty_ring_inv(1,2) sample_queues(3) init steps
        dummy.readout_order_axioms _ sample_frames(1-3) posted w covered sent, of 0 5] sample_frames(6) by auto
  then show ?thesis using r by blast
qed

section \<open>Requests for data that is still to come\<close>

text \<open>A request whose window begins after the newest element is kept.\<close>

lemma uncovered_request_waits:
  assumes inv: "queue_inv b" and ne: "contents b \<noteq> []" and late: "get_timestamp R (last (contents b)) < window_begin dr"
    and timeout: "sint (request_timeout_ms h) > 0"
  shows "\<exists>h'. request_task R (queue_lb_ops search) D now took dr False b h = Some (Inr h') \<and>
              waiting_requests h' = waiting_requests h @ [\<lparr>request = dr, start_time = now\<rparr>] \<and>
              posted h' = posted h \<and> run_marker h' = run_marker h \<and> request_timeout_ms h' = request_timeout_ms h"
proof -
  have "unat (lb_occupancy (queue_lb_ops search) b) \<noteq> 0" using queue.occupancy_elements [OF inv] ne by (simp flip: length_0_conv)
  then have occ: "lb_occupancy (queue_lb_ops search) b \<noteq> 0" by auto
  have "get_fragment_pieces R (queue_lb_ops search) reg b (window_begin dr) e kUnknown = Some (Inr (kNotYet, []))" for reg e
    using queue.timestamps_of_ends [OF inv ne, of R] late by (simp add: get_fragment_pieces_def)
  then show ?thesis
    using occ timeout by (simp add: request_task_def data_request_def respond_def account_response_def finish_fragment_def Let_def)
qed

text \<open>
  C4. A request that came before its data is answered with all of it, unless cleanup was faster: in every
  state a running data handler with a binary-search queue reaches from \<open>init\<close>, when the newest element that was
  accepted begins after the end of the window of a kept request, the next pass over the kept requests posts the
  request again and keeps it no longer; and when the window still begins at least one element span after the oldest
  stored element (the key of the search is not ordered before it: \<open>window_reachable\<close>; otherwise cleanup has
  come too near, see C36), then, wherever the pool's queue holds the request, its task answers it in that state with one
  fragment that covers exactly the frames, of all elements accepted since the buffer was last emptied, that overlap
  the window. As in C3 it is assumed that the accepted elements (there is one at least) have increasing timestamps,
  span equally many ticks, end within 64 bits and hold their frames one after the other, that the window does not
  end before it begins, that sending the fragment succeeds, and of \<open>init\<close> and the queues what C3 assumes.
\<close>

theorem late_data_completes_request:
  fixes P :: "('q, 'a option) pcq_ops" and R :: "'a readout_ops" and w :: RequestElement
  assumes queues: "bounded_fifo P pcq_inv elems valid_size" "valid_size n" "items_to_postprocess_queues processor = []"
    and b: "queue_inv b" "contents b = []" and mem: "alloc_succeeds env StdMalloc 2"
    and init: "init_dh P D fenv iom_ok inputs outputs (Inr b) broken processor n hconf delay
        (new_data_handler pid unset_id unset_run unset_delay no_buffer no_processor no_handler unset_t0) = Inr s0"
    and steps: "rtranclp (history_step R (BinarySearchQueueModel R) P D fenv (scrap_q env)) (s0, []) (s, xs)"
    and ord: "readout_order R" and ne: "xs \<noteq> []" and srt: "ts_sorted R xs" and uni: "uniform_span R xs"
    and reg: "\<forall>x \<in> set xs. regular_frames R x"
  defines "h \<equiv> request_handler_impl s" and "dr \<equiv> request w"
  assumes run: "run_marker h" and w: "w \<in> set (waiting_requests h)"
    and window: "window_begin dr \<le> window_end dr" "window_end dr < get_timestamp R (last xs)"
    and sent: "\<forall>f. send_ok D (data_destination dr) f"
  shows "\<exists>h1. check_waiting_requests R (BinarySearchQueueModel R) now (latency_buffer_impl s) h = Inr h1 \<and>
     history_step R (BinarySearchQueueModel R) P D fenv (scrap_q env) (s, xs) (s\<lparr>request_handler_impl := h1\<rparr>, xs) \<and>
     (dr, True) \<in> set (posted h1) \<and> w \<notin> set (waiting_requests h1) \<and>
     (window_reachable R (window_begin dr) (contents (latency_buffer_impl s)) \<longrightarrow>
      (\<forall>earlier later. posted h1 = earlier @ (dr, True) # later \<longrightarrow>
        (\<exists>h2 pieces. request_task R (BinarySearchQueueModel R) D now' took dr True (latency_buffer_impl s)
             (h1\<lparr>posted := earlier @ later\<rparr>) = Some (Inr h2) \<and>
           events h2 = events h1 @
             [FragmentSent (data_destination dr)
                (set_header_fields D (create_fragment_header D h1 dr) (make_fragment D pieces))] \<and>
           (\<Union>p \<in> set pieces. piece_frames R p) = frames_in_window R (window_begin dr) (window_end dr) xs)))"
proof -
  let ?L = "BinarySearchQueueModel R" and ?q = "latency_buffer_impl s"
  let ?F = "frames_in_window R (window_begin dr) (window_end dr)"
  have "history_inv pcq_inv (s, xs)"
    by (rule history_from_init [OF pointer_queues.intro [OF queues(1)] queues(2,3) b mem init steps [unfolded BinarySearchQueueModel_def]])
  then obtain k where k: "contents ?q = drop k xs" "k < length xs" and inv: "queue_inv ?q"
    using ne by (auto simp: history_inv_def dh_ok_def)
  have now: "contents ?q \<noteq> []" "ts_sorted R (contents ?q)" "uniform_span R (contents ?q)" "\<forall>x \<in> set (contents ?q). regular_frames R x"
    and newest: "last (contents ?q) = last xs"
    using k ts_sorted_drop [OF srt, of k] uni reg by (auto simp: uniform_span_def dest: in_set_dropD)
  have sb: "searchable_buffer ?L queue_inv contents queue_pos R (\<lambda>_. ts_sorted R)"
    using readout_order.binary_search_provides [OF ord] by (rule forward_searchable_buffer.axioms(1))
  have "due now (if contents ?q = [] then 0 else get_timestamp R (last (contents ?q))) (sint (request_timeout_ms h)) w"
    using now(1) newest window(2) by (simp add: due_def dr_def)
  from check_waiting_posts [OF inv run w this] obtain h1 where h1: "check_waiting_requests R ?L now ?q h = Inr h1"
      "(dr, True) \<in> set (posted h1)" "w \<notin> set (waiting_requests h1)" unfolding dr_def by blast
  have task: "window_reachable R (window_begin dr) (contents ?q) \<Longrightarrow> \<exists>h2 pieces. request_task R ?L D now' took dr True ?q (h1\<lparr>posted := ps\<rparr>) = Some (Inr h2) \<and>
      events h2 = events h1 @ [FragmentSent (data_destination dr)
        (set_header_fields D (create_fragment_header D h1 dr) (make_fragment D pieces))] \<and>
      (\<Union>p \<in> set pieces. piece_frames R p) = ?F xs" for ps
  proof -
    assume reachable: "window_reachable R (window_begin dr) (contents ?q)"
    have "get_timestamp R (hd (contents ?q)) \<le> window_begin dr"
      by (rule searchable_buffer.reachable_begin [OF sb now(3,1) reachable])
    then have covered: "coverage_code R (window_begin dr) (window_end dr) (contents ?q) = kFound"
      using window newest by (auto simp: coverage_code_def)
    have frames: "?F (contents ?q) = ?F xs"
      unfolding k(1) by (rule window_ignores_removed [OF ord srt uni reg k(2) reachable [unfolded k(1)]])
    show ?thesis
      using covered_request_answered [OF ord inv now reachable covered sent, of now' took True "h1\<lparr>posted := ps\<rparr>"] frames
      by (simp add: create_fragment_header_def)
  qed
  have "history_step R ?L P D fenv (scrap_q env) (s, xs) (s\<lparr>request_handler_impl := h1\<rparr>, xs)"
    using h1(1) unfolding h_def by (intro Handled CheckWaiting)
  then show ?thesis using h1 task by blast
qed

theorem late_data_completes_request_witness:
  "\<exists>s0 s1 c s2 h3 s4 h5 earlier later h6 pieces.
     sample_run (map frame_at [100, 116]) s0 s1 c s2 \<and>
     request_task (dummy_ops 16) (BinarySearchQueueModel (dummy_ops 16)) plain_daq 0 5 (sample_request 120 140) False
       (latency_buffer_impl s2) ((request_handler_impl s2)\<lparr>posted := [] @ []\<rparr>) = Some (Inr h3) \<and>
     waiting_requests h3 = [\<lparr>request = sample_request 120 140, start_time = 0\<rparr>] \<and>
     consume_round (dummy_ops 16) (BinarySearchQueueModel (dummy_ops 16)) ring_pcq 0 (Some (map frame_at [132, 148]))
       (c, s2\<lparr>request_handler_impl := h3\<rparr>) = Some (Inr (c, s4)) \<and>
     check_waiting_requests (dummy_ops 16) (BinarySearchQueueModel (dummy_ops 16)) 7 (latency_buffer_impl s4) (request_handler_impl s4) = Inr h5 \<and>
     request_task (dummy_ops 16) (BinarySearchQueueModel (dummy_ops 16)) plain_daq 9 5 (sample_request 120 140) True
       (latency_buffer_impl s4) (h5\<lparr>posted := earlier @ later\<rparr>) = Some (Inr h6) \<and>
     length (events h6) = Suc (length (events h5)) \<and>
     (\<Union>p \<in> set pieces. piece_frames (dummy_ops 16) p) = {(frame_at 116, 0), (frame_at 132, 0)}"
proof -
  let ?R = "dummy_ops 16" and ?L = "BinarySearchQueueModel (dummy_ops 16)" and ?dr = "sample_request 120 140"
  let ?xs = "map frame_at [100, 116]" and ?ys = "map frame_at [132, 148]" and ?w = "\<lparr>request = sample_request 120 140, start_time = 0\<rparr>"
  let ?H = "history_step ?R ?L ring_pcq plain_daq sample_file_env (scrap_q plain_env)"
  note L = BinarySearchQueueModel_def [of ?R]
  obtain s0 s1 c s2 where run: "sample_run ?xs s0 s1 c s2" using sample_run_exists [of ?xs] by auto
  note r = run [unfolded sample_run_def]
  note init = r [THEN conjunct1, unfolded init_sample_def] and steps = r [THEN conjunct2, THEN conjunct2, THEN conjunct2, THEN conjunct1]
  have s2: "dh_ok queue_inv s2" "queue_inv (latency_buffer_impl s2)" "contents (latency_buffer_impl s2) = ?xs"
      "posted (request_handler_impl s2) = [] @ (?dr, False) # []" using r by (simp_all add: dh_ok_def)
  let ?h = "(request_handler_impl s2)\<lparr>posted := [] @ []\<rparr>"
  have "get_timestamp ?R (last (contents (latency_buffer_impl s2))) < window_begin ?dr" "contents (latency_buffer_impl s2) \<noteq> []"
      "sint (request_timeout_ms ?h) > 0" using r by simp_all
  then obtain h3 where h3: "request_task ?R ?L plain_daq 0 5 ?dr False (latency_buffer_impl s2) ?h = Some (Inr h3)"
      "waiting_requests h3 = [?w]" "run_marker h3"
    using uncovered_request_waits [OF s2(2), of ?R ?dr ?h "bs_lower_bound ?R" plain_daq 0 5] r unfolding L by auto
  let ?s3 = "s2\<lparr>request_handler_impl := h3\<rparr>"
  have step3: "?H (s2, ?xs) (?s3, ?xs)" by (rule Handled, rule RunTask [OF s2(4) h3(1)])
  have ok3: "dh_ok queue_inv ?s3"
    using ring_pointers.handler_step_ok [OF RunTask [OF s2(4) h3(1) [unfolded L], of ring_pcq sample_file_env] s2(1)] .
  have "length (contents (latency_buffer_impl ?s3)) + length ?ys < unat (qsize (latency_buffer_impl ?s3))"
      "\<not> (0 - cl_last_post_proc_time c) div 1000000 > 1" "has_raw_data_receiver ?s3"
      "preprocess_functions (raw_processor_impl ?s3) = []" and on: "consumer_running ?s3" using r by simp_all
  then obtain s4 where s4: "consume_round ?R ?L ring_pcq 0 (Some ?ys) (c, ?s3) = Some (Inr (c, s4))"
      "contents (latency_buffer_impl s4) = ?xs @ ?ys" "request_handler_impl s4 = h3"
      "accepted_round ?R ?L ring_pcq (Some ?ys) ?s3 = ?ys"
    using ring_pointers.plain_receive [OF ok3, of ?ys 0 c ?R "bs_lower_bound ?R"] s2(3) unfolding L by auto
  have "?H (?s3, ?xs) (s4, ?xs @ ?ys)"
    using Consumed [OF on s4(1), of plain_daq sample_file_env "scrap_q plain_env" ?xs] unfolding s4(4) .
  then have steps4: "rtranclp ?H (s0, []) (s4, ?xs @ ?ys)" using steps step3 by (meson rtranclp.rtrancl_into_rtrancl)
  have all: "?xs @ ?ys = map frame_at [100, 116, 132, 148]" by simp
  have sent: "\<forall>f. send_ok plain_daq (data_destination ?dr) f" by (simp add: plain_daq_def)
  have w: "run_marker (request_handler_impl s4)" "?w \<in> set (waiting_requests (request_handler_impl s4))"
    using h3(2,3) s4(3) by simp_all
  have window: "window_begin ?dr \<le> window_end ?dr" "window_end ?dr < get_timestamp ?R (last (map frame_at [100, 116, 132, 148]))"
      "window_reachable ?R (window_begin ?dr) (contents (latency_buffer_impl s4))"
    unfolding s4(2) all sample_request_sel by (simp, simp, rule sample_frames(4))
  have ne: "map frame_at [100, 116, 132, 148] \<noteq> []" by simp
  note th = late_data_completes_request [OF sample_from_init empty_ring_inv(1,2) sample_queues(3) init steps4 [unfolded all]
      dummy.readout_order_axioms ne sample_frames(1-3) w, unfolded RequestElement.simps, OF window(1,2) sent, of 7 9 5]
  from th obtain h5 where h5: "check_waiting_requests ?R ?L 7 (latency_buffer_impl s4) (request_handler_impl s4) = Inr h5"
      "(?dr, True) \<in> set (posted h5)" and answered: "window_reachable ?R (window_begin ?dr) (contents (latency_buffer_impl s4)) \<longrightarrow>
       (\<forall>earlier later. posted h5 = earlier @ (?dr, True) # later \<longrightarrow>
        (\<exists>h6 pieces. request_task ?R ?L plain_daq 9 5 ?dr True (latency_buffer_impl s4) (h5\<lparr>posted := earlier @ later\<rparr>) = Some (Inr h6) \<and>
           events h6 = events h5 @ [FragmentSent (data_destination ?dr)
             (set_header_fields plain_daq (create_fragment_header plain_daq h5 ?dr) (make_fragment plain_daq pieces))] \<and>
           (\<Union>p \<in> set pieces. piece_frames ?R p) =
             frames_in_window ?R (window_begin ?dr) (window_end ?dr) (map frame_at [100, 116, 132, 148])))"
    by (elim exE conjE) (rule that)
  obtain earlier later where "posted h5 = earlier @ (?dr, True) # later" using split_list [OF h5(2)] by blast
  then obtain h6 pieces where h6: "request_task ?R ?L plain_daq 9 5 ?dr True (latency_buffer_impl s4) (h5\<lparr>posted := earlier @ later\<rparr>) = Some (Inr h6)"
      "length (events h6) = Suc (length (events h5))" "(\<Union>p \<in> set pieces. piece_frames ?R p) = {(frame_at 116, 0), (frame_at 132, 0)}"
    using answered [rule_format, OF window(3)] unfolding sample_request_sel sample_frames(6) by (metis length_append_singleton)
  show ?thesis using run h3(1,2) s4(1) h5(1) h6 by blast
qed

end
